(* ===== verification/Prelude.thy ===== *)
theory Prelude
  imports Main "HOL-Library.Word" "HOL-Library.Sublist"
begin

text \<open>
  Shared vocabulary of the development: JavaScript strings as lists of UTF-16 code units with
  the string operations the client uses (\<open>trim\<close>, \<open>startsWith\<close>, \<open>indexOf\<close>, \<open>split\<close>,
  \<open>join\<close>), the update and removal by key that every React provider is built on, and the two
  rules by which an invariant of single steps becomes an invariant of whole runs.
\<close>

named_theorems js_text \<open>evaluation of string literals and string operations\<close>

section \<open>Strings\<close>

text \<open>A JavaScript string is a sequence of 16-bit code units; \<open>length\<close> counts code units.\<close>

type_synonym jschar = "16 word"
type_synonym jstring = "jschar list"

text \<open>An ASCII literal of the source, as code units.\<close>

definition js :: "string \<Rightarrow> jstring" where
  "js s = map of_char s"

lemma js_Nil [simp]: "js [] = []"
  by (simp add: js_def)

lemma js_Cons [js_text]: "js (c # s) = of_char c # js s"
  by (simp add: js_def)

lemma js_append: "js (s @ t) = js s @ js t"
  by (simp add: js_def)

lemma length_js [simp]: "length (js s) = length s"
  by (simp add: js_def)

lemma js_eq_Nil [simp]: "js s = [] \<longleftrightarrow> s = []"
  by (simp add: js_def)

lemma of_char_jschar_eq: "(of_char c :: jschar) = of_char d \<longleftrightarrow> c = d"
proof -
  have less: "(of_char c :: nat) < 2 ^ 16" for c
  proof -
    have "(of_char c :: nat) < 256" by (metis mod_less_divisor of_char_mod_256 zero_less_numeral)
    then show ?thesis by (rule less_le_trans) simp
  qed
  have "(of_nat (of_char c) :: jschar) = of_nat (of_char d) \<longleftrightarrow> (of_char c :: nat) = of_char d"
    using less [of c] less [of d] by (simp add: word_of_nat_eq_iff take_bit_nat_eq_self del: of_nat_of_char)
  then show ?thesis by (simp only: of_nat_of_char of_char_eq_iff)
qed

lemma js_inject [simp]: "js s = js t \<longleftrightarrow> s = t"
  unfolding js_def by (rule inj_map_eq_map) (simp add: inj_def of_char_jschar_eq)

text \<open>
  White space as \<open>String.prototype.trim\<close> sees it: the WhiteSpace and LineTerminator code
  units of ECMAScript.
\<close>

definition is_ws :: "jschar \<Rightarrow> bool" where
  "is_ws c \<longleftrightarrow> c \<in> set [0x9, 0xA, 0xB, 0xC, 0xD, 0x20, 0xA0, 0x1680, 0x2000, 0x2001, 0x2002,
     0x2003, 0x2004, 0x2005, 0x2006, 0x2007, 0x2008, 0x2009, 0x200A, 0x2028, 0x2029, 0x202F,
     0x205F, 0x3000, 0xFEFF]"

definition trim :: "jstring \<Rightarrow> jstring" where
  "trim s = rev (dropWhile is_ws (rev (dropWhile is_ws s)))"

definition starts_with :: "jstring \<Rightarrow> jstring \<Rightarrow> bool" where
  "starts_with p s \<longleftrightarrow> take (length p) s = p"

text \<open>\<open>indexOf\<close>: the first position where the pattern occurs (\<open>None\<close> for \<open>-1\<close>).\<close>

fun index_of :: "jstring \<Rightarrow> jstring \<Rightarrow> nat option" where
  "index_of p [] = (if p = [] then Some 0 else None)"
| "index_of p (x # xs) =
     (if starts_with p (x # xs) then Some 0 else map_option Suc (index_of p xs))"

text \<open>\<open>split\<close> at a one-character separator: never empty, as in JavaScript.\<close>

fun split_on :: "jschar \<Rightarrow> jstring \<Rightarrow> jstring list" where
  "split_on c [] = [[]]"
| "split_on c (x # xs) =
     (if x = c then [] # split_on c xs
      else (case split_on c xs of [] \<Rightarrow> [[x]] | l # ls \<Rightarrow> (x # l) # ls))"

fun join :: "jstring \<Rightarrow> jstring list \<Rightarrow> jstring" where
  "join sep [] = []"
| "join sep [s] = s"
| "join sep (s # ss) = s @ sep @ join sep ss"

subsection \<open>Trimming\<close>

lemma trim_Nil [simp]: "trim [] = []"
  by (simp add: trim_def)

lemma set_dropWhile_subset: "set (dropWhile P s) \<subseteq> set s"
  by (rule set_mono_suffix [OF suffix_dropWhile])

lemma trim_eq_Nil: "trim s = [] \<longleftrightarrow> (\<forall>c \<in> set s. is_ws c)"
proof -
  have "(\<forall>c \<in> set (dropWhile is_ws s). is_ws c) \<longleftrightarrow> dropWhile is_ws s = []"
    by (metis empty_iff hd_dropWhile hd_in_set list.set(1))
  moreover have "trim s = [] \<longleftrightarrow> (\<forall>c \<in> set (dropWhile is_ws s). is_ws c)"
    by (simp only: trim_def rev_is_Nil_conv dropWhile_eq_Nil_conv set_rev)
  ultimately show ?thesis by (simp only: dropWhile_eq_Nil_conv)
qed

lemma hd_trim: "trim s \<noteq> [] \<Longrightarrow> \<not> is_ws (hd (trim s))"
proof -
  assume ne: "trim s \<noteq> []"
  let ?d = "dropWhile is_ws s"
  from ne have d: "?d \<noteq> []" by (metis dropWhile.simps(1) rev.simps(1) trim_def)
  have "?d = trim s @ rev (takeWhile is_ws (rev ?d))"
    unfolding trim_def by (metis rev_append rev_rev_ident takeWhile_dropWhile_id)
  with ne have "hd ?d = hd (trim s)" by (metis hd_append2)
  with d show ?thesis by (metis hd_dropWhile)
qed

lemma last_trim: "trim s \<noteq> [] \<Longrightarrow> \<not> is_ws (last (trim s))"
  unfolding trim_def by (metis hd_dropWhile last_rev rev_is_Nil_conv)

lemma trim_id: "s = [] \<or> (\<not> is_ws (hd s) \<and> \<not> is_ws (last s)) \<Longrightarrow> trim s = s"
proof (elim disjE conjE)
  assume "\<not> is_ws (hd s)" and "\<not> is_ws (last s)"
  moreover from this have "dropWhile is_ws s = s" by (cases s) auto
  moreover have "dropWhile is_ws (rev s) = rev s"
    using calculation by (cases s rule: rev_cases) auto
  ultimately show "trim s = s" by (simp add: trim_def)
qed simp

lemma trim_trim [simp]: "trim (trim s) = trim s"
  by (rule trim_id) (use hd_trim last_trim in blast)

lemma trim_ws_Cons: "is_ws c \<Longrightarrow> trim (c # s) = trim s"
  by (simp add: trim_def)

lemma set_trim: "set (trim s) \<subseteq> set s"
  using set_dropWhile_subset [of is_ws s] set_dropWhile_subset [of is_ws "rev (dropWhile is_ws s)"]
  by (auto simp: trim_def)

subsection \<open>Prefixes and searching\<close>

lemma starts_with_iff: "starts_with p s \<longleftrightarrow> (\<exists>t. s = p @ t)"
  unfolding starts_with_def by (metis append_eq_conv_conj)

lemma starts_with_append [simp]: "starts_with p (p @ s)"
  by (simp add: starts_with_def)

lemma starts_with_appendI: "starts_with p s \<Longrightarrow> starts_with p (s @ t)"
  by (auto simp: starts_with_iff)

lemma starts_with_append_long:
  "length p \<le> length s \<Longrightarrow> starts_with p (s @ t) \<longleftrightarrow> starts_with p s"
  by (simp add: starts_with_def)

lemma index_of_Some:
  "index_of p s = Some i \<Longrightarrow> i + length p \<le> length s \<and> s = take i s @ p @ drop (i + length p) s"
proof (induction p s arbitrary: i rule: index_of.induct)
  case (2 p x xs)
  show ?case
  proof (cases "starts_with p (x # xs)")
    case True
    with "2.prems" have i: "i = 0" by simp
    from True obtain t where t: "x # xs = p @ t" by (auto simp: starts_with_iff)
    then show ?thesis unfolding t i by simp
  next
    case False
    with 2 show ?thesis by auto
  qed
qed (auto split: if_splits)

lemma index_of_bound: "index_of p s = Some i \<Longrightarrow> i + length p \<le> length s"
  by (simp add: index_of_Some)

lemma index_of_first:
  "index_of p s = Some i \<Longrightarrow> j < i \<Longrightarrow> \<not> starts_with p (drop j s)"
proof (induction p s arbitrary: i j rule: index_of.induct)
  case (2 p x xs)
  then show ?case by (cases j) (auto split: if_splits)
qed (auto split: if_splits)

lemma index_of_None: "index_of p s = None \<longleftrightarrow> (\<nexists>u v. s = u @ p @ v)"
proof (induction p s rule: index_of.induct)
  case (2 p x xs)
  have "(\<exists>u v. x # xs = u @ p @ v) \<longleftrightarrow> starts_with p (x # xs) \<or> (\<exists>u v. xs = u @ p @ v)"
  proof
    assume "\<exists>u v. x # xs = u @ p @ v"
    then obtain u v where "x # xs = u @ p @ v" by blast
    then show "starts_with p (x # xs) \<or> (\<exists>u v. xs = u @ p @ v)"
      by (cases u) (auto simp: starts_with_iff)
  next
    assume "starts_with p (x # xs) \<or> (\<exists>u v. xs = u @ p @ v)"
    then show "\<exists>u v. x # xs = u @ p @ v"
      unfolding starts_with_iff by (metis append_Cons append_Nil)
  qed
  with 2 show ?case by auto
qed auto

lemma index_of_append:
  "index_of p s = Some i \<Longrightarrow> index_of p (s @ t) = Some i"
proof (induction p s arbitrary: i rule: index_of.induct)
  case (1 p)
  then show ?case by (cases t) (auto simp: starts_with_def split: if_splits)
next
  case (2 p x xs)
  show ?case
  proof (cases "starts_with p (x # xs)")
    case True
    with 2 show ?thesis using starts_with_appendI [of p "x # xs" t] by simp
  next
    case False
    with "2.prems" obtain k where k: "index_of p xs = Some k" "i = Suc k" by auto
    then have "length p \<le> length (x # xs)" using index_of_bound [of p xs k] by simp
    with False have "\<not> starts_with p (x # xs @ t)"
      using starts_with_append_long [of p "x # xs" t] by simp
    with 2 False k show ?thesis by simp
  qed
qed

subsection \<open>Lines\<close>

lemma split_on_not_Nil [simp]: "split_on c s \<noteq> []"
  by (cases s) (auto split: list.splits)

lemma split_on_single: "c \<notin> set s \<Longrightarrow> split_on c s = [s]"
  by (induction s) auto

lemma split_on_append: "c \<notin> set s \<Longrightarrow> split_on c (s @ c # t) = s # split_on c t"
  by (induction s) auto

lemma join_Cons: "ss \<noteq> [] \<Longrightarrow> join sep (s # ss) = s @ sep @ join sep ss"
  by (cases ss) auto

lemma join_split_on: "join [c] (split_on c s) = s"
proof (induction s)
  case (Cons x xs)
  obtain l ls where "split_on c xs = l # ls" by (cases "split_on c xs") auto
  with Cons show ?case by (cases ls) (auto simp: join_Cons)
qed simp

section \<open>Keyed lists\<close>

text \<open>
  \<open>xs.map((x) => x.id === k ? f(x) : x)\<close> and \<open>xs.filter((x) => x.id !== k)\<close>, the two
  updates all providers apply to their lists.
\<close>

definition patch_by :: "('a \<Rightarrow> 'k) \<Rightarrow> 'k \<Rightarrow> ('a \<Rightarrow> 'a) \<Rightarrow> 'a list \<Rightarrow> 'a list" where
  "patch_by key k f xs = map (\<lambda>x. if key x = k then f x else x) xs"

definition remove_by :: "('a \<Rightarrow> 'k) \<Rightarrow> 'k \<Rightarrow> 'a list \<Rightarrow> 'a list" where
  "remove_by key k xs = filter (\<lambda>x. key x \<noteq> k) xs"

lemma patch_by_simps [simp]:
  "patch_by key k f [] = []"
  "patch_by key k f (x # xs) = (if key x = k then f x else x) # patch_by key k f xs"
  "patch_by key k f (xs @ ys) = patch_by key k f xs @ patch_by key k f ys"
  "length (patch_by key k f xs) = length xs"
  by (simp_all add: patch_by_def)

lemma remove_by_simps [simp]:
  "remove_by key k [] = []"
  "remove_by key k (x # xs) = (if key x = k then remove_by key k xs else x # remove_by key k xs)"
  "remove_by key k (xs @ ys) = remove_by key k xs @ remove_by key k ys"
  "set (remove_by key k xs) = {x \<in> set xs. key x \<noteq> k}"
  by (auto simp: remove_by_def)

lemma patch_by_absent [simp]: "k \<notin> key ` set xs \<Longrightarrow> patch_by key k f xs = xs"
  by (induction xs) auto

lemma remove_by_absent [simp]: "k \<notin> key ` set xs \<Longrightarrow> remove_by key k xs = xs"
  by (induction xs) auto

lemma map_key_patch_by: "(\<And>x. key (f x) = key x) \<Longrightarrow> map key (patch_by key k f xs) = map key xs"
  by (induction xs) auto

lemma patch_by_patch_by:
  "(\<And>x. key (f x) = key x) \<Longrightarrow> patch_by key k g (patch_by key k f xs) = patch_by key k (g \<circ> f) xs"
  by (induction xs) auto

lemma map_key_remove_by: "map key (remove_by key k xs) = filter (\<lambda>j. j \<noteq> k) (map key xs)"
  by (induction xs) auto

lemma distinct_remove_by: "distinct (map key xs) \<Longrightarrow> distinct (map key (remove_by key k xs))"
  by (simp add: map_key_remove_by)

section \<open>Runs and invariants\<close>

text \<open>A component whose events are total functions of its state; a run folds them.\<close>

locale machine_invariant =
  fixes step :: "'s \<Rightarrow> 'e \<Rightarrow> 's"
    and inv :: "'s \<Rightarrow> bool"
  assumes inv_step: "inv s \<Longrightarrow> inv (step s e)"
begin

lemma inv_run: "inv s \<Longrightarrow> inv (foldl step s es)"
  by (induction es arbitrary: s) (auto intro: inv_step)

end

text \<open>A component with a scheduler: its steps are a relation, its runs the closure.\<close>

locale transition_invariant =
  fixes init :: 's
    and step :: "'s \<Rightarrow> 's \<Rightarrow> bool"
    and inv :: "'s \<Rightarrow> bool"
  assumes inv_init: "inv init"
    and inv_step: "inv s \<Longrightarrow> step s t \<Longrightarrow> inv t"
begin

lemma inv_reachable: "step\<^sup>*\<^sup>* init s \<Longrightarrow> inv s"
  by (induction rule: rtranclp_induct) (auto intro: inv_init inv_step)

end

text \<open>Steps that lose weight: they end, in a state where none is left.\<close>

locale weighted_steps =
  fixes step :: "'s \<Rightarrow> 's \<Rightarrow> bool"
    and inv :: "'s \<Rightarrow> bool"
    and weight :: "'s \<Rightarrow> nat"
  assumes inv_step: "inv s \<Longrightarrow> step s t \<Longrightarrow> inv t"
    and weight_step: "inv s \<Longrightarrow> step s t \<Longrightarrow> weight t < weight s"
begin

lemma inv_steps: "step\<^sup>*\<^sup>* s t \<Longrightarrow> inv s \<Longrightarrow> inv t"
  by (induction rule: rtranclp_induct) (auto intro: inv_step)

lemma inv_relpow: "(step ^^ n) s t \<Longrightarrow> inv s \<Longrightarrow> inv t"
  by (auto intro: inv_steps relpowp_imp_rtranclp)

lemma bounded: "(step ^^ n) s t \<Longrightarrow> inv s \<Longrightarrow> n + weight t \<le> weight s"
proof (induction n arbitrary: t)
  case (Suc n)
  then obtain u where "(step ^^ n) s u" "step u t" by auto
  with Suc weight_step [of u t] inv_relpow [of n s u] show ?case by fastforce
qed simp

lemma ends: "inv s \<Longrightarrow> \<exists>t. step\<^sup>*\<^sup>* s t \<and> (\<nexists>u. step t u)"
proof (induction s rule: measure_induct_rule [of weight])
  case (less s)
  show ?case
  proof (cases "\<exists>u. step s u")
    case True
    then obtain u where u: "step s u" ..
    with less obtain t where "step\<^sup>*\<^sup>* u t" "\<nexists>v. step t v" using inv_step weight_step by blast
    with u show ?thesis by (meson converse_rtranclp_into_rtranclp)
  qed blast
qed

end

text \<open>
  The events of a run that a guard lets happen, and the abstract events they stand for, each read
  off the state in which it happens.
\<close>

fun guarded :: "('s \<Rightarrow> 'e \<Rightarrow> 's) \<Rightarrow> ('s \<Rightarrow> 'e \<Rightarrow> bool) \<Rightarrow> 's \<Rightarrow> 'e list \<Rightarrow> bool" where
  "guarded step guard s [] \<longleftrightarrow> True"
| "guarded step guard s (e # es) \<longleftrightarrow> guard s e \<and> guarded step guard (step s e) es"

fun labels :: "('s \<Rightarrow> 'e \<Rightarrow> 's) \<Rightarrow> ('s \<Rightarrow> 'e \<Rightarrow> 'b) \<Rightarrow> 's \<Rightarrow> 'e list \<Rightarrow> 'b list" where
  "labels step label s [] = []"
| "labels step label s (e # es) = label s e # labels step label (step s e) es"

text \<open>A component that implements an abstract machine: each of its steps is one of the machine.\<close>

locale refinement =
  fixes step :: "'s \<Rightarrow> 'e \<Rightarrow> 's"
    and guard :: "'s \<Rightarrow> 'e \<Rightarrow> bool"
    and inv :: "'s \<Rightarrow> bool"
    and abs :: "'s \<Rightarrow> 'a"
    and label :: "'s \<Rightarrow> 'e \<Rightarrow> 'b"
    and astep :: "'a \<Rightarrow> 'b \<Rightarrow> 'a"
  assumes inv_step: "inv s \<Longrightarrow> guard s e \<Longrightarrow> inv (step s e)"
    and square: "inv s \<Longrightarrow> guard s e \<Longrightarrow> abs (step s e) = astep (abs s) (label s e)"
begin

lemma inv_guarded: "inv s \<Longrightarrow> guarded step guard s es \<Longrightarrow> inv (foldl step s es)"
  by (induction es arbitrary: s) (auto intro: inv_step)

lemma run_refines:
  "inv s \<Longrightarrow> guarded step guard s es \<Longrightarrow>
   abs (foldl step s es) = foldl astep (abs s) (labels step label s es)"
  by (induction es arbitrary: s) (auto simp: square inv_step)

end

end
