(* ===== verification/JsNumber.thy ===== *)
theory JsNumber
  imports Prelude Complex_Main
begin

text \<open>
  JavaScript numbers: IEEE double rounding of an exact rational (\<open>fl\<close>, round half to even,
  gradual underflow, overflow to infinity) and \<open>Number::toString\<close>. Signed zeros are one
  value here, since nothing in the client tells them apart, and \<open>NaN\<close> does not arise from JSON.
\<close>

section \<open>Doubles\<close>

datatype jsnum = Fin rat | PosInf | NegInf

definition pow2 :: "int \<Rightarrow> rat" where
  "pow2 e = (if 0 \<le> e then 2 ^ nat e else 1 / 2 ^ nat (- e))"

definition pow10 :: "int \<Rightarrow> rat" where
  "pow10 e = (if 0 \<le> e then 10 ^ nat e else 1 / 10 ^ nat (- e))"

definition round_half_even :: "rat \<Rightarrow> int" where
  "round_half_even r =
     (let f = \<lfloor>r\<rfloor>; d = r - of_int f in
      if d < 1/2 then f else if 1/2 < d then f + 1 else if even f then f else f + 1)"

text \<open>The integer part of the binary logarithm of a positive integer.\<close>

function ilog2 :: "int \<Rightarrow> int" where
  "ilog2 p = (if p < 2 then 0 else 1 + ilog2 (p div 2))"
  by pat_completeness auto
termination
  by (relation "measure nat") auto

declare ilog2.simps [simp del]

text \<open>The binary exponent of a positive rational: the greatest \<open>e\<close> with \<open>2 ^ e \<le> r\<close>.\<close>

definition bin_exponent :: "rat \<Rightarrow> int" where
  "bin_exponent r =
     (let (p, q) = quotient_of r; e = ilog2 p - ilog2 q in
      if pow2 e \<le> r then e else e - 1)"

text \<open>The double nearest to a rational.\<close>

definition fl :: "rat \<Rightarrow> jsnum" where
  "fl r =
     (if r = 0 then Fin 0
      else let ulp = pow2 (max (bin_exponent \<bar>r\<bar> - 52) (- 1074));
               v = of_int (round_half_even (\<bar>r\<bar> / ulp)) * ulp in
           if pow2 1024 \<le> v then (if 0 < r then PosInf else NegInf)
           else Fin (if 0 < r then v else - v))"

section \<open>Number to string\<close>

function digits_str :: "int \<Rightarrow> jstring" where
  "digits_str n =
     (if n < 10 then [of_int (48 + n)] else digits_str (n div 10) @ [of_int (48 + n mod 10)])"
  by pat_completeness auto
termination
  by (relation "measure nat") auto

declare digits_str.simps [simp del]

text \<open>The decimal digits of an integer, as a template literal prints an id or a count.\<close>

definition int_str :: "int \<Rightarrow> jstring" where
  "int_str i = (if i < 0 then js ''-'' @ digits_str (- i) else digits_str i)"

text \<open>
  \<open>Number::toString\<close> of a positive double \<open>x\<close>: the least number of digits \<open>k\<close> for which some
  \<open>k\<close>-digit decimal rounds to \<open>x\<close>, the closest of them when there are two. \<open>n\<close> is the decimal
  exponent, \<open>10 ^ (n - 1) \<le> x < 10 ^ n\<close>, found by stepping from an estimate.
\<close>

fun dec_exponent_up :: "nat \<Rightarrow> int \<Rightarrow> rat \<Rightarrow> int" where
  "dec_exponent_up 0 n x = n"
| "dec_exponent_up (Suc f) n x = (if pow10 n \<le> x then dec_exponent_up f (n + 1) x else n)"

definition dec_exponent :: "rat \<Rightarrow> int" where
  "dec_exponent x = (let n = (bin_exponent x * 30103) div 100000 - 1 in dec_exponent_up 4 n x)"

definition closest_digits :: "rat \<Rightarrow> int \<Rightarrow> nat \<Rightarrow> int option" where
  "closest_digits x n k =
     (let y = x / pow10 (n - int k);
          ok = (\<lambda>s. fl (of_int s * pow10 (n - int k)) = Fin x) in
      case filter ok [\<lfloor>y\<rfloor>, \<lfloor>y\<rfloor> + 1] of
        [] \<Rightarrow> None
      | [s] \<Rightarrow> Some s
      | s # t # _ \<Rightarrow> Some (if y - of_int s \<le> of_int t - y then s else t))"

fun shortest_digits :: "rat \<Rightarrow> int \<Rightarrow> nat \<Rightarrow> nat \<Rightarrow> int \<times> nat \<times> int" where
  "shortest_digits x n k 0 = (\<lfloor>x / pow10 (n - int k)\<rfloor>, k, n)"
| "shortest_digits x n k (Suc f) =
     (case closest_digits x n k of
        None \<Rightarrow> shortest_digits x n (Suc k) f
      | Some s \<Rightarrow> if s = 10 ^ k then (10 ^ (k - 1), k, n + 1) else (s, k, n))"

definition format_digits :: "int \<Rightarrow> nat \<Rightarrow> int \<Rightarrow> jstring" where
  "format_digits s k n =
     (let ds = digits_str s; e = n - 1;
          expo = js ''e'' @ (if 0 \<le> e then js ''+'' else js ''-'') @ digits_str \<bar>e\<bar> in
      if int k \<le> n \<and> n \<le> 21 then ds @ replicate (nat (n - int k)) (of_char CHR ''0'')
      else if 0 < n \<and> n \<le> 21 then take (nat n) ds @ js ''.'' @ drop (nat n) ds
      else if - 6 < n \<and> n \<le> 0 then js ''0.'' @ replicate (nat (- n)) (of_char CHR ''0'') @ ds
      else if k = 1 then ds @ expo
      else take 1 ds @ js ''.'' @ drop 1 ds @ expo)"

definition pos_num_str :: "rat \<Rightarrow> jstring" where
  "pos_num_str x =
     (let (s, k, n) = shortest_digits x (dec_exponent x) 1 17 in format_digits s k n)"

text \<open>
  Integers up to \<open>2 ^ 53\<close> are their own shortest decimals, so they print their digits; every
  other double goes through the search.
\<close>

definition num_str :: "jsnum \<Rightarrow> jstring" where
  "num_str v =
     (case v of
        PosInf \<Rightarrow> js ''Infinity''
      | NegInf \<Rightarrow> js ''-Infinity''
      | Fin r \<Rightarrow>
          if of_int \<lfloor>r\<rfloor> = r \<and> \<bar>r\<bar> \<le> 2 ^ 53 then int_str \<lfloor>r\<rfloor>
          else if r < 0 then js ''-'' @ pos_num_str (- r) else pos_num_str r)"

section \<open>Integers are exact\<close>

lemma pow2_pos [simp]: "0 < pow2 e"
  by (simp add: pow2_def)

lemma round_half_even_of_int [simp]: "round_half_even (of_int n) = n"
  by (simp add: round_half_even_def)

lemma ilog2_bounds: "0 < p \<Longrightarrow> 0 \<le> ilog2 p \<and> 2 ^ nat (ilog2 p) \<le> p \<and> p < 2 * 2 ^ nat (ilog2 p)"
proof (induction p rule: ilog2.induct)
  case (1 p)
  show ?case
  proof (cases "p < 2")
    case True
    with 1 show ?thesis by (simp add: ilog2.simps [of p])
  next
    case False
    let ?k = "ilog2 (p div 2)"
    from 1 False have IH: "0 \<le> ?k" "2 ^ nat ?k \<le> p div 2" "p div 2 < 2 * 2 ^ nat ?k" by auto
    from IH(1) have "(2::int) ^ nat (1 + ?k) = 2 * 2 ^ nat ?k" by (simp add: nat_add_distrib)
    with IH False show ?thesis by (simp add: ilog2.simps [of p]) linarith
  qed
qed

lemma bin_exponent_of_int:
  assumes "0 < n" shows "bin_exponent (of_int n) = ilog2 n"
proof -
  from ilog2_bounds [OF assms] have "of_int (2 ^ nat (ilog2 n)) \<le> (of_int n :: rat)"
    by (simp only: of_int_le_iff)
  with ilog2_bounds [OF assms] have "pow2 (ilog2 n) \<le> of_int n" by (simp add: pow2_def)
  moreover have "quotient_of (of_int n) = (n, 1)" by simp
  moreover have "ilog2 1 = 0" by (simp add: ilog2.simps)
  ultimately show ?thesis by (simp add: bin_exponent_def)
qed

lemma fl_pos_int:
  assumes "0 < n" and "n < 2 ^ 53" shows "fl (of_int n) = Fin (of_int n)"
proof -
  let ?e = "ilog2 n"
  from ilog2_bounds [OF assms(1)] have e: "0 \<le> ?e" "2 ^ nat ?e \<le> n" by auto
  with assms(2) have "(2::int) ^ nat ?e < 2 ^ 53" by linarith
  then have "nat ?e < 53" by (rule power_less_imp_less_exp [rotated]) simp
  with e(1) have e52: "?e \<le> 52" by linarith
  have ulp: "pow2 (max (?e - 52) (- 1074)) = 1 / 2 ^ nat (52 - ?e)"
    using e(1) e52 by (cases "?e = 52") (auto simp: pow2_def max_def)
  have "round_half_even (of_int n / (1 / 2 ^ nat (52 - ?e))) = n * 2 ^ nat (52 - ?e)"
    using round_half_even_of_int [of "n * 2 ^ nat (52 - ?e)"] by simp
  moreover have "\<not> pow2 1024 \<le> (of_int n :: rat)"
  proof -
    have "(of_int n :: rat) < of_int (2 ^ 53)" using assms(2) by (simp only: of_int_less_iff)
    also have "\<dots> \<le> pow2 1024" by (simp add: pow2_def)
    finally show ?thesis by simp
  qed
  ultimately show ?thesis
    using assms(1) ulp bin_exponent_of_int [OF assms(1)] by (simp add: fl_def Let_def)
qed

lemma fl_minus: "0 < r \<Longrightarrow> fl r = Fin v \<Longrightarrow> fl (- r) = Fin (- v)"
  by (auto simp: fl_def Let_def split: if_splits)

text \<open>Ids and counters of the API are safe integers, which a double holds exactly.\<close>

lemma fl_safe_int: "\<bar>n\<bar> < 2 ^ 53 \<Longrightarrow> fl (of_int n) = Fin (of_int n)"
  using fl_pos_int [of n] fl_minus [of "of_int (- n)" "of_int (- n)"] fl_pos_int [of "- n"]
  by (cases n "0 :: int" rule: linorder_cases) (auto simp: fl_def)

lemma num_str_safe_int: "\<bar>n\<bar> \<le> 2 ^ 53 \<Longrightarrow> num_str (Fin (of_int n)) = int_str n"
proof -
  assume "\<bar>n\<bar> \<le> 2 ^ 53"
  then have "of_int \<bar>n\<bar> \<le> (of_int (2 ^ 53) :: rat)" by (simp only: of_int_le_iff)
  then show ?thesis by (simp add: num_str_def)
qed

end
