(* ===== verification/Json.thy ===== *)
theory Json
  imports JsNumber
begin

text \<open>
  The JSON the client exchanges with the API and keeps in run nodes: values, \<open>JSON.parse\<close> (over
  code units, with duplicate and index keys ordered as object properties are) and
  \<open>JSON.stringify\<close>, and the few untyped operations the client applies to such values
  (property access, truthiness, \<open>String(v)\<close>, \<open>typeof\<close>).
\<close>

section \<open>Values\<close>

datatype json =
    JNull
  | JBool bool
  | JNum jsnum
  | JStr jstring
  | JArr "json list"
  | JObj "(jstring \<times> json) list"  \<comment> \<open>own properties in enumeration order\<close>

text \<open>A property read may also give \<open>undefined\<close>, which JSON itself has no value for.\<close>

datatype jsval = Undefined | Json json

abbreviation ch :: "char \<Rightarrow> jschar" where
  "ch c \<equiv> of_char c"

subsection \<open>Objects\<close>

definition is_digit :: "jschar \<Rightarrow> bool" where
  "is_digit c \<longleftrightarrow> 48 \<le> c \<and> c \<le> 57"

definition digits_val :: "jstring \<Rightarrow> int" where
  "digits_val ds = foldl (\<lambda>n d. 10 * n + (uint d - 48)) 0 ds"

text \<open>Array-index keys enumerate first, in numeric order.\<close>

definition key_index :: "jstring \<Rightarrow> int option" where
  "key_index k =
     (if k \<noteq> [] \<and> list_all is_digit k \<and> (hd k \<noteq> 48 \<or> k = [48]) \<and> digits_val k < 2 ^ 32 - 1
      then Some (digits_val k) else None)"

fun insert_index :: "int \<Rightarrow> jstring \<times> json \<Rightarrow> (jstring \<times> json) list \<Rightarrow> (jstring \<times> json) list" where
  "insert_index i p [] = [p]"
| "insert_index i p (q # qs) =
     (case key_index (fst q) of
        Some j \<Rightarrow> if i < j then p # q # qs else q # insert_index i p qs
      | None \<Rightarrow> p # q # qs)"

definition obj_put :: "jstring \<Rightarrow> json \<Rightarrow> (jstring \<times> json) list \<Rightarrow> (jstring \<times> json) list" where
  "obj_put k v ps =
     (if k \<in> fst ` set ps then map (\<lambda>(k', v'). if k' = k then (k', v) else (k', v')) ps
      else case key_index k of Some i \<Rightarrow> insert_index i (k, v) ps | None \<Rightarrow> ps @ [(k, v)])"

section \<open>JSON.parse\<close>

definition is_json_ws :: "jschar \<Rightarrow> bool" where
  "is_json_ws c \<longleftrightarrow> c = 0x20 \<or> c = 0xA \<or> c = 0xD \<or> c = 0x9"

definition skip_ws :: "jstring \<Rightarrow> jstring" where
  "skip_ws s = dropWhile is_json_ws s"

definition hex_val :: "jschar \<Rightarrow> int option" where
  "hex_val c =
     (if is_digit c then Some (uint c - 48)
      else if 97 \<le> c \<and> c \<le> 102 then Some (uint c - 87)
      else if 65 \<le> c \<and> c \<le> 70 then Some (uint c - 55) else None)"

definition hex4_val :: "jschar \<Rightarrow> jschar \<Rightarrow> jschar \<Rightarrow> jschar \<Rightarrow> jschar option" where
  "hex4_val a b c d =
     (case (hex_val a, hex_val b, hex_val c, hex_val d) of
        (Some w, Some x, Some y, Some z) \<Rightarrow> Some (of_int (((w * 16 + x) * 16 + y) * 16 + z))
      | _ \<Rightarrow> None)"

definition unescape :: "jschar \<Rightarrow> jschar option" where
  "unescape e = map_of [(0x22, 0x22), (0x5C, 0x5C), (0x2F, 0x2F), (ch CHR ''b'', 0x8),
     (ch CHR ''f'', 0xC), (ch CHR ''n'', 0xA), (ch CHR ''r'', 0xD), (ch CHR ''t'', 0x9)] e"

text \<open>The characters of a string literal up to its closing quote.\<close>

fun p_chars :: "jstring \<Rightarrow> (jstring \<times> jstring) option" where
  "p_chars [] = None"
| "p_chars (c # cs) =
     (if c = 0x22 then Some ([], cs)
      else if c = 0x5C then
        (case cs of
           [] \<Rightarrow> None
         | e # es \<Rightarrow>
             if e = ch CHR ''u'' then
               (case es of
                  w # x # y # z # rest \<Rightarrow>
                    (case hex4_val w x y z of
                       None \<Rightarrow> None
                     | Some u \<Rightarrow> map_option (\<lambda>(s, r). (u # s, r)) (p_chars rest))
                | _ \<Rightarrow> None)
             else
               (case unescape e of
                  None \<Rightarrow> None
                | Some u \<Rightarrow> map_option (\<lambda>(s, r). (u # s, r)) (p_chars es)))
      else if c < 0x20 then None
      else map_option (\<lambda>(s, r). (c # s, r)) (p_chars cs))"

definition p_digits :: "jstring \<Rightarrow> (jstring \<times> jstring) option" where
  "p_digits s =
     (let ds = takeWhile is_digit s in if ds = [] then None else Some (ds, dropWhile is_digit s))"

text \<open>The integer part: a zero, or digits that do not start with one.\<close>

definition p_int :: "jstring \<Rightarrow> (jstring \<times> jstring) option" where
  "p_int s =
     (case s of c # cs \<Rightarrow> if c = 48 then Some ([48], cs) else p_digits s | [] \<Rightarrow> None)"

definition p_frac :: "jstring \<Rightarrow> (jstring \<times> jstring) option" where
  "p_frac s =
     (case s of
        c # cs \<Rightarrow> if c = ch CHR ''.'' then p_digits cs else Some ([], s)
      | [] \<Rightarrow> Some ([], s))"

definition p_exp :: "jstring \<Rightarrow> (int \<times> jstring) option" where
  "p_exp s =
     (case s of
        c # cs \<Rightarrow>
          if c = ch CHR ''e'' \<or> c = ch CHR ''E'' then
            (let (sgn, ds) = (case cs of
                 d # ds \<Rightarrow> if d = ch CHR ''-'' then (-1, ds) else if d = ch CHR ''+'' then (1, ds) else (1, cs)
               | [] \<Rightarrow> (1, cs))
             in map_option (\<lambda>(e, r). (sgn * digits_val e, r)) (p_digits ds))
          else Some (0, s)
      | [] \<Rightarrow> Some (0, s))"

definition p_number :: "jstring \<Rightarrow> (jsnum \<times> jstring) option" where
  "p_number s =
     (let (neg, s0) = (case s of c # cs \<Rightarrow> if c = ch CHR ''-'' then (True, cs) else (False, s) | [] \<Rightarrow> (False, s))
      in case p_int s0 of None \<Rightarrow> None | Some (i, s1) \<Rightarrow>
         (case p_frac s1 of None \<Rightarrow> None | Some (f, s2) \<Rightarrow>
         (case p_exp s2 of None \<Rightarrow> None | Some (e, s3) \<Rightarrow>
            let m = of_int (digits_val (i @ f)) * pow10 (e - int (length f))
            in Some (fl (if neg then - m else m), s3))))"

text \<open>
  Recursive descent with fuel; \<open>p_elems\<close> and \<open>p_members\<close> read a non-empty comma-separated list
  up to its closing bracket.
\<close>

fun p_value :: "nat \<Rightarrow> jstring \<Rightarrow> (json \<times> jstring) option"
  and p_elems :: "nat \<Rightarrow> jstring \<Rightarrow> (json list \<times> jstring) option"
  and p_members :: "nat \<Rightarrow> (jstring \<times> json) list \<Rightarrow> jstring \<Rightarrow> ((jstring \<times> json) list \<times> jstring) option"
where
  "p_value 0 s = None"
| "p_value (Suc f) s =
     (case skip_ws s of
        [] \<Rightarrow> None
      | c # cs \<Rightarrow>
          if c = ch CHR ''{'' then
            (case skip_ws cs of
               [] \<Rightarrow> None
             | d # ds \<Rightarrow> if d = ch CHR ''}'' then Some (JObj [], ds)
                        else map_option (\<lambda>(ps, r). (JObj ps, r)) (p_members f [] (d # ds)))
          else if c = ch CHR ''['' then
            (case skip_ws cs of
               [] \<Rightarrow> None
             | d # ds \<Rightarrow> if d = ch CHR '']'' then Some (JArr [], ds)
                        else map_option (\<lambda>(vs, r). (JArr vs, r)) (p_elems f (d # ds)))
          else if c = 0x22 then map_option (\<lambda>(t, r). (JStr t, r)) (p_chars cs)
          else if starts_with (js ''null'') (c # cs) then Some (JNull, drop 4 (c # cs))
          else if starts_with (js ''true'') (c # cs) then Some (JBool True, drop 4 (c # cs))
          else if starts_with (js ''false'') (c # cs) then Some (JBool False, drop 5 (c # cs))
          else map_option (\<lambda>(n, r). (JNum n, r)) (p_number (c # cs)))"
| "p_elems 0 s = None"
| "p_elems (Suc f) s =
     (case p_value f s of
        None \<Rightarrow> None
      | Some (v, r) \<Rightarrow>
          (case skip_ws r of
             [] \<Rightarrow> None
           | c # cs \<Rightarrow>
               if c = ch CHR '']'' then Some ([v], cs)
               else if c = ch CHR '','' then map_option (\<lambda>(vs, r'). (v # vs, r')) (p_elems f cs)
               else None))"
| "p_members 0 ps s = None"
| "p_members (Suc f) ps s =
     (case skip_ws s of
        [] \<Rightarrow> None
      | q # qs \<Rightarrow>
          if q \<noteq> 0x22 then None else
          (case p_chars qs of
             None \<Rightarrow> None
           | Some (k, r) \<Rightarrow>
               (case skip_ws r of
                  [] \<Rightarrow> None
                | c # cs \<Rightarrow>
                    if c \<noteq> ch CHR '':'' then None else
                    (case p_value f cs of
                       None \<Rightarrow> None
                     | Some (v, r') \<Rightarrow>
                         (case skip_ws r' of
                            [] \<Rightarrow> None
                          | d # ds \<Rightarrow>
                              if d = ch CHR ''}'' then Some (obj_put k v ps, ds)
                              else if d = ch CHR '','' then p_members f (obj_put k v ps) ds
                              else None)))))"

text \<open>\<open>None\<close> is the \<open>SyntaxError\<close> that \<open>JSON.parse\<close> throws.\<close>

definition JSON_parse :: "jstring \<Rightarrow> json option" where
  "JSON_parse s =
     (case p_value (2 * length s + 2) s of
        Some (v, r) \<Rightarrow> if skip_ws r = [] then Some v else None
      | None \<Rightarrow> None)"

section \<open>JSON.stringify\<close>

definition hex_digit :: "int \<Rightarrow> jschar" where
  "hex_digit d = of_int (if d < 10 then 48 + d else 87 + d)"

definition unicode_escape :: "jschar \<Rightarrow> jstring" where
  "unicode_escape c =
     [0x5C, ch CHR ''u'', hex_digit (uint c div 4096), hex_digit (uint c div 256 mod 16),
      hex_digit (uint c div 16 mod 16), hex_digit (uint c mod 16)]"

definition is_high :: "jschar \<Rightarrow> bool" where
  "is_high c \<longleftrightarrow> 0xD800 \<le> c \<and> c \<le> 0xDBFF"

definition is_low :: "jschar \<Rightarrow> bool" where
  "is_low c \<longleftrightarrow> 0xDC00 \<le> c \<and> c \<le> 0xDFFF"

definition escape_unit :: "jschar \<Rightarrow> jstring" where
  "escape_unit c =
     (if c = 0x22 \<or> c = 0x5C then [0x5C, c]
      else if c = 0x8 then [0x5C, ch CHR ''b'']
      else if c = 0xC then [0x5C, ch CHR ''f'']
      else if c = 0xA then [0x5C, ch CHR ''n'']
      else if c = 0xD then [0x5C, ch CHR ''r'']
      else if c = 0x9 then [0x5C, ch CHR ''t'']
      else if c < 0x20 \<or> is_high c \<or> is_low c then unicode_escape c
      else [c])"

text \<open>Surrogate pairs are copied, lone surrogates escaped.\<close>

fun quote_units :: "jstring \<Rightarrow> jstring" where
  "quote_units [] = []"
| "quote_units (c # cs) =
     (if is_high c \<and> cs \<noteq> [] \<and> is_low (hd cs) then c # hd cs # quote_units (tl cs)
      else escape_unit c @ quote_units cs)"

definition quote :: "jstring \<Rightarrow> jstring" where
  "quote s = [0x22] @ quote_units s @ [0x22]"

text \<open>\<open>gap\<close> is the indentation unit (empty for the compact form), \<open>ind\<close> the current indent.\<close>

fun stringify :: "jstring \<Rightarrow> jstring \<Rightarrow> json \<Rightarrow> jstring" where
  "stringify gap ind JNull = js ''null''"
| "stringify gap ind (JBool b) = (if b then js ''true'' else js ''false'')"
| "stringify gap ind (JNum n) = (case n of Fin r \<Rightarrow> num_str n | _ \<Rightarrow> js ''null'')"
| "stringify gap ind (JStr s) = quote s"
| "stringify gap ind (JArr vs) =
     (if vs = [] then js ''[]''
      else if gap = [] then js ''['' @ join (js '','') (map (stringify gap ind) vs) @ js '']''
      else js ''['' @ [0xA] @ (ind @ gap)
             @ join (js '','' @ [0xA] @ (ind @ gap)) (map (stringify gap (ind @ gap)) vs)
             @ [0xA] @ ind @ js '']'')"
| "stringify gap ind (JObj ps) =
     (if ps = [] then js ''{}''
      else if gap = [] then
        js ''{'' @ join (js '','') (map (\<lambda>(k, v). quote k @ js '':'' @ stringify gap ind v) ps) @ js ''}''
      else js ''{'' @ [0xA] @ (ind @ gap)
             @ join (js '','' @ [0xA] @ (ind @ gap))
                 (map (\<lambda>(k, v). quote k @ js '': '' @ stringify gap (ind @ gap) v) ps)
             @ [0xA] @ ind @ js ''}'')"

definition JSON_stringify :: "json \<Rightarrow> jstring" where
  "JSON_stringify v = stringify [] [] v"

section \<open>Untyped operations\<close>

text \<open>Truthiness of a value in a condition.\<close>

fun truthy :: "jsval \<Rightarrow> bool" where
  "truthy Undefined = False"
| "truthy (Json JNull) = False"
| "truthy (Json (JBool b)) = b"
| "truthy (Json (JNum n)) = (n \<noteq> Fin 0)"
| "truthy (Json (JStr s)) = (s \<noteq> [])"
| "truthy (Json _) = True"

text \<open>\<open>typeof v === 'object'\<close> (which \<open>null\<close> satisfies too).\<close>

fun typeof_object :: "jsval \<Rightarrow> bool" where
  "typeof_object (Json JNull) = True"
| "typeof_object (Json (JArr _)) = True"
| "typeof_object (Json (JObj _)) = True"
| "typeof_object _ = False"

text \<open>
  Reading a named property: a \<open>TypeError\<close> (\<open>None\<close>) on \<open>null\<close> and \<open>undefined\<close>, and
  \<open>undefined\<close> on everything but an object that has the property. The names the client reads
  (\<open>id\<close>, \<open>text\<close>, \<open>todos\<close>, \<open>error\<close>, ...) are not properties of any built-in prototype.
\<close>

fun get_prop :: "jstring \<Rightarrow> jsval \<Rightarrow> jsval option" where
  "get_prop k Undefined = None"
| "get_prop k (Json JNull) = None"
| "get_prop k (Json (JObj ps)) = Some (case map_of ps k of Some v \<Rightarrow> Json v | None \<Rightarrow> Undefined)"
| "get_prop k (Json _) = Some Undefined"

text \<open>\<open>Object.values\<close> of an object or an array.\<close>

fun object_values :: "json \<Rightarrow> json list" where
  "object_values (JObj ps) = map snd ps"
| "object_values (JArr vs) = vs"
| "object_values _ = []"

text \<open>\<open>String(v)\<close>, which is also what a template literal inserts.\<close>

fun js_string :: "json \<Rightarrow> jstring" where
  "js_string JNull = js ''null''"
| "js_string (JBool b) = (if b then js ''true'' else js ''false'')"
| "js_string (JNum n) = num_str n"
| "js_string (JStr s) = s"
| "js_string (JArr vs) = join (js '','') (map (\<lambda>v. if v = JNull then [] else js_string v) vs)"
| "js_string (JObj ps) = js ''[object Object]''"

fun val_string :: "jsval \<Rightarrow> jstring" where
  "val_string Undefined = js ''undefined''"
| "val_string (Json v) = js_string v"

end
