(* ===== verification/JsonRoundTrip.thy ===== *)
theory JsonRoundTrip
  imports Json
begin

text \<open>
  \<open>JSON.parse\<close> reads back what \<open>JSON.stringify\<close> writes, for values of safe integers, strings,
  arrays and objects in insertion order: the string escapes and their inverse, the digits of an
  integer, and the recursive descent with the fuel \<open>JSON_parse\<close> gives it.
\<close>

section \<open>Strings\<close>

lemma hex_val_digit: "0 \<le> d \<Longrightarrow> d < 16 \<Longrightarrow> hex_val (hex_digit d) = Some d"
proof -
  assume "0 \<le> d" "d < 16"
  then have "d \<in> set [0..15]" by simp
  moreover have "\<forall>d \<in> set [0..15]. hex_val (hex_digit d) = Some d" by code_simp
  ultimately show ?thesis by blast
qed

lemma hex4_unicode:
  "hex4_val (hex_digit (uint c div 4096)) (hex_digit (uint c div 256 mod 16))
     (hex_digit (uint c div 16 mod 16)) (hex_digit (uint c mod 16)) = Some (c :: jschar)"
proof -
  let ?u = "uint c"
  have b: "0 \<le> ?u" "?u < 65536" using uint_lt2p [of c] by simp_all
  then have top: "0 \<le> ?u div 4096" "?u div 4096 < 16"
    using zdiv_mono1 [of ?u 65535 4096] by (simp_all add: pos_imp_zdiv_nonneg_iff)
  have "?u div 4096 = ?u div 16 div 16 div 16" "?u div 256 = ?u div 16 div 16"
    by (simp_all flip: zdiv_zmult2_eq)
  then have sum: "((?u div 4096 * 16 + ?u div 256 mod 16) * 16 + ?u div 16 mod 16) * 16 + ?u mod 16 = ?u"
    using div_mult_mod_eq [of ?u 16] div_mult_mod_eq [of "?u div 16" 16]
      div_mult_mod_eq [of "?u div 16 div 16" 16] by (simp add: mult.commute)
  have "hex_val (hex_digit (?u div 4096)) = Some (?u div 4096)" using top by (rule hex_val_digit)
  moreover have "hex_val (hex_digit (x mod 16)) = Some (x mod 16)" for x by (rule hex_val_digit) simp_all
  ultimately show ?thesis by (simp only: hex4_val_def prod.case option.case sum word_of_int_uint)
qed

lemma p_chars_escape: "p_chars (escape_unit c @ s) = map_option (\<lambda>(t, r). (c # t, r)) (p_chars s)"
  by (auto simp: escape_unit_def unescape_def unicode_escape_def hex4_unicode is_high_def is_low_def)

lemma p_chars_plain: "0x80 \<le> c \<Longrightarrow> p_chars (c # s) = map_option (\<lambda>(t, r). (c # t, r)) (p_chars s)"
proof -
  assume c: "0x80 \<le> c"
  then have "0x20 \<le> c" by (rule order_trans [rotated]) simp
  with c show ?thesis by (auto simp: not_less [symmetric])
qed

lemma p_chars_quote: "p_chars (quote_units s @ 0x22 # r) = Some (s, r)"
proof (induction s rule: quote_units.induct)
  case (2 c cs)
  show ?case
  proof (cases "is_high c \<and> cs \<noteq> [] \<and> is_low (hd cs)")
    case True
    then have "0x80 \<le> c" "0x80 \<le> hd cs" by (auto simp: is_high_def is_low_def elim: order_trans [rotated])
    with 2 True show ?thesis by (simp add: p_chars_plain del: p_chars.simps)
  next
    case False
    with 2 show ?thesis by (auto simp: p_chars_escape simp del: p_chars.simps)
  qed
qed simp

section \<open>Integers\<close>

lemma digits_val_snoc: "digits_val (ds @ [d]) = 10 * digits_val ds + (uint d - 48)"
  by (simp add: digits_val_def)

lemma digit_char: "0 \<le> n \<Longrightarrow> n < 10 \<Longrightarrow> uint (of_int (48 + n) :: jschar) = 48 + n \<and> is_digit (of_int (48 + n))"
proof -
  assume "0 \<le> n" "n < 10"
  then have "n \<in> set [0..9]" by simp
  moreover have "\<forall>n \<in> set [0..9]. uint (of_int (48 + n) :: jschar) = 48 + n \<and> is_digit (of_int (48 + n))"
    by code_simp
  ultimately show ?thesis by blast
qed

lemma digits_str_val:
  "0 \<le> n \<Longrightarrow> digits_str n \<noteq> [] \<and> list_all is_digit (digits_str n) \<and> digits_val (digits_str n) = n"
proof (induction n rule: digits_str.induct)
  case (1 n)
  show ?case
  proof (cases "n < 10")
    case True
    with 1 digit_char [of n] show ?thesis by (simp add: digits_str.simps [of n] digits_val_def)
  next
    case False
    with 1 digit_char [of "n mod 10"] show ?thesis by (simp add: digits_str.simps [of n] digits_val_snoc)
  qed
qed

lemma digits_str_hd: "0 < n \<Longrightarrow> hd (digits_str n) \<noteq> 48"
proof (induction n rule: digits_str.induct)
  case (1 n)
  show ?case
  proof (cases "n < 10")
    case True
    with 1 digit_char [of n] have "uint (of_int (48 + n) :: jschar) \<noteq> uint (48 :: jschar)" by simp
    then have "(of_int (48 + n) :: jschar) \<noteq> 48" by metis
    with True show ?thesis by (simp add: digits_str.simps [of n])
  next
    case False
    with 1 digits_str_val [of "n div 10"] show ?thesis by (simp add: digits_str.simps [of n])
  qed
qed

text \<open>What may follow a number without becoming part of it.\<close>

definition number_end :: "jstring \<Rightarrow> bool" where
  "number_end r \<longleftrightarrow> r = [] \<or> hd r \<in> {0x2C, 0x5D, 0x7D, 0xA}"

lemma p_digits_str:
  "0 \<le> n \<Longrightarrow> number_end r \<Longrightarrow> p_digits (digits_str n @ r) = Some (digits_str n, r)"
proof -
  assume n: "0 \<le> n" and r: "number_end r"
  from digits_str_val [OF n] have "\<forall>x \<in> set (digits_str n). is_digit x" by (simp add: list_all_iff)
  moreover from r have "r = [] \<or> \<not> is_digit (hd r)" by (auto simp: number_end_def is_digit_def)
  ultimately have "takeWhile is_digit (digits_str n @ r) = digits_str n" "dropWhile is_digit (digits_str n @ r) = r"
    by (cases r; simp add: takeWhile_append2 dropWhile_append2)+
  with digits_str_val [OF n] show ?thesis by (simp add: p_digits_def)
qed

lemma p_int_str: "0 \<le> n \<Longrightarrow> number_end r \<Longrightarrow> p_int (digits_str n @ r) = Some (digits_str n, r)"
proof (cases "n = 0")
  case True
  then show ?thesis by (simp add: p_int_def digits_str.simps)
next
  case False
  assume n: "0 \<le> n" and r: "number_end r"
  obtain c cs where c: "digits_str n = c # cs" using digits_str_val [OF n] by (cases "digits_str n") auto
  with digits_str_hd [of n] False n have "c \<noteq> 48" by simp
  with c p_digits_str [OF n r] show ?thesis by (simp add: p_int_def)
qed

lemma p_frac_end: "number_end r \<Longrightarrow> p_frac r = Some ([], r)"
  by (cases r) (auto simp: p_frac_def number_end_def)

lemma p_exp_end: "number_end r \<Longrightarrow> p_exp r = Some (0, r)"
  by (cases r) (auto simp: p_exp_def number_end_def)

lemma p_number_int:
  assumes "\<bar>n\<bar> < 2 ^ 53" "number_end r"
  shows "p_number (int_str n @ r) = Some (Fin (of_int n), r)"
proof (cases "n < 0")
  case True
  then have "int_str n @ r = 0x2D # digits_str (- n) @ r" by (simp add: int_str_def js_text)
  moreover have "fl (- of_int (- n)) = Fin (of_int n)" using fl_safe_int [OF assms(1)] by simp
  ultimately show ?thesis using True assms(2) digits_str_val [of "- n"]
    by (simp add: p_number_def p_int_str p_frac_end p_exp_end pow10_def)
next
  case False
  then obtain c cs where c: "digits_str n = c # cs" "is_digit c"
    using digits_str_val [of n] by (cases "digits_str n") auto
  then have "c \<noteq> 0x2D" by (auto simp: is_digit_def)
  with False c assms p_int_str [of n r] digits_str_val [of n] show ?thesis
    by (simp add: p_number_def int_str_def p_frac_end p_exp_end pow10_def fl_safe_int)
qed

section \<open>Values\<close>

text \<open>
  The values a \<open>JSON.parse\<close> of integer data gives: safe integers, and objects whose properties
  are in the order their insertion leaves them in.
\<close>

fun canonical :: "json \<Rightarrow> bool" where
  "canonical (JNum n) = (case n of Fin r \<Rightarrow> of_int \<lfloor>r\<rfloor> = r \<and> \<bar>\<lfloor>r\<rfloor>\<bar> < 2 ^ 53 | _ \<Rightarrow> False)"
| "canonical (JArr vs) = list_all canonical vs"
| "canonical (JObj ps) =
     (foldl (\<lambda>acc (k, v). obj_put k v acc) [] ps = ps \<and> list_all (\<lambda>p. canonical (snd p)) ps)"
| "canonical _ = True"

text \<open>The fuel a value needs.\<close>

fun need :: "json \<Rightarrow> nat" where
  "need (JArr vs) = Suc (foldr (\<lambda>v n. Suc (max (need v) n)) vs 0)"
| "need (JObj ps) = Suc (foldr (\<lambda>p n. Suc (max (need (snd p)) n)) ps 0)"
| "need _ = 1"

abbreviation text_of :: "json \<Rightarrow> jstring" where
  "text_of v \<equiv> stringify [] [] v"

definition member_text :: "jstring \<times> json \<Rightarrow> jstring" where
  "member_text p = quote (fst p) @ js '':'' @ text_of (snd p)"

lemma text_of_simps:
  "text_of (JArr (v # vs)) = 0x5B # join [0x2C] (map text_of (v # vs)) @ [0x5D]"
  "text_of (JObj (p # ps)) = 0x7B # join [0x2C] (map member_text (p # ps)) @ [0x7D]"
  by (simp_all add: js_text member_text_def [abs_def] case_prod_unfold)

lemma skip_ws_head: "s \<noteq> [] \<Longrightarrow> \<not> is_json_ws (hd s) \<Longrightarrow> skip_ws s = s"
  by (cases s) (simp_all add: skip_ws_def)

lemma quote_parts: "quote s = 0x22 # quote_units s @ [0x22]"
  by (simp add: quote_def)

lemma int_str_hd:
  obtains c cs where "int_str n = c # cs" "c = 0x2D \<or> is_digit c"
proof (cases "n < 0")
  case True
  then show ?thesis using that [of "0x2D" "digits_str (- n)"] by (simp add: int_str_def js_text)
next
  case False
  with digits_str_val [of n] that show ?thesis by (cases "digits_str n") (auto simp: int_str_def)
qed

lemma canonical_JNum:
  assumes "canonical (JNum n)" obtains i where "n = Fin (of_int i)" "\<bar>i\<bar> < 2 ^ 53" "text_of (JNum n) = int_str i"
proof (cases n)
  case (Fin r)
  with assms obtain i where i: "r = of_int i" "\<bar>i\<bar> < 2 ^ 53" by (auto simp: of_int_floor_cancel)
  then have "num_str (Fin (of_int i)) = int_str i" by (intro num_str_safe_int) simp
  with i Fin that show ?thesis by simp
qed (use assms in auto)

text \<open>The first character of a value is no white space and none of the closing brackets.\<close>

lemma text_of_hd:
  assumes "canonical v"
  obtains c cs where "text_of v = c # cs" "\<not> is_json_ws c" "c \<noteq> 0x5D" "c \<noteq> 0x7D"
proof (cases v)
  case (JNum n)
  with assms obtain i where "text_of v = int_str i" using canonical_JNum [of n] by blast
  moreover obtain c cs where c: "int_str i = c # cs" "c = 0x2D \<or> is_digit c" by (rule int_str_hd)
  moreover from c(2) have "\<not> is_json_ws c" "c \<noteq> 0x5D" "c \<noteq> 0x7D"
    by (auto simp: is_json_ws_def is_digit_def)
  ultimately show ?thesis using that by simp
next
  case (JArr vs)
  then show ?thesis using that by (cases vs) (auto simp: is_json_ws_def js_text)
next
  case (JObj ps)
  then show ?thesis using that by (cases ps) (auto simp: is_json_ws_def js_text)
next
  case (JBool b)
  then show ?thesis using that by (cases b) (auto simp: is_json_ws_def js_text)
qed (use that in \<open>auto simp: is_json_ws_def js_text quote_def\<close>)

lemma skip_ws_text: "canonical v \<Longrightarrow> skip_ws (text_of v @ r) = text_of v @ r"
  using text_of_hd [of v] by (metis append_Cons list.distinct(1) list.sel(1) skip_ws_head)

lemma number_end_simps [simp]:
  "number_end []" "number_end (0x2C # r)" "number_end (0x5D # r)" "number_end (0x7D # r)"
  by (simp_all add: number_end_def)

lemma p_value_number:
  assumes "\<bar>i\<bar> < 2 ^ 53" "number_end r"
  shows "p_value (Suc f) (int_str i @ r) = Some (JNum (Fin (of_int i)), r)"
proof -
  obtain c cs where c: "int_str i = c # cs" "c = 0x2D \<or> is_digit c" by (rule int_str_hd)
  then have "c \<noteq> 0x7B" "c \<noteq> 0x5B" "c \<noteq> 0x22" "c \<noteq> 0x6E" "c \<noteq> 0x74" "c \<noteq> 0x66" "\<not> is_json_ws c"
    by (auto simp: is_digit_def is_json_ws_def)
  with c p_number_int [OF assms] show ?thesis
    by (simp add: skip_ws_def starts_with_def js_text)
qed

text \<open>The elements of an array and the members of an object, once each value parses.\<close>

definition parses :: "nat \<Rightarrow> json \<Rightarrow> bool" where
  "parses f v \<longleftrightarrow> (\<forall>r. number_end r \<longrightarrow> p_value f (text_of v @ r) = Some (v, r))"

lemma p_elems_parse:
  assumes "us \<noteq> []" and "foldr (\<lambda>v n. Suc (max (need v) n)) us 0 \<le> f"
    and "\<And>u f. u \<in> set us \<Longrightarrow> need u \<le> f \<Longrightarrow> parses f u"
  shows "p_elems f (join [0x2C] (map text_of us) @ 0x5D # r) = Some (us, r)"
  using assms
proof (induction us arbitrary: f)
  case (Cons u us)
  then obtain f' where f: "f = Suc f'" by (cases f) auto
  have u: "p_value f' (text_of u @ s) = Some (u, s)" if "number_end s" for s
    using Cons.prems(3) [of u f'] Cons.prems(2) that f by (simp add: parses_def)
  show ?case
  proof (cases "us = []")
    case True
    with u [of "0x5D # r"] f show ?thesis by (simp add: skip_ws_def is_json_ws_def)
  next
    case False
    with Cons.IH [of f'] Cons.prems f have
      "p_elems f' (join [0x2C] (map text_of us) @ 0x5D # r) = Some (us, r)" by simp
    with False u [of "0x2C # join [0x2C] (map text_of us) @ 0x5D # r"] f show ?thesis
      by (simp add: join_Cons skip_ws_def is_json_ws_def)
  qed
qed simp

lemma p_members_parse:
  assumes "qs \<noteq> []" and "foldr (\<lambda>p n. Suc (max (need (snd p)) n)) qs 0 \<le> f"
    and "\<And>q f. q \<in> set qs \<Longrightarrow> need (snd q) \<le> f \<Longrightarrow> parses f (snd q)"
  shows "p_members f acc (join [0x2C] (map member_text qs) @ 0x7D # r) =
     Some (foldl (\<lambda>acc (k, v). obj_put k v acc) acc qs, r)"
  using assms
proof (induction qs arbitrary: f acc)
  case (Cons q qs)
  then obtain f' where f: "f = Suc f'" by (cases f) auto
  obtain k u where q: "q = (k, u)" by (cases q)
  have u: "p_value f' (text_of u @ s) = Some (u, s)" if "number_end s" for s
    using Cons.prems(3) [of q f'] Cons.prems(2) that f q by (simp add: parses_def)
  show ?case
  proof (cases "qs = []")
    case True
    with u [of "0x7D # r"] f q show ?thesis
      by (simp add: member_text_def quote_parts p_chars_quote js_text skip_ws_def is_json_ws_def del: p_chars.simps)
  next
    case False
    with Cons.IH [of f' "obj_put k u acc"] Cons.prems f have
      "p_members f' (obj_put k u acc) (join [0x2C] (map member_text qs) @ 0x7D # r) =
         Some (foldl (\<lambda>acc (k, v). obj_put k v acc) (obj_put k u acc) qs, r)" by simp
    with False u [of "0x2C # join [0x2C] (map member_text qs) @ 0x7D # r"] f q show ?thesis
      by (simp add: join_Cons member_text_def [of "(k, u)"] quote_parts p_chars_quote js_text skip_ws_def is_json_ws_def
          del: p_chars.simps)
  qed
qed simp

lemma parses_JArr:
  assumes "list_all canonical vs" and "need (JArr vs) \<le> f" and "\<And>u f. u \<in> set vs \<Longrightarrow> need u \<le> f \<Longrightarrow> parses f u"
  shows "parses f (JArr vs)"
  unfolding parses_def
proof (intro allI impI)
  fix r
  from assms(2) obtain f' where f: "f = Suc f'" by (cases f) auto
  show "p_value f (text_of (JArr vs) @ r) = Some (JArr vs, r)"
  proof (cases vs)
    case Nil
    with f show ?thesis by (simp add: js_text skip_ws_def is_json_ws_def)
  next
    case (Cons u us)
    with assms(1) have "canonical u" by simp
    then obtain c cs where c: "text_of u = c # cs" "\<not> is_json_ws c" "c \<noteq> 0x5D"
      by (rule text_of_hd)
    obtain ds where j: "join [0x2C] (map text_of vs) @ 0x5D # r = c # ds"
      using Cons c by (cases us) auto
    have "p_elems f' (c # ds) = Some (vs, r)"
      using p_elems_parse [of vs f' r] assms(2,3) f Cons j by simp
    with c j f Cons show ?thesis
      by (simp add: text_of_simps skip_ws_def is_json_ws_def del: stringify.simps)
  qed
qed

lemma parses_JObj:
  assumes "canonical (JObj ps)" and "need (JObj ps) \<le> f" and "\<And>q f. q \<in> set ps \<Longrightarrow> need (snd q) \<le> f \<Longrightarrow> parses f (snd q)"
  shows "parses f (JObj ps)"
  unfolding parses_def
proof (intro allI impI)
  fix r
  from assms(2) obtain f' where f: "f = Suc f'" by (cases f) auto
  show "p_value f (text_of (JObj ps) @ r) = Some (JObj ps, r)"
  proof (cases ps)
    case Nil
    with f show ?thesis by (simp add: js_text skip_ws_def is_json_ws_def)
  next
    case (Cons q qs)
    obtain ds where j: "join [0x2C] (map member_text ps) @ 0x7D # r = 0x22 # ds"
      using Cons by (cases qs) (auto simp: member_text_def quote_parts)
    have "p_members f' [] (0x22 # ds) = Some (ps, r)"
      using p_members_parse [of ps f' "[]" r] assms f Cons j by simp
    with j f Cons show ?thesis
      by (simp add: text_of_simps skip_ws_def is_json_ws_def del: stringify.simps p_members.simps)
  qed
qed

lemma p_value_parses: "canonical v \<Longrightarrow> need v \<le> f \<Longrightarrow> parses f v"
proof (induction v arbitrary: f)
  case (JNum n)
  from JNum.prems(1) obtain i where i: "n = Fin (of_int i)" "\<bar>i\<bar> < 2 ^ 53" "text_of (JNum n) = int_str i"
    by (rule canonical_JNum)
  from JNum.prems(2) obtain f' where "f = Suc f'" by (cases f) auto
  with p_value_number [OF i(2), of _ f'] i(1,3) show ?case unfolding parses_def by (simp only:) blast
next
  case (JArr vs)
  then show ?case by (intro parses_JArr) (auto simp: list_all_iff)
next
  case (JObj ps)
  then show ?case by (intro parses_JObj) (auto simp: list_all_iff)
next
  case JNull
  then show ?case by (cases f) (simp_all add: parses_def js_text skip_ws_def is_json_ws_def starts_with_def)
next
  case (JBool b)
  then show ?case by (cases f; cases b) (simp_all add: parses_def js_text skip_ws_def is_json_ws_def starts_with_def)
next
  case (JStr s)
  then show ?case
    by (cases f) (simp_all add: parses_def skip_ws_def is_json_ws_def quote_parts p_chars_quote del: p_chars.simps)
qed

lemma p_value_parse:
  "canonical v \<Longrightarrow> need v \<le> f \<Longrightarrow> number_end r \<Longrightarrow> p_value f (text_of v @ r) = Some (v, r)"
  using p_value_parses by (simp add: parses_def)

lemma length_join: "length (join [c] ss) = sum_list (map length ss) + (length ss - 1)"
  by (induction "[c]" ss rule: join.induct) auto

lemma foldr_need:
  "(\<And>x. x \<in> set xs \<Longrightarrow> n x \<le> 2 * l x) \<Longrightarrow>
   foldr (\<lambda>x m. Suc (max (n x) m)) xs 0 \<le> 2 * sum_list (map l xs) + length xs"
proof (induction xs)
  case (Cons x xs)
  then have "foldr (\<lambda>x m. Suc (max (n x) m)) xs 0 \<le> 2 * sum_list (map l xs) + length xs" "n x \<le> 2 * l x"
    by auto
  then show ?case by simp
qed simp

lemma need_length: "canonical v \<Longrightarrow> need v \<le> 2 * length (text_of v)"
proof (induction v)
  case (JArr vs)
  have le: "foldr (\<lambda>v m. Suc (max (need v) m)) vs 0 \<le> 2 * sum_list (map (\<lambda>v. length (text_of v)) vs) + length vs"
    by (rule foldr_need) (use JArr in \<open>auto simp: list_all_iff\<close>)
  show ?case
  proof (cases vs)
    case (Cons v us)
    with le show ?thesis
      by (simp add: text_of_simps length_join comp_def del: stringify.simps list.map)
  qed simp
next
  case (JObj ps)
  have le: "foldr (\<lambda>p m. Suc (max (need (snd p)) m)) ps 0 \<le> 2 * sum_list (map (\<lambda>p. length (member_text p)) ps) + length ps"
  proof (rule foldr_need)
    fix p assume "p \<in> set ps"
    with JObj have "need (snd p) \<le> 2 * length (text_of (snd p))" by (cases p) (auto simp: list_all_iff)
    then show "need (snd p) \<le> 2 * length (member_text p)" by (simp add: member_text_def)
  qed
  show ?case
  proof (cases ps)
    case (Cons p qs)
    with le show ?thesis
      by (simp add: text_of_simps length_join comp_def del: stringify.simps list.map)
  qed simp
next
  case (JNum n)
  obtain c cs where "text_of (JNum n) = c # cs" using text_of_hd [OF JNum] by blast
  then show ?case by simp
qed (auto simp: quote_def)

lemma JSON_parse_stringify: "canonical v \<Longrightarrow> JSON_parse (JSON_stringify v) = Some v"
  using p_value_parse [of v "2 * length (text_of v) + 2" "[]"] need_length [of v]
  by (simp add: JSON_parse_def JSON_stringify_def skip_ws_def del: p_value.simps)

end
