(* ===== verification/Utf8.thy ===== *)
theory Utf8
  imports Prelude
begin

text \<open>
  The streaming \<open>TextDecoder\<close> that \<open>sendMessage\<close> puts before its SSE buffer: the UTF-8 decoder
  of the Encoding Standard as a byte-driven state machine (replacement mode, byte order mark
  dropped, the state kept between chunks), giving UTF-16 code units. Decoding does not depend on
  where the chunks are cut, and decoding an encoded text gives the text back.
\<close>

section \<open>The decoder\<close>

type_synonym byte = "8 word"

record utf8_state =
  code_point :: int
  bytes_needed :: nat
  lower :: int
  upper :: int
  bom_seen :: bool

definition utf8_init :: utf8_state where
  "utf8_init = \<lparr>code_point = 0, bytes_needed = 0, lower = 0x80, upper = 0xBF, bom_seen = False\<rparr>"

text \<open>A code point as code units; the first one of a stream is dropped if it is a byte order mark.\<close>

definition utf16 :: "int \<Rightarrow> jstring" where
  "utf16 cp =
     (if cp < 0x10000 then [of_int cp]
      else [of_int (0xD800 + (cp - 0x10000) div 0x400), of_int (0xDC00 + (cp - 0x10000) mod 0x400)])"

definition emit :: "int \<Rightarrow> utf8_state \<Rightarrow> jstring \<times> utf8_state" where
  "emit cp st =
     ((if \<not> bom_seen st \<and> cp = 0xFEFF then [] else utf16 cp), st\<lparr>bom_seen := True\<rparr>)"

text \<open>A byte where a new code point starts.\<close>

definition lead_byte :: "utf8_state \<Rightarrow> int \<Rightarrow> jstring \<times> utf8_state" where
  "lead_byte st b =
     (if b \<le> 0x7F then emit b st
      else if 0xC2 \<le> b \<and> b \<le> 0xDF then ([], st\<lparr>bytes_needed := 1, code_point := b - 0xC0\<rparr>)
      else if 0xE0 \<le> b \<and> b \<le> 0xEF then
        ([], st\<lparr>lower := (if b = 0xE0 then 0xA0 else 0x80), upper := (if b = 0xED then 0x9F else 0xBF),
                bytes_needed := 2, code_point := b - 0xE0\<rparr>)
      else if 0xF0 \<le> b \<and> b \<le> 0xF4 then
        ([], st\<lparr>lower := (if b = 0xF0 then 0x90 else 0x80), upper := (if b = 0xF4 then 0x8F else 0xBF),
                bytes_needed := 3, code_point := b - 0xF0\<rparr>)
      else emit 0xFFFD st)"

text \<open>
  One byte. A byte outside the expected range ends the unfinished sequence with a replacement
  character and is then read again as a lead byte.
\<close>

definition utf8_step :: "utf8_state \<Rightarrow> int \<Rightarrow> jstring \<times> utf8_state" where
  "utf8_step st b =
     (if bytes_needed st = 0 then lead_byte st b
      else if b < lower st \<or> upper st < b then
        (let (out, st') = emit 0xFFFD (st\<lparr>code_point := 0, bytes_needed := 0, lower := 0x80, upper := 0xBF\<rparr>);
             (out', st'') = lead_byte st' b
         in (out @ out', st''))
      else
        (let cp = code_point st * 64 + b mod 64;
             st' = st\<lparr>lower := 0x80, upper := 0xBF, code_point := cp, bytes_needed := bytes_needed st - 1\<rparr>
         in if bytes_needed st' = 0 then emit cp (st'\<lparr>code_point := 0\<rparr>) else ([], st')))"

text \<open>\<open>decoder.decode(value, { stream: true })\<close>.\<close>

fun decode :: "utf8_state \<Rightarrow> byte list \<Rightarrow> jstring \<times> utf8_state" where
  "decode st [] = ([], st)"
| "decode st (b # bs) =
     (let (out, st') = utf8_step st (uint b); (out', st'') = decode st' bs in (out @ out', st''))"

lemma decode_append:
  "decode st (bs @ cs) =
     (fst (decode st bs) @ fst (decode (snd (decode st bs)) cs), snd (decode (snd (decode st bs)) cs))"
  by (induction bs arbitrary: st) (simp_all add: case_prod_beta Let_def)

section \<open>Encoding\<close>

text \<open>The encoder of the Encoding Standard, for the scalar values a text consists of.\<close>

definition scalar :: "int \<Rightarrow> bool" where
  "scalar cp \<longleftrightarrow> 0 \<le> cp \<and> cp \<le> 0x10FFFF \<and> \<not> (0xD800 \<le> cp \<and> cp \<le> 0xDFFF)"

definition byte_of :: "int \<Rightarrow> byte" where
  "byte_of n = of_int n"

definition utf8_encode :: "int \<Rightarrow> byte list" where
  "utf8_encode cp =
     (if cp \<le> 0x7F then [byte_of cp]
      else if cp \<le> 0x7FF then [byte_of (0xC0 + cp div 64), byte_of (0x80 + cp mod 64)]
      else if cp \<le> 0xFFFF then
        [byte_of (0xE0 + cp div 4096), byte_of (0x80 + cp div 64 mod 64), byte_of (0x80 + cp mod 64)]
      else [byte_of (0xF0 + cp div 262144), byte_of (0x80 + cp div 4096 mod 64),
            byte_of (0x80 + cp div 64 mod 64), byte_of (0x80 + cp mod 64)])"

text \<open>Between code points the decoder is in its start configuration.\<close>

definition at_boundary :: "utf8_state \<Rightarrow> bool" where
  "at_boundary st \<longleftrightarrow> bytes_needed st = 0 \<and> lower st = 0x80 \<and> upper st = 0xBF"

lemma uint_byte_of: "0 \<le> n \<Longrightarrow> n < 256 \<Longrightarrow> uint (byte_of n) = n"
  by (simp add: byte_of_def uint_word_of_int)

lemma decode_bytes:
  "0 \<le> n \<Longrightarrow> n < 256 \<Longrightarrow> decode st (byte_of n # bs) =
     (fst (utf8_step st n) @ fst (decode (snd (utf8_step st n)) bs), snd (decode (snd (utf8_step st n)) bs))"
  by (simp add: uint_byte_of case_prod_beta Let_def)

lemma step_cont:
  assumes "0 \<le> m" "m < 64" "lower st \<le> 0x80 + m" "0x80 + m \<le> upper st" "0 < bytes_needed st"
  shows "utf8_step st (0x80 + m) =
     (let st' = st\<lparr>lower := 0x80, upper := 0xBF, code_point := code_point st * 64 + m,
                  bytes_needed := bytes_needed st - 1\<rparr>
      in if bytes_needed st = 1 then emit (code_point st * 64 + m) (st'\<lparr>code_point := 0\<rparr>) else ([], st'))"
proof -
  have "(m + 64 * 2) mod 64 = m" using assms(1,2) by (simp only: mod_mult_self2 mod_pos_pos_trivial)
  then have m: "(0x80 + m) mod 64 = m" by (simp add: add.commute)
  have "\<not> (0x80 + m < lower st \<or> upper st < 0x80 + m)" "bytes_needed st \<noteq> 0"
    "bytes_needed st - 1 = 0 \<longleftrightarrow> bytes_needed st = 1" using assms(3-5) by linarith+
  then show ?thesis unfolding utf8_step_def m by (simp add: Let_def)
qed

lemma step_lead2:
  "at_boundary st \<Longrightarrow> 2 \<le> k \<Longrightarrow> k < 32 \<Longrightarrow> utf8_step st (0xC0 + k) = ([], st\<lparr>bytes_needed := 1, code_point := k\<rparr>)"
  by (simp add: utf8_step_def lead_byte_def at_boundary_def)

lemma step_lead3:
  "at_boundary st \<Longrightarrow> 0 \<le> k \<Longrightarrow> k < 16 \<Longrightarrow> utf8_step st (0xE0 + k) =
     ([], st\<lparr>lower := (if k = 0 then 0xA0 else 0x80), upper := (if k = 0xD then 0x9F else 0xBF),
             bytes_needed := 2, code_point := k\<rparr>)"
  by (simp add: utf8_step_def lead_byte_def at_boundary_def)

lemma step_lead4:
  "at_boundary st \<Longrightarrow> 0 \<le> k \<Longrightarrow> k < 5 \<Longrightarrow> utf8_step st (0xF0 + k) =
     ([], st\<lparr>lower := (if k = 0 then 0x90 else 0x80), upper := (if k = 4 then 0x8F else 0xBF),
             bytes_needed := 3, code_point := k\<rparr>)"
  by (simp add: utf8_step_def lead_byte_def at_boundary_def)

lemma emit_simps [simp]:
  "fst (emit cp st) = (if \<not> bom_seen st \<and> cp = 0xFEFF then [] else utf16 cp)"
  "bytes_needed (snd (emit cp st)) = bytes_needed st" "lower (snd (emit cp st)) = lower st"
  "upper (snd (emit cp st)) = upper st" "bom_seen (snd (emit cp st))"
  by (simp_all add: emit_def)

text \<open>The ranges of the digits of a code point to base 64, by its encoded length.\<close>

lemma base64_3:
  fixes cp q r a b :: int
  assumes "cp = q * 64 + a" "q = r * 64 + b" "0 \<le> a" "a < 64" "0 \<le> b" "b < 64" "0x7FF < cp" "cp \<le> 0xFFFF"
  shows "0 \<le> r" "r < 16" "r = 0 \<Longrightarrow> 0x20 \<le> b"
    "\<not> (0xD800 \<le> cp \<and> cp \<le> 0xDFFF) \<Longrightarrow> r = 0xD \<Longrightarrow> b \<le> 0x1F"
  using assms by linarith+

lemma base64_4:
  fixes cp q r s a b c :: int
  assumes "cp = q * 64 + a" "q = r * 64 + b" "r = s * 64 + c"
    "0 \<le> a" "a < 64" "0 \<le> b" "b < 64" "0 \<le> c" "c < 64" "0xFFFF < cp" "cp \<le> 0x10FFFF"
  shows "0 \<le> s" "s < 5" "s = 0 \<Longrightarrow> 0x10 \<le> c" "s = 4 \<Longrightarrow> c \<le> 0xF"
  using assms by linarith+

text \<open>What decoding the bytes of one code point leaves behind.\<close>

definition decodes_to :: "utf8_state \<Rightarrow> byte list \<Rightarrow> int \<Rightarrow> bool" where
  "decodes_to st bs cp \<longleftrightarrow>
     fst (decode st bs) = fst (emit cp st) \<and> at_boundary (snd (decode st bs)) \<and> bom_seen (snd (decode st bs))"

lemma decode1: "at_boundary st \<Longrightarrow> 0 \<le> cp \<Longrightarrow> cp \<le> 0x7F \<Longrightarrow> decodes_to st [byte_of cp] cp"
  by (simp add: decodes_to_def decode_bytes utf8_step_def lead_byte_def at_boundary_def del: decode.simps(2))

lemma decode2:
  "at_boundary st \<Longrightarrow> 2 \<le> q \<Longrightarrow> q < 32 \<Longrightarrow> 0 \<le> a \<Longrightarrow> a < 64 \<Longrightarrow>
   decodes_to st [byte_of (0xC0 + q), byte_of (0x80 + a)] (q * 64 + a)"
  by (simp add: decodes_to_def decode_bytes step_lead2 step_cont Let_def at_boundary_def del: decode.simps(2))

lemma decode3:
  "at_boundary st \<Longrightarrow> 0 \<le> r \<Longrightarrow> r < 16 \<Longrightarrow> 0 \<le> b \<Longrightarrow> b < 64 \<Longrightarrow> 0 \<le> a \<Longrightarrow> a < 64 \<Longrightarrow>
   (r = 0 \<Longrightarrow> 0x20 \<le> b) \<Longrightarrow> (r = 0xD \<Longrightarrow> b \<le> 0x1F) \<Longrightarrow>
   decodes_to st [byte_of (0xE0 + r), byte_of (0x80 + b), byte_of (0x80 + a)] ((r * 64 + b) * 64 + a)"
  by (simp add: decodes_to_def decode_bytes step_lead3 step_cont Let_def at_boundary_def del: decode.simps(2))

lemma decode4:
  "at_boundary st \<Longrightarrow> 0 \<le> s \<Longrightarrow> s < 5 \<Longrightarrow> 0 \<le> c \<Longrightarrow> c < 64 \<Longrightarrow> 0 \<le> b \<Longrightarrow> b < 64 \<Longrightarrow> 0 \<le> a \<Longrightarrow> a < 64 \<Longrightarrow>
   (s = 0 \<Longrightarrow> 0x10 \<le> c) \<Longrightarrow> (s = 4 \<Longrightarrow> c \<le> 0xF) \<Longrightarrow>
   decodes_to st [byte_of (0xF0 + s), byte_of (0x80 + c), byte_of (0x80 + b), byte_of (0x80 + a)]
     (((s * 64 + c) * 64 + b) * 64 + a)"
  by (simp add: decodes_to_def decode_bytes step_lead4 step_cont Let_def at_boundary_def del: decode.simps(2))

lemma decode_scalar:
  assumes "scalar cp" "at_boundary st" shows "decodes_to st (utf8_encode cp) cp"
proof -
  have sc: "0 \<le> cp" "cp \<le> 0x10FFFF" "\<not> (0xD800 \<le> cp \<and> cp \<le> 0xDFFF)" using assms(1) by (auto simp: scalar_def)
  have d64: "cp div 4096 = cp div 64 div 64" "cp div 262144 = cp div 64 div 64 div 64"
    by (simp_all flip: zdiv_zmult2_eq)
  obtain q a where qa: "q = cp div 64" "a = cp mod 64" by simp
  obtain r b where rb: "r = q div 64" "b = q mod 64" by simp
  obtain s c where sc': "s = r div 64" "c = r mod 64" by simp
  have eqs: "cp = q * 64 + a" "q = r * 64 + b" "r = s * 64 + c" unfolding qa rb sc' by simp_all
  have bounds: "0 \<le> a" "a < 64" "0 \<le> b" "b < 64" "0 \<le> c" "c < 64" unfolding qa rb sc' by simp_all
  consider "cp \<le> 0x7F" | "0x7F < cp" "cp \<le> 0x7FF" | "0x7FF < cp" "cp \<le> 0xFFFF" | "0xFFFF < cp" by linarith
  then show ?thesis
  proof cases
    case 1
    with decode1 [OF assms(2) sc(1)] show ?thesis by (simp add: utf8_encode_def)
  next
    case 2
    then have "2 \<le> q" "q < 32" using eqs(1) bounds by linarith+
    from decode2 [OF assms(2) this bounds(1,2)] 2 show ?thesis
      unfolding eqs(1) [symmetric] by (simp add: utf8_encode_def flip: qa)
  next
    case 3
    note r = base64_3 [OF eqs(1,2) bounds(1-4) 3]
    from decode3 [OF assms(2) r(1,2) bounds(3,4,1,2) r(3) r(4) [OF sc(3)]] 3 show ?thesis
      unfolding eqs(2) [symmetric] eqs(1) [symmetric] by (simp add: utf8_encode_def d64 flip: qa rb)
  next
    case 4
    note s = base64_4 [OF eqs bounds 4 sc(2)]
    from decode4 [OF assms(2) s(1,2) bounds(5,6,3,4,1,2) s(3,4)] 4 show ?thesis
      unfolding eqs(3) [symmetric] eqs(2) [symmetric] eqs(1) [symmetric]
      by (simp add: utf8_encode_def d64 flip: qa rb sc')
  qed
qed

lemma decode_text:
  "list_all scalar cps \<Longrightarrow> at_boundary st \<Longrightarrow> bom_seen st \<Longrightarrow>
   fst (decode st (concat (map utf8_encode cps))) = concat (map utf16 cps)"
proof (induction cps arbitrary: st)
  case (Cons cp cps)
  with decode_scalar [of cp st] show ?case by (simp add: decodes_to_def decode_append)
qed simp

text \<open>A text that does not start with a byte order mark is decoded to its UTF-16 form.\<close>

lemma decode_encode:
  assumes "list_all scalar cps" "cps = [] \<or> hd cps \<noteq> 0xFEFF"
  shows "fst (decode utf8_init (concat (map utf8_encode cps))) = concat (map utf16 cps)"
proof (cases cps)
  case (Cons cp cs)
  have "at_boundary utf8_init" by (simp add: at_boundary_def utf8_init_def)
  with Cons assms decode_scalar [of cp utf8_init] show ?thesis
    by (simp add: decodes_to_def decode_append decode_text)
qed simp

end
