(* ===== verification/Api.thy ===== *)
theory Api
  imports JsonRoundTrip Utf8
begin

text \<open>
  The HTTP client of \<open>web/src/lib/api.ts\<close>: the in-memory session, \<open>authFetch\<close> with its one
  refresh and retry on a 401, \<open>request\<close> with its error mapping, and the endpoint wrappers. The
  network is a parameter: what it answers to a request may depend on all requests before it.
  Every function passes the client state along and returns an exception or a value. Calls that
  overlap in time are the subject of \<open>ApiConcurrency\<close>.
\<close>

section \<open>Requests, responses, exceptions\<close>

text \<open>
  A failed \<open>fetch\<close> rejects with a \<open>TypeError\<close>, an aborted one with an \<open>AbortError\<close>. The
  message of an \<open>ApiError\<close> is the string the \<open>Error\<close> constructor makes of its argument.
\<close>

datatype exn = AbortError | SyntaxError | TypeError | ApiError int jstring

record Request =
  http_method :: jstring
  url :: jstring
  headers :: "jstring \<rightharpoonup> jstring"
  body :: "jstring option"

text \<open>
  A response: its status, the text that reading the whole body gives (or the error of reading
  it), and, for a streamed body, the pieces \<open>reader.read()\<close> gives (\<open>None\<close> for a null body).
\<close>

datatype chunk = Chunk "byte list" | ReadError exn

record response =
  status :: int
  body_text :: "exn + jstring"
  stream :: "chunk list option"

definition ok :: "response \<Rightarrow> bool" where
  "ok res \<longleftrightarrow> 200 \<le> status res \<and> status res \<le> 299"

text \<open>\<open>res.json()\<close>.\<close>

definition res_json :: "response \<Rightarrow> exn + json" where
  "res_json res =
     (case body_text res of
        Inl e \<Rightarrow> Inl e
      | Inr t \<Rightarrow> (case JSON_parse t of None \<Rightarrow> Inl SyntaxError | Some v \<Rightarrow> Inr v))"

record env =
  API_URL :: jstring
  network :: "Request list \<Rightarrow> Request \<Rightarrow> exn + response"

text \<open>
  The module's variables: the access token (\<open>null\<close> at first), whether an \<open>onUnauthorized\<close>
  callback is registered; and, as the record of effects, how often it was called and which
  requests were sent.
\<close>

record client =
  accessToken :: jsval
  onUnauthorized :: bool
  notified :: nat
  wire :: "Request list"

definition fetch :: "env \<Rightarrow> Request \<Rightarrow> client \<Rightarrow> (exn + response) \<times> client" where
  "fetch E r st = (network E (wire st) r, st\<lparr>wire := wire st @ [r]\<rparr>)"

section \<open>The session\<close>

text \<open>\<open>accessToken = t.access_token\<close>: \<open>None\<close> is the \<open>TypeError\<close> of reading it off \<open>null\<close>.\<close>

definition setSession :: "jsval \<Rightarrow> client \<Rightarrow> client option" where
  "setSession t st =
     (case get_prop (js ''access_token'') t of
        None \<Rightarrow> None
      | Some tok \<Rightarrow> Some (st\<lparr>accessToken := tok\<rparr>))"

definition clearSession :: "client \<Rightarrow> client" where
  "clearSession st = st\<lparr>accessToken := Json JNull\<rparr>"

definition setOnUnauthorized :: "bool \<Rightarrow> client \<Rightarrow> client" where
  "setOnUnauthorized registered st = st\<lparr>onUnauthorized := registered\<rparr>"

definition notify_unauthorized :: "client \<Rightarrow> client" where
  "notify_unauthorized st = (if onUnauthorized st then st\<lparr>notified := Suc (notified st)\<rparr> else st)"

definition refresh_request :: "env \<Rightarrow> Request" where
  "refresh_request E =
     \<lparr>http_method = js ''POST'', url = API_URL E @ js ''/api/refresh'', headers = Map.empty, body = None\<rparr>"

text \<open>What \<open>doRefresh\<close> does once the fetch has settled.\<close>

definition refresh_settled :: "exn + response \<Rightarrow> client \<Rightarrow> (exn + jsval) \<times> client" where
  "refresh_settled r st =
     (case r of
        Inl e \<Rightarrow> (Inl e, st)
      | Inr res \<Rightarrow>
          if \<not> ok res then (Inr (Json JNull), notify_unauthorized (clearSession st))
          else case res_json res of
                 Inl e \<Rightarrow> (Inl e, st)
               | Inr v \<Rightarrow>
                   (case setSession (Json v) st of
                      None \<Rightarrow> (Inl TypeError, st)
                    | Some st' \<Rightarrow> (Inr (accessToken st'), st')))"

definition doRefresh :: "env \<Rightarrow> client \<Rightarrow> (exn + jsval) \<times> client" where
  "doRefresh E st = (let (r, st1) = fetch E (refresh_request E) st in refresh_settled r st1)"

section \<open>authFetch and request\<close>

record RequestInit =
  init_method :: jstring
  init_headers :: "jstring \<rightharpoonup> jstring"
  init_body :: "jstring option"

definition bearer :: "jsval \<Rightarrow> jstring" where
  "bearer tok = js ''Bearer '' @ val_string tok"

abbreviation authorization :: jstring where
  "authorization \<equiv> js ''Authorization''"

definition auth_request :: "env \<Rightarrow> jstring \<Rightarrow> RequestInit \<Rightarrow> (jstring \<rightharpoonup> jstring) \<Rightarrow> Request" where
  "auth_request E path ini hs =
     \<lparr>http_method = init_method ini, url = API_URL E @ path, headers = hs, body = init_body ini\<rparr>"

definition initial_headers :: "RequestInit \<Rightarrow> client \<Rightarrow> jstring \<rightharpoonup> jstring" where
  "initial_headers ini st =
     (if truthy (accessToken st)
      then (init_headers ini)(authorization \<mapsto> bearer (accessToken st))
      else init_headers ini)"

definition authFetch :: "env \<Rightarrow> jstring \<Rightarrow> RequestInit \<Rightarrow> client \<Rightarrow> (exn + response) \<times> client" where
  "authFetch E path ini st =
     (let hs = initial_headers ini st;
          (r, st1) = fetch E (auth_request E path ini hs) st
      in case r of
           Inl e \<Rightarrow> (Inl e, st1)
         | Inr res \<Rightarrow>
             if status res = 401 then
               (let (t, st2) = doRefresh E st1 in
                case t of
                  Inl e \<Rightarrow> (Inl e, st2)
                | Inr token \<Rightarrow>
                    if truthy token
                    then fetch E (auth_request E path ini (hs(authorization \<mapsto> bearer token))) st2
                    else (Inr res, st2))
             else (Inr res, st1))"

definition errorMessage :: "response \<Rightarrow> jsval" where
  "errorMessage res =
     (let fallback = Json (JStr (js ''request failed ('' @ int_str (status res) @ js '')''))
      in if status res = 429
         then Json (JStr (js ''Too many requests '' @ [0x2014] @ js '' please wait a moment and try again.''))
         else case res_json res of
                Inl _ \<Rightarrow> fallback
              | Inr v \<Rightarrow>
                  (case get_prop (js ''error'') (Json v) of
                     None \<Rightarrow> fallback
                   | Some m \<Rightarrow> if truthy m then m else fallback))"

definition request :: "env \<Rightarrow> jstring \<Rightarrow> jstring option \<Rightarrow> json option \<Rightarrow> client \<Rightarrow> (exn + json) \<times> client" where
  "request E path meth bod st =
     (let hs = (if bod \<noteq> None then [js ''Content-Type'' \<mapsto> js ''application/json''] else Map.empty);
          (r, st1) = authFetch E path
            \<lparr>init_method = (case meth of Some m \<Rightarrow> m | None \<Rightarrow> js ''GET''), init_headers = hs,
             init_body = map_option JSON_stringify bod\<rparr> st
      in (case r of
            Inl e \<Rightarrow> Inl e
          | Inr res \<Rightarrow>
              if \<not> ok res then Inl (ApiError (status res) (val_string (errorMessage res)))
              else if status res = 204 then Inr JNull
              else res_json res,
          st1))"

section \<open>Endpoints\<close>

text \<open>\<open>setSession(await request(...))\<close>.\<close>

definition login_request :: "env \<Rightarrow> jstring \<Rightarrow> json \<Rightarrow> client \<Rightarrow> (exn + unit) \<times> client" where
  "login_request E path bod st =
     (let (r, st1) = request E path (Some (js ''POST'')) (Some bod) st in
      case r of
        Inl e \<Rightarrow> (Inl e, st1)
      | Inr v \<Rightarrow>
          (case setSession (Json v) st1 of None \<Rightarrow> (Inl TypeError, st1) | Some st2 \<Rightarrow> (Inr (), st2)))"

definition loginWithGoogle :: "env \<Rightarrow> jstring \<Rightarrow> client \<Rightarrow> (exn + unit) \<times> client" where
  "loginWithGoogle E code st = login_request E (js ''/api/google'') (JObj [(js ''code'', JStr code)]) st"

definition verifyMagicLink :: "env \<Rightarrow> jstring \<Rightarrow> client \<Rightarrow> (exn + unit) \<times> client" where
  "verifyMagicLink E token st = login_request E (js ''/api/magic/verify'') (JObj [(js ''token'', JStr token)]) st"

text \<open>A request whose value is not used.\<close>

definition request_void :: "env \<Rightarrow> jstring \<Rightarrow> jstring option \<Rightarrow> json option \<Rightarrow> client \<Rightarrow> (exn + unit) \<times> client" where
  "request_void E path meth bod st = (let (r, st1) = request E path meth bod st in (map_sum id (\<lambda>_. ()) r, st1))"

definition requestMagicLink :: "env \<Rightarrow> jstring \<Rightarrow> client \<Rightarrow> (exn + unit) \<times> client" where
  "requestMagicLink E email st =
     request_void E (js ''/api/magic/request'') (Some (js ''POST'')) (Some (JObj [(js ''email'', JStr email)])) st"

text \<open>\<open>finally\<close> clears the session whether the request succeeds, fails or is refused.\<close>

definition logout :: "env \<Rightarrow> client \<Rightarrow> (exn + unit) \<times> client" where
  "logout E st =
     (let (r, st1) = fetch E \<lparr>http_method = js ''POST'', url = API_URL E @ js ''/api/logout'', headers = Map.empty, body = None\<rparr> st
      in (map_sum id (\<lambda>_. ()) r, clearSession st1))"

definition me :: "env \<Rightarrow> client \<Rightarrow> (exn + json) \<times> client" where
  "me E st = request E (js ''/api/me'') None None st"

definition exportAccount :: "env \<Rightarrow> client \<Rightarrow> (exn + jstring) \<times> client" where
  "exportAccount E st =
     (let (r, st1) = authFetch E (js ''/api/account/export'')
            \<lparr>init_method = js ''GET'', init_headers = Map.empty, init_body = None\<rparr> st
      in (case r of
            Inl e \<Rightarrow> Inl e
          | Inr res \<Rightarrow> if \<not> ok res then Inl (ApiError (status res) (val_string (errorMessage res))) else body_text res,
          st1))"

definition deleteAccount :: "env \<Rightarrow> jstring \<Rightarrow> client \<Rightarrow> (exn + unit) \<times> client" where
  "deleteAccount E confirmEmail st =
     request_void E (js ''/api/account'') (Some (js ''DELETE'')) (Some (JObj [(js ''confirm_email'', JStr confirmEmail)])) st"

definition getUsage :: "env \<Rightarrow> client \<Rightarrow> (exn + json) \<times> client" where
  "getUsage E st = request E (js ''/api/usage'') None None st"

definition listConversations :: "env \<Rightarrow> client \<Rightarrow> (exn + json) \<times> client" where
  "listConversations E st = request E (js ''/api/conversations'') None None st"

definition createConversation :: "env \<Rightarrow> client \<Rightarrow> (exn + json) \<times> client" where
  "createConversation E st = request E (js ''/api/conversations'') (Some (js ''POST'')) None st"

definition conversation_path :: "int \<Rightarrow> jstring" where
  "conversation_path i = js ''/api/conversations/'' @ int_str i"

definition renameConversation :: "env \<Rightarrow> int \<Rightarrow> jstring \<Rightarrow> client \<Rightarrow> (exn + unit) \<times> client" where
  "renameConversation E i title st =
     request_void E (conversation_path i) (Some (js ''PATCH'')) (Some (JObj [(js ''title'', JStr title)])) st"

definition deleteConversation :: "env \<Rightarrow> int \<Rightarrow> client \<Rightarrow> (exn + unit) \<times> client" where
  "deleteConversation E i st = request_void E (conversation_path i) (Some (js ''DELETE'')) None st"

definition feedback_path :: "int \<Rightarrow> jstring" where
  "feedback_path i = js ''/api/messages/'' @ int_str i @ js ''/feedback''"

definition sendFeedback :: "env \<Rightarrow> int \<Rightarrow> int \<Rightarrow> jstring option \<Rightarrow> client \<Rightarrow> (exn + unit) \<times> client" where
  "sendFeedback E messageId rating comment st =
     request_void E (feedback_path messageId) (Some (js ''POST''))
       (Some (JObj [(js ''rating'', JNum (Fin (of_int rating))),
                    (js ''comment'', JStr (case comment of Some c \<Rightarrow> c | None \<Rightarrow> []))])) st"

definition clearFeedback :: "env \<Rightarrow> int \<Rightarrow> client \<Rightarrow> (exn + unit) \<times> client" where
  "clearFeedback E messageId st = request_void E (feedback_path messageId) (Some (js ''DELETE'')) None st"

definition getMessages :: "env \<Rightarrow> int \<Rightarrow> client \<Rightarrow> (exn + json) \<times> client" where
  "getMessages E i st = request E (conversation_path i @ js ''/messages'') None None st"

section \<open>Properties\<close>

lemma fetch_simps [simp]:
  "fst (fetch E r st) = network E (wire st) r"
  "accessToken (snd (fetch E r st)) = accessToken st"
  "onUnauthorized (snd (fetch E r st)) = onUnauthorized st"
  "notified (snd (fetch E r st)) = notified st"
  "wire (snd (fetch E r st)) = wire st @ [r]"
  by (simp_all add: fetch_def)

lemma clearSession_simps [simp]:
  "accessToken (clearSession st) = Json JNull"
  "onUnauthorized (clearSession st) = onUnauthorized st"
  "notified (clearSession st) = notified st"
  "wire (clearSession st) = wire st"
  by (simp_all add: clearSession_def)

lemma notify_unauthorized_simps [simp]:
  "accessToken (notify_unauthorized st) = accessToken st"
  "onUnauthorized (notify_unauthorized st) = onUnauthorized st"
  "notified (notify_unauthorized st) = (if onUnauthorized st then Suc (notified st) else notified st)"
  "wire (notify_unauthorized st) = wire st"
  by (simp_all add: notify_unauthorized_def)

lemma setSession_Some:
  "setSession t st = Some st' \<Longrightarrow>
     get_prop (js ''access_token'') t = Some (accessToken st') \<and> wire st' = wire st \<and>
     notified st' = notified st \<and> onUnauthorized st' = onUnauthorized st"
  by (auto simp: setSession_def split: option.splits)

lemma refresh_settled_keeps [simp]:
  "wire (snd (refresh_settled r st)) = wire st"
  "onUnauthorized (snd (refresh_settled r st)) = onUnauthorized st"
  by (auto simp: refresh_settled_def split: sum.splits option.splits dest!: setSession_Some)

lemma refresh_settled_token:
  "fst (refresh_settled r st) = Inr t \<Longrightarrow> accessToken (snd (refresh_settled r st)) = t"
  by (auto simp: refresh_settled_def split: sum.splits option.splits if_splits)

lemma refresh_settled_error:
  "fst (refresh_settled r st) = Inl e \<Longrightarrow> snd (refresh_settled r st) = st"
  by (auto simp: refresh_settled_def split: sum.splits option.splits if_splits)

lemma doRefresh_alt:
  "doRefresh E st = refresh_settled (network E (wire st) (refresh_request E)) (st\<lparr>wire := wire st @ [refresh_request E]\<rparr>)"
  by (simp add: doRefresh_def fetch_def)

abbreviation first_request :: "env \<Rightarrow> jstring \<Rightarrow> RequestInit \<Rightarrow> client \<Rightarrow> Request" where
  "first_request E path ini st \<equiv> auth_request E path ini (initial_headers ini st)"

abbreviation retry_request :: "env \<Rightarrow> jstring \<Rightarrow> RequestInit \<Rightarrow> client \<Rightarrow> jsval \<Rightarrow> Request" where
  "retry_request E path ini st token \<equiv>
     auth_request E path ini ((initial_headers ini st)(authorization \<mapsto> bearer token))"

abbreviation first_answer :: "env \<Rightarrow> jstring \<Rightarrow> RequestInit \<Rightarrow> client \<Rightarrow> exn + response" where
  "first_answer E path ini st \<equiv> network E (wire st) (first_request E path ini st)"

definition unauthorized :: "exn + response \<Rightarrow> bool" where
  "unauthorized r \<longleftrightarrow> (case r of Inl _ \<Rightarrow> False | Inr res \<Rightarrow> status res = 401)"

abbreviation after_first :: "env \<Rightarrow> jstring \<Rightarrow> RequestInit \<Rightarrow> client \<Rightarrow> client" where
  "after_first E path ini st \<equiv> snd (fetch E (first_request E path ini st) st)"

lemma authFetch_not_401:
  "\<not> unauthorized (first_answer E path ini st) \<Longrightarrow>
   authFetch E path ini st = (first_answer E path ini st, after_first E path ini st)"
  by (auto simp: authFetch_def unauthorized_def fetch_def Let_def split: sum.splits)

lemma authFetch_401:
  "unauthorized (first_answer E path ini st) \<Longrightarrow>
   authFetch E path ini st =
     (case doRefresh E (after_first E path ini st) of
        (Inl e, st2) \<Rightarrow> (Inl e, st2)
      | (Inr token, st2) \<Rightarrow>
          if truthy token then fetch E (retry_request E path ini st token) st2
          else (first_answer E path ini st, st2))"
  by (auto simp: authFetch_def unauthorized_def fetch_def Let_def split: sum.splits prod.splits)

lemma wire_doRefresh [simp]: "wire (snd (doRefresh E st)) = wire st @ [refresh_request E]"
  by (simp add: doRefresh_alt)

lemma authFetch_wire:
  "\<exists>n token.
     wire (snd (authFetch E path ini st)) =
       wire st @ take n [first_request E path ini st, refresh_request E, retry_request E path ini st token] \<and>
     1 \<le> n \<and> n \<le> 3 \<and>
     (n = 1 \<longleftrightarrow> \<not> unauthorized (first_answer E path ini st)) \<and>
     (n = 3 \<longleftrightarrow> unauthorized (first_answer E path ini st) \<and>
        fst (doRefresh E (after_first E path ini st)) = Inr token \<and> truthy token)"
proof (cases "unauthorized (first_answer E path ini st)")
  case False
  then show ?thesis by (intro exI [of _ "1::nat"]) (simp add: authFetch_not_401)
next
  case True
  obtain t st2 where d: "doRefresh E (after_first E path ini st) = (t, st2)" by fastforce
  have w: "wire st2 = wire st @ [first_request E path ini st, refresh_request E]"
    using wire_doRefresh [of E "after_first E path ini st"] by (simp add: d)
  show ?thesis
  proof (cases t)
    case (Inl e)
    with True d w show ?thesis
      by (intro exI [of _ "2::nat"]) (simp add: authFetch_401 numeral_2_eq_2)
  next
    case (Inr token)
    show ?thesis
    proof (cases "truthy token")
      case True
      then have "authFetch E path ini st = fetch E (retry_request E path ini st token) st2"
        using \<open>unauthorized _\<close> d Inr by (simp add: authFetch_401)
      with True \<open>unauthorized _\<close> d w Inr show ?thesis
        by (intro exI [of _ "3::nat"] exI [of _ token]) (simp add: numeral_3_eq_3)
    next
      case False
      with \<open>unauthorized _\<close> d w Inr show ?thesis
        by (intro exI [of _ "2::nat"] exI [of _ token]) (simp add: authFetch_401 numeral_2_eq_2)
    qed
  qed
qed

text \<open>
  C16: Whatever the network answers, \<open>authFetch\<close> sends the request once, and on a 401 (and only
  then) asks for one refresh; a third request is the same request again with the new token in its
  \<open>Authorization\<close> header, sent only if the refresh gave a token, which is then the session's.
  There is never a second refresh or a second retry.
\<close>

theorem authFetch_requests:
  "\<exists>n token.
     wire (snd (authFetch E path ini st)) =
       wire st @ take n [first_request E path ini st, refresh_request E, retry_request E path ini st token] \<and>
     1 \<le> n \<and> n \<le> 3 \<and>
     (n = 1 \<longleftrightarrow> \<not> unauthorized (first_answer E path ini st)) \<and>
     (n = 3 \<longleftrightarrow> unauthorized (first_answer E path ini st) \<and>
        fst (doRefresh E (after_first E path ini st)) = Inr token \<and> truthy token)"
  by (rule authFetch_wire)


lemma authFetch_denied:
  assumes "network E (wire st) (first_request E path ini st) = Inr res" and "status res = 401"
    and "network E (wire st @ [first_request E path ini st]) (refresh_request E) = Inr no" and "\<not> ok no"
  shows "authFetch E path ini st =
     (Inr res, st\<lparr>accessToken := Json JNull,
                 notified := notified st + (if onUnauthorized st then 1 else 0),
                 wire := wire st @ [first_request E path ini st, refresh_request E]\<rparr>)"
proof -
  have "unauthorized (first_answer E path ini st)" using assms by (simp add: unauthorized_def)
  moreover have "doRefresh E (after_first E path ini st) =
      (Inr (Json JNull), notify_unauthorized (clearSession ((after_first E path ini st)
         \<lparr>wire := wire st @ [first_request E path ini st, refresh_request E]\<rparr>)))"
    using assms by (simp add: doRefresh_alt refresh_settled_def)
  ultimately show ?thesis
    using assms by (simp add: authFetch_401 fetch_def clearSession_def notify_unauthorized_def)
qed

text \<open>
  When the refresh is refused, the caller gets the original 401, the session is cleared and
  the registered \<open>onUnauthorized\<close> callback is called exactly once; the rejected request is not
  repeated.
\<close>

theorem authFetch_refresh_denied:
  assumes "network E (wire st) (first_request E path ini st) = Inr res" and "status res = 401"
    and "network E (wire st @ [first_request E path ini st]) (refresh_request E) = Inr no" and "\<not> ok no"
  shows "authFetch E path ini st =
     (Inr res, st\<lparr>accessToken := Json JNull,
                 notified := notified st + (if onUnauthorized st then 1 else 0),
                 wire := wire st @ [first_request E path ini st, refresh_request E]\<rparr>)"
  using assms by (rule authFetch_denied)

text \<open>A network that answers from a list, whatever is asked.\<close>

definition scripted :: "(exn + response) list \<Rightarrow> env" where
  "scripted answers = \<lparr>API_URL = [], network = (\<lambda>log r. answers ! length log)\<rparr>"

definition answer :: "int \<Rightarrow> string \<Rightarrow> exn + response" where
  "answer s t = Inr \<lparr>status = s, body_text = Inr (js t), stream = None\<rparr>"

definition signed_in :: client where
  "signed_in = \<lparr>accessToken = Json (JStr (js ''old'')), onUnauthorized = True, notified = 0, wire = []\<rparr>"

theorem authFetch_refresh_denied_witness:
  "let ini = \<lparr>init_method = js ''GET'', init_headers = Map.empty, init_body = None\<rparr>;
       (r, st) = authFetch (scripted [answer 401 '''', answer 401 '''']) (js ''/api/me'') ini signed_in
   in r = answer 401 '''' \<and> accessToken st = Json JNull \<and> notified st = 1 \<and> length (wire st) = 2"
  using authFetch_refresh_denied [of "scripted [answer 401 '''', answer 401 '''']" signed_in "js ''/api/me''"
      "\<lparr>init_method = js ''GET'', init_headers = Map.empty, init_body = None\<rparr>"
      "\<lparr>status = 401, body_text = Inr [], stream = None\<rparr>" "\<lparr>status = 401, body_text = Inr [], stream = None\<rparr>"]
  by (simp add: scripted_def answer_def signed_in_def ok_def)

text \<open>
  The message shown for a failed request is never empty: it is the fixed text for a 429, the
  server's \<open>error\<close> field if that is a non-empty value, and a text with the status otherwise, also
  when the body is not JSON, is \<open>null\<close> or cannot be read.
\<close>

theorem errorMessage_truthy: "truthy (errorMessage res)"
  by (auto simp: errorMessage_def Let_def split: sum.splits option.splits)

definition json_init :: "jstring \<Rightarrow> json \<Rightarrow> RequestInit" where
  "json_init meth v =
     \<lparr>init_method = meth, init_headers = [js ''Content-Type'' \<mapsto> js ''application/json''],
      init_body = Some (JSON_stringify v)\<rparr>"

lemma wire_request:
  "wire (snd (request E path (Some meth) (Some v) st)) = wire (snd (authFetch E path (json_init meth v) st))"
  by (simp add: request_def json_init_def case_prod_beta Let_def)

text \<open>A request that carries the JSON value.\<close>

definition carries :: "env \<Rightarrow> jstring \<Rightarrow> jstring \<Rightarrow> json \<Rightarrow> Request \<Rightarrow> bool" where
  "carries E path meth v r \<longleftrightarrow>
     http_method r = meth \<and> url r = API_URL E @ path \<and>
     headers r (js ''Content-Type'') = Some (js ''application/json'') \<and>
     (case body r of None \<Rightarrow> False | Some t \<Rightarrow> JSON_parse t = Some v)"

text \<open>
  Every JSON body a call sends, in the first request and in the retry, parses back to the
  value the caller passed, is announced as JSON, and goes to the method and path of the call; the
  only other request is the refresh.
\<close>

theorem request_body_roundtrip:
  assumes "canonical v"
  shows "\<exists>new. wire (snd (request E path (Some meth) (Some v) st)) = wire st @ new \<and>
     new \<noteq> [] \<and> carries E path meth v (hd new) \<and>
     (\<forall>r \<in> set new. r = refresh_request E \<or> carries E path meth v r)"
proof -
  obtain n token where w: "wire (snd (authFetch E path (json_init meth v) st)) = wire st @
      take n [first_request E path (json_init meth v) st, refresh_request E,
              retry_request E path (json_init meth v) st token]" and n: "1 \<le> n"
    using authFetch_wire [of E path "json_init meth v" st] by blast
  have "carries E path meth v (auth_request E path (json_init meth v) hs)"
    if "hs (js ''Content-Type'') = Some (js ''application/json'')" for hs
    using that JSON_parse_stringify [OF assms] by (simp add: carries_def auth_request_def json_init_def)
  then have first: "carries E path meth v (first_request E path (json_init meth v) st)"
    and retry: "carries E path meth v (retry_request E path (json_init meth v) st token)"
    by (simp_all add: initial_headers_def json_init_def)
  obtain m where "n = Suc m" using n by (cases n) auto
  with first retry show ?thesis
    unfolding wire_request w by (intro exI conjI [OF refl]) (auto dest!: in_set_takeD)
qed

theorem request_body_roundtrip_witness:
  "let v = JObj [(js ''title'', JStr (js ''x''))]; E = scripted [answer 200 '''']
   in carries E (js ''/p'') (js ''PATCH'') v
        (hd (wire (snd (request E (js ''/p'') (Some (js ''PATCH'')) (Some v) signed_in))))"
proof -
  have "canonical (JObj [(js ''title'', JStr (js ''x''))])" by (simp add: obj_put_def key_index_def js_text)
  from request_body_roundtrip [OF this, of "scripted [answer 200 '''']" "js ''/p''" "js ''PATCH''" signed_in]
  show ?thesis unfolding Let_def by (auto simp: signed_in_def)
qed

text \<open>Distinct ids have distinct paths.\<close>

lemma digits_str_no_minus: "0 \<le> n \<Longrightarrow> hd (digits_str n) \<noteq> 0x2D"
proof -
  assume "0 \<le> n"
  from digits_str_val [OF this] have "is_digit (hd (digits_str n))"
    by (cases "digits_str n") auto
  then show ?thesis by (auto simp: is_digit_def)
qed

lemma int_str_inject: "int_str m = int_str n \<longleftrightarrow> m = n"
proof
  have minus: "js ''-'' = [0x2D]" by (simp add: js_text)
  have mixed: "int_str a \<noteq> int_str b" if "a < 0" "0 \<le> b" for a b
    using that digits_str_no_minus [of b] digits_str_val [of b]
    by (cases "digits_str b") (auto simp: int_str_def minus)
  assume eq: "int_str m = int_str n"
  then have same: "m < 0 \<longleftrightarrow> n < 0"
    using mixed [of m n] mixed [of n m] by (metis not_less)
  then have "digits_str \<bar>m\<bar> = digits_str \<bar>n\<bar>"
    using eq by (auto simp: int_str_def)
  then have "digits_val (digits_str \<bar>m\<bar>) = digits_val (digits_str \<bar>n\<bar>)" by simp
  then have "\<bar>m\<bar> = \<bar>n\<bar>" using digits_str_val [of "\<bar>m\<bar>"] digits_str_val [of "\<bar>n\<bar>"] by simp
  then show "m = n" using same by linarith
qed simp

lemma conversation_path_inject: "conversation_path i = conversation_path j \<longleftrightarrow> i = j"
  by (simp add: conversation_path_def int_str_inject)

end
