(* ===== verification/ApiConcurrency.thy ===== *)
theory ApiConcurrency
  imports Api
begin

text \<open>
  Overlapping calls of \<open>web/src/lib/api.ts\<close>: the promise \<open>refreshing\<close> that all calls rejected
  with a 401 share, as a step relation over the module's variables, the promises made so far and
  the calls in progress. A step is a stretch of code between two suspension points: a call up to
  its first \<open>fetch\<close>, the code after an answer, the \<open>finally\<close> that resets \<open>refreshing\<close>, the code
  after \<open>await refreshAccess()\<close>. Answers come in any order and with any content.
\<close>

section \<open>State\<close>

text \<open>
  A refresh promise: its request is under way; \<open>doRefresh\<close> has settled but the \<open>finally\<close> callback
  has not run; the promise handed to the callers is resolved or rejected.
\<close>

datatype promise = Flying | Settling "exn + jsval" | Resolved "exn + jsval"

text \<open>
  A call of \<open>authFetch\<close>: waiting for its first answer, for refresh promise \<open>k\<close> (its rejected
  response kept), for the answer to the retry, or settled. \<open>Booting\<close> is the caller of
  \<open>refreshAccess\<close> in \<open>auth-context.tsx\<close>, \<open>LoggingOut\<close> a call of \<open>logout\<close>.
\<close>

datatype task =
    Sent jstring RequestInit "jstring \<rightharpoonup> jstring"
  | Awaiting jstring RequestInit "jstring \<rightharpoonup> jstring" response nat
  | Resent
  | Settled "exn + response"
  | Booting nat
  | Booted "exn + jsval"
  | LoggingOut
  | LoggedOut

record session =
  client :: client
  refreshing :: "nat option"
  promises :: "promise list"
  tasks :: "task list"

definition sent :: "Request \<Rightarrow> client \<Rightarrow> client" where
  "sent r c = c\<lparr>wire := wire c @ [r]\<rparr>"

text \<open>\<open>refreshAccess()\<close>: join the refresh under way or start one; gives the promise.\<close>

definition refreshAccess :: "env \<Rightarrow> session \<Rightarrow> nat \<times> session" where
  "refreshAccess E s =
     (case refreshing s of
        Some k \<Rightarrow> (k, s)
      | None \<Rightarrow>
          (length (promises s),
           s\<lparr>refreshing := Some (length (promises s)), promises := promises s @ [Flying],
             client := sent (refresh_request E) (client s)\<rparr>))"

definition set_task :: "nat \<Rightarrow> task \<Rightarrow> session \<Rightarrow> session" where
  "set_task i t s = s\<lparr>tasks := (tasks s)[i := t]\<rparr>"

definition add_task :: "task \<Rightarrow> session \<Rightarrow> session" where
  "add_task t s = s\<lparr>tasks := tasks s @ [t]\<rparr>"

section \<open>Steps\<close>

text \<open>New work: a call, the boot of the session, a logout, a login that stores its tokens.\<close>

inductive begins :: "env \<Rightarrow> session \<Rightarrow> session \<Rightarrow> bool" for E where
  call:
    "hs = initial_headers ini (client s) \<Longrightarrow>
     begins E s (add_task (Sent path ini hs) (s\<lparr>client := sent (auth_request E path ini hs) (client s)\<rparr>))"
| boot:
    "refreshAccess E s = (k, s') \<Longrightarrow> begins E s (add_task (Booting k) s')"
| logout:
    "begins E s (add_task LoggingOut
       (s\<lparr>client := sent \<lparr>http_method = js ''POST'', url = API_URL E @ js ''/api/logout'', headers = Map.empty, body = None\<rparr> (client s)\<rparr>))"
| login:
    "setSession v (client s) = Some c \<Longrightarrow> begins E s (s\<lparr>client := c\<rparr>)"

text \<open>Continuations: an answer arrives or a settled promise lets its callers go on.\<close>

inductive continues :: "env \<Rightarrow> session \<Rightarrow> session \<Rightarrow> bool" for E where
  answered:
    "i < length (tasks s) \<Longrightarrow> tasks s ! i = Sent path ini hs \<Longrightarrow> \<not> unauthorized r \<Longrightarrow>
     continues E s (set_task i (Settled r) s)"
| rejected:
    "i < length (tasks s) \<Longrightarrow> tasks s ! i = Sent path ini hs \<Longrightarrow> status res = 401 \<Longrightarrow>
     refreshAccess E s = (k, s') \<Longrightarrow>
     continues E s (set_task i (Awaiting path ini hs res k) s')"
| refresh_answered:
    "k < length (promises s) \<Longrightarrow> promises s ! k = Flying \<Longrightarrow>
     refresh_settled r (client s) = (v, c) \<Longrightarrow>
     continues E s (s\<lparr>promises := (promises s)[k := Settling v], client := c\<rparr>)"
| finally_resets:
    "k < length (promises s) \<Longrightarrow> promises s ! k = Settling v \<Longrightarrow>
     continues E s (s\<lparr>promises := (promises s)[k := Resolved v], refreshing := None\<rparr>)"
| resume_error:
    "i < length (tasks s) \<Longrightarrow> tasks s ! i = Awaiting path ini hs res k \<Longrightarrow>
     k < length (promises s) \<Longrightarrow> promises s ! k = Resolved (Inl e) \<Longrightarrow>
     continues E s (set_task i (Settled (Inl e)) s)"
| resume_retry:
    "i < length (tasks s) \<Longrightarrow> tasks s ! i = Awaiting path ini hs res k \<Longrightarrow>
     k < length (promises s) \<Longrightarrow> promises s ! k = Resolved (Inr token) \<Longrightarrow> truthy token \<Longrightarrow>
     continues E s (set_task i Resent
       (s\<lparr>client := sent (auth_request E path ini (hs(authorization \<mapsto> bearer token))) (client s)\<rparr>))"
| resume_refused:
    "i < length (tasks s) \<Longrightarrow> tasks s ! i = Awaiting path ini hs res k \<Longrightarrow>
     k < length (promises s) \<Longrightarrow> promises s ! k = Resolved (Inr token) \<Longrightarrow> \<not> truthy token \<Longrightarrow>
     continues E s (set_task i (Settled (Inr res)) s)"
| retried:
    "i < length (tasks s) \<Longrightarrow> tasks s ! i = Resent \<Longrightarrow> continues E s (set_task i (Settled r) s)"
| booted:
    "i < length (tasks s) \<Longrightarrow> tasks s ! i = Booting k \<Longrightarrow>
     k < length (promises s) \<Longrightarrow> promises s ! k = Resolved v \<Longrightarrow>
     continues E s (set_task i (Booted v) s)"
| logged_out:
    "i < length (tasks s) \<Longrightarrow> tasks s ! i = LoggingOut \<Longrightarrow>
     continues E s (set_task i LoggedOut (s\<lparr>client := clearSession (client s)\<rparr>))"

definition steps :: "env \<Rightarrow> session \<Rightarrow> session \<Rightarrow> bool" where
  "steps E s t \<longleftrightarrow> begins E s t \<or> continues E s t"

definition idle :: "client \<Rightarrow> session" where
  "idle c = \<lparr>client = c, refreshing = None, promises = [], tasks = []\<rparr>"

abbreviation reachable :: "env \<Rightarrow> client \<Rightarrow> session \<Rightarrow> bool" where
  "reachable E c s \<equiv> (steps E)\<^sup>*\<^sup>* (idle c) s"

section \<open>At most one refresh, and no lost caller\<close>

definition is_resolved :: "promise \<Rightarrow> bool" where
  "is_resolved p \<longleftrightarrow> (case p of Resolved _ \<Rightarrow> True | _ \<Rightarrow> False)"

definition awaited :: "task \<Rightarrow> nat option" where
  "awaited t = (case t of Awaiting _ _ _ _ k \<Rightarrow> Some k | Booting k \<Rightarrow> Some k | _ \<Rightarrow> None)"

definition finished :: "task \<Rightarrow> bool" where
  "finished t \<longleftrightarrow> (case t of Settled _ \<Rightarrow> True | Booted _ \<Rightarrow> True | LoggedOut \<Rightarrow> True | _ \<Rightarrow> False)"

text \<open>
  \<open>refreshing\<close> holds exactly the promise that is not resolved yet, so there is at most one, and
  every caller waits for a promise that exists.
\<close>

definition consistent :: "session \<Rightarrow> bool" where
  "consistent s \<longleftrightarrow>
     (\<forall>k < length (promises s). is_resolved (promises s ! k) \<longleftrightarrow> refreshing s \<noteq> Some k) \<and>
     (\<forall>k. refreshing s = Some k \<longrightarrow> k < length (promises s)) \<and>
     (\<forall>t \<in> set (tasks s). \<forall>k. awaited t = Some k \<longrightarrow> k < length (promises s))"

lemma is_resolved_simps [simp]:
  "\<not> is_resolved Flying" "\<not> is_resolved (Settling v)" "is_resolved (Resolved v)"
  by (simp_all add: is_resolved_def)

lemma awaited_simps [simp]:
  "awaited (Sent path ini hs) = None" "awaited (Awaiting path ini hs res k) = Some k"
  "awaited Resent = None" "awaited (Settled r) = None" "awaited (Booting k) = Some k"
  "awaited (Booted v) = None" "awaited LoggingOut = None" "awaited LoggedOut = None"
  by (simp_all add: awaited_def)

lemma finished_simps [simp]:
  "\<not> finished (Sent path ini hs)" "\<not> finished (Awaiting path ini hs res k)" "\<not> finished Resent"
  "finished (Settled r)" "\<not> finished (Booting k)" "finished (Booted v)" "\<not> finished LoggingOut"
  "finished LoggedOut"
  by (simp_all add: finished_def)

lemma task_updates [simp]:
  "client (set_task i t s) = client s" "refreshing (set_task i t s) = refreshing s"
  "promises (set_task i t s) = promises s" "tasks (set_task i t s) = (tasks s)[i := t]"
  "client (add_task t s) = client s" "refreshing (add_task t s) = refreshing s"
  "promises (add_task t s) = promises s" "tasks (add_task t s) = tasks s @ [t]"
  by (simp_all add: set_task_def add_task_def)

lemma consistent_client [simp]: "consistent (s\<lparr>client := c\<rparr>) = consistent s"
  by (simp add: consistent_def)

lemma consistent_set_task:
  "consistent s \<Longrightarrow> (\<And>k. awaited t = Some k \<Longrightarrow> k < length (promises s)) \<Longrightarrow> consistent (set_task i t s)"
  by (auto simp: consistent_def dest!: set_update_subset_insert [THEN subsetD])

lemma consistent_add_task:
  "consistent s \<Longrightarrow> (\<And>k. awaited t = Some k \<Longrightarrow> k < length (promises s)) \<Longrightarrow> consistent (add_task t s)"
  by (auto simp: consistent_def)

lemma refreshAccess_consistent:
  assumes "consistent s" and "refreshAccess E s = (k, s')"
  shows "consistent s'" and "k < length (promises s')" and "refreshing s' = Some k"
    and "tasks s' = tasks s" and "\<not> is_resolved (promises s' ! k)"
proof -
  show "consistent s'" "k < length (promises s')" "refreshing s' = Some k" "tasks s' = tasks s"
    using assms by (auto simp: refreshAccess_def consistent_def nth_append less_Suc_eq split: option.splits)
  then show "\<not> is_resolved (promises s' ! k)" by (auto simp: consistent_def)
qed

lemma begins_consistent: "begins E s t \<Longrightarrow> consistent s \<Longrightarrow> consistent t"
proof (induction rule: begins.induct)
  case (boot s k s')
  then show ?case using refreshAccess_consistent [of s E k s'] by (auto intro!: consistent_add_task)
qed (auto intro!: consistent_add_task)

lemma continues_consistent: "continues E s t \<Longrightarrow> consistent s \<Longrightarrow> consistent t"
proof (induction rule: continues.induct)
  case (rejected i s path ini hs res k s')
  then show ?case using refreshAccess_consistent [of s E k s'] by (auto intro!: consistent_set_task)
next
  case (refresh_answered k s r v c)
  then show ?case by (auto simp: consistent_def nth_list_update)
next
  case (finally_resets k s v)
  then show ?case by (auto simp: consistent_def nth_list_update)
qed (auto intro!: consistent_set_task)

interpretation calls: transition_invariant "idle c" "steps E" consistent for E c
proof unfold_locales
  show "consistent (idle c)" by (simp add: consistent_def idle_def)
qed (auto simp: steps_def dest: begins_consistent continues_consistent)

section \<open>Progress\<close>

definition promise_weight :: "promise \<Rightarrow> nat" where
  "promise_weight p = (case p of Flying \<Rightarrow> 2 | Settling _ \<Rightarrow> 1 | Resolved _ \<Rightarrow> 0)"

definition task_weight :: "task \<Rightarrow> nat" where
  "task_weight t =
     (case t of Sent _ _ _ \<Rightarrow> 5 | Awaiting _ _ _ _ _ \<Rightarrow> 2 | Resent \<Rightarrow> 1 | Booting _ \<Rightarrow> 1 | LoggingOut \<Rightarrow> 1 | _ \<Rightarrow> 0)"

definition weight :: "session \<Rightarrow> nat" where
  "weight s = sum_list (map promise_weight (promises s)) + sum_list (map task_weight (tasks s))"

lemma sum_list_map_update:
  "i < length xs \<Longrightarrow> sum_list (map f (xs[i := x])) + f (xs ! i) = sum_list (map f xs) + (f x :: nat)"
  by (induction xs arbitrary: i) (auto split: nat.splits)

lemma weight_set_task:
  "i < length (tasks s) \<Longrightarrow> weight (set_task i t s) + task_weight (tasks s ! i) = weight s + task_weight t"
  using sum_list_map_update [of i "tasks s" task_weight t] by (simp add: weight_def)

lemma weight_client [simp]: "weight (s\<lparr>client := c\<rparr>) = weight s"
  by (simp add: weight_def)

lemma continues_weight: "continues E s t \<Longrightarrow> weight t < weight s"
proof (induction rule: continues.induct)
  case (rejected i s path ini hs res k s')
  have "tasks s' = tasks s" and "weight s' \<le> weight s + 2"
    using rejected(4) by (auto simp: refreshAccess_def weight_def promise_weight_def split: option.splits)
  then show ?case
    using rejected weight_set_task [of i s' "Awaiting path ini hs res k"] by (simp add: task_weight_def)
next
  case (refresh_answered k s r v c)
  then show ?case
    using sum_list_map_update [of k "promises s" promise_weight "Settling v"]
    by (simp add: weight_def promise_weight_def)
next
  case (finally_resets k s v)
  then show ?case
    using sum_list_map_update [of k "promises s" promise_weight "Resolved v"]
    by (simp add: weight_def promise_weight_def)
next
  case (answered i s path ini hs r)
  then show ?case using weight_set_task [of i s "Settled r"] by (simp add: task_weight_def)
next
  case (resume_error i s path ini hs res k e)
  then show ?case using weight_set_task [of i s "Settled (Inl e)"] by (simp add: task_weight_def)
next
  case (resume_retry i s path ini hs res k token)
  let ?c = "sent (auth_request E path ini (hs(authorization \<mapsto> bearer token))) (client s)"
  from resume_retry show ?case
    using weight_set_task [of i "s\<lparr>client := ?c\<rparr>" Resent] by (simp add: task_weight_def)
next
  case (resume_refused i s path ini hs res k token)
  then show ?case using weight_set_task [of i s "Settled (Inr res)"] by (simp add: task_weight_def)
next
  case (retried i s r)
  then show ?case using weight_set_task [of i s "Settled r"] by (simp add: task_weight_def)
next
  case (booted i s k v)
  then show ?case using weight_set_task [of i s "Booted v"] by (simp add: task_weight_def)
next
  case (logged_out i s)
  then show ?case
    using weight_set_task [of i "s\<lparr>client := clearSession (client s)\<rparr>" LoggedOut] by (simp add: task_weight_def)
qed

lemma promise_progress:
  assumes "k < length (promises s)" and "\<not> is_resolved (promises s ! k)"
  shows "\<exists>t. continues E s t"
proof (cases "promises s ! k")
  case Flying
  with assms show ?thesis by (metis continues.refresh_answered surj_pair)
next
  case (Settling v)
  with assms show ?thesis by (blast intro: continues.finally_resets)
qed (use assms in simp)

lemma continues_progress:
  assumes "consistent s" and "t \<in> set (tasks s)" and "\<not> finished t"
  shows "\<exists>s'. continues E s s'"
proof -
  from assms(2) obtain i where i: "i < length (tasks s)" "tasks s ! i = t" by (auto simp: in_set_conv_nth)
  have bound: "k < length (promises s)" if "awaited t = Some k" for k
    using assms(1,2) that by (auto simp: consistent_def)
  show ?thesis
  proof (cases t)
    case (Sent path ini hs)
    with i have "continues E s (set_task i (Settled (Inl AbortError)) s)"
      by (auto intro!: continues.answered simp: unauthorized_def)
    then show ?thesis ..
  next
    case (Awaiting path ini hs res k)
    with bound have k: "k < length (promises s)" by simp
    show ?thesis
    proof (cases "promises s ! k")
      case (Resolved v)
      show ?thesis
      proof (cases v)
        case (Inl e)
        with i k Awaiting Resolved show ?thesis by (blast intro: continues.resume_error)
      next
        case (Inr token)
        with i k Awaiting Resolved show ?thesis
          by (cases "truthy token") (blast intro: continues.resume_retry continues.resume_refused)+
      qed
    qed (use promise_progress [OF k] in auto)
  next
    case (Booting k)
    with bound have k: "k < length (promises s)" by simp
    show ?thesis
    proof (cases "promises s ! k")
      case (Resolved v)
      with i k Booting show ?thesis by (blast intro: continues.booted)
    qed (use promise_progress [OF k] in auto)
  next
    case Resent
    with i show ?thesis by (blast intro: continues.retried)
  next
    case LoggingOut
    with i show ?thesis by (blast intro: continues.logged_out)
  qed (use assms(3) in auto)
qed

interpretation answers: weighted_steps "continues E" consistent weight for E
  by unfold_locales (auto dest: continues_consistent continues_weight)

text \<open>
  C8: In every interleaving of calls, answers, boots, logins and logouts, \<open>refreshing\<close> names
  exactly the refresh promises that are not resolved yet. So there is never more than one refresh
  under way, and once it is resolved the next 401 starts a new one.
\<close>

theorem single_flight:
  "reachable E c s \<Longrightarrow>
   {k. k < length (promises s) \<and> \<not> is_resolved (promises s ! k)} = set_option (refreshing s)"
  using calls.inv_reachable [of E c s] by (auto simp: consistent_def)

text \<open>
  C9: No call is lost: from every reachable state the continuations (answers, the \<open>finally\<close>
  callback, resumed callers) end after at most \<open>weight\<close> many steps, and where no continuation is
  left every call has been settled, whatever the answers were and in whatever order they came.
\<close>

theorem calls_complete:
  assumes "reachable E c s"
  shows "(\<forall>n t. (continues E ^^ n) s t \<longrightarrow> n \<le> weight s) \<and>
     (\<forall>t. (continues E)\<^sup>*\<^sup>* s t \<and> (\<nexists>u. continues E t u) \<longrightarrow> list_all finished (tasks t)) \<and>
     (\<exists>u. (continues E)\<^sup>*\<^sup>* s u \<and> list_all finished (tasks u))"
proof -
  have con: "consistent s" using assms by (rule calls.inv_reachable)
  have settled: "list_all finished (tasks t)" if "(continues E)\<^sup>*\<^sup>* s t" "\<nexists>u. continues E t u" for t
    using that answers.inv_steps [OF that(1) con] continues_progress [of t _ E] unfolding list_all_iff by blast
  have "n \<le> weight s" if "(continues E ^^ n) s t" for n t using answers.bounded [OF that con] by simp
  with settled answers.ends [OF con] show ?thesis by blast
qed

lemma run_begins: "(steps E)\<^sup>*\<^sup>* s t \<Longrightarrow> begins E t u \<Longrightarrow> (steps E)\<^sup>*\<^sup>* s u"
  by (erule rtranclp.rtrancl_into_rtrancl) (simp add: steps_def)

lemma run_continues: "(steps E)\<^sup>*\<^sup>* s t \<Longrightarrow> continues E t u \<Longrightarrow> (steps E)\<^sup>*\<^sup>* s u"
  by (erule rtranclp.rtrancl_into_rtrancl) (simp add: steps_def)

lemmas run_steps = rtranclp.rtrancl_refl run_begins run_continues

text \<open>Two calls, both rejected: they wait for the same refresh.\<close>

definition demo_init :: RequestInit where
  "demo_init = \<lparr>init_method = js ''GET'', init_headers = Map.empty, init_body = None\<rparr>"

definition unauthorized_answer :: response where
  "unauthorized_answer = \<lparr>status = 401, body_text = Inr [], stream = None\<rparr>"

definition demo_headers :: "jstring \<rightharpoonup> jstring" where
  "demo_headers = initial_headers demo_init signed_in"

definition demo_call :: "env \<Rightarrow> client \<Rightarrow> client" where
  "demo_call E c = sent (auth_request E (js ''/api/me'') demo_init demo_headers) c"

abbreviation demo_waiting :: task where
  "demo_waiting \<equiv> Awaiting (js ''/api/me'') demo_init demo_headers unauthorized_answer 0"

definition two_waiting :: "env \<Rightarrow> session" where
  "two_waiting E = \<lparr>client = sent (refresh_request E) (demo_call E (demo_call E signed_in)),
     refreshing = Some 0, promises = [Flying], tasks = [demo_waiting, demo_waiting]\<rparr>"

lemma two_waiting_reachable: "reachable E signed_in (two_waiting E)"
proof -
  let ?sent = "Sent (js ''/api/me'') demo_init demo_headers"
  let ?s1 = "\<lparr>client = demo_call E signed_in, refreshing = None, promises = [], tasks = [?sent]\<rparr>"
  let ?s2 = "\<lparr>client = demo_call E (demo_call E signed_in), refreshing = None, promises = [], tasks = [?sent, ?sent]\<rparr>"
  let ?s3 = "\<lparr>client = sent (refresh_request E) (demo_call E (demo_call E signed_in)), refreshing = Some 0,
      promises = [Flying], tasks = [demo_waiting, ?sent]\<rparr>"
  have h: "demo_headers = initial_headers demo_init (demo_call E signed_in)"
    by (simp add: demo_headers_def demo_call_def sent_def initial_headers_def)
  have "begins E (idle signed_in) ?s1"
    using begins.call [of demo_headers demo_init "idle signed_in" E "js ''/api/me''"]
    by (simp add: demo_headers_def idle_def add_task_def demo_call_def)
  moreover have "begins E ?s1 ?s2"
    using begins.call [of demo_headers demo_init ?s1 E "js ''/api/me''"] h
    by (simp add: add_task_def demo_call_def)
  moreover have "continues E ?s2 ?s3"
    using continues.rejected [of 0 ?s2 "js ''/api/me''" demo_init demo_headers unauthorized_answer E 0]
    by (simp add: refreshAccess_def unauthorized_answer_def set_task_def)
  moreover have "continues E ?s3 (two_waiting E)"
    using continues.rejected [of 1 ?s3 "js ''/api/me''" demo_init demo_headers unauthorized_answer E 0]
    by (simp add: refreshAccess_def unauthorized_answer_def set_task_def two_waiting_def)
  ultimately show ?thesis by (meson run_steps)
qed

theorem single_flight_witness:
  "{k. k < length (promises (two_waiting (scripted []))) \<and> \<not> is_resolved (promises (two_waiting (scripted [])) ! k)} = {0} \<and>
   map awaited (tasks (two_waiting (scripted []))) = [Some 0, Some 0]"
  using single_flight [OF two_waiting_reachable, of "scripted []"] by (simp add: two_waiting_def)

theorem calls_complete_witness:
  "length (tasks (two_waiting (scripted []))) = 2 \<and>
   (\<exists>u. (continues (scripted []))\<^sup>*\<^sup>* (two_waiting (scripted [])) u \<and> list_all finished (tasks u))"
  using calls_complete [OF two_waiting_reachable, of "scripted []"] by (simp add: two_waiting_def)

section \<open>The sequential client is one schedule\<close>

text \<open>Running a call by itself, with the answers the network gives, is a run of the step relation.\<close>

lemma sent_fetch: "sent r c = snd (fetch E r c)"
  by (simp add: sent_def fetch_def)

text \<open>A rejected call with no refresh under way: the refresh is sent, answered and put away.\<close>

lemma refresh_run:
  assumes run: "(continues E)\<^sup>*\<^sup>* s0 (add_task (Sent path ini hs) (s\<lparr>client := c\<rparr>))"
    and idle: "refreshing s = None" and "status res = 401" and d: "doRefresh E c = (v, c2)"
  shows "(continues E)\<^sup>*\<^sup>* s0 (s\<lparr>client := c2, refreshing := None, promises := promises s @ [Resolved v],
     tasks := tasks s @ [Awaiting path ini hs res (length (promises s))]\<rparr>)"
proof -
  let ?i = "length (tasks s)" and ?k = "length (promises s)"
  let ?s1 = "add_task (Sent path ini hs) (s\<lparr>client := c\<rparr>)"
  let ?w = "Awaiting path ini hs res ?k"
  let ?s2 = "s\<lparr>client := sent (refresh_request E) c, refreshing := Some ?k,
      promises := promises s @ [Flying], tasks := tasks s @ [?w]\<rparr>"
  let ?s3 = "s\<lparr>client := c2, refreshing := Some ?k, promises := promises s @ [Settling v], tasks := tasks s @ [?w]\<rparr>"
  let ?s4 = "s\<lparr>client := c2, refreshing := None, promises := promises s @ [Resolved v], tasks := tasks s @ [?w]\<rparr>"
  have "continues E ?s1 ?s2"
    using continues.rejected [of ?i ?s1 path ini hs res E ?k] assms(3) idle
    by (cases s) (simp add: refreshAccess_def set_task_def add_task_def)
  moreover have "continues E ?s2 ?s3"
    using continues.refresh_answered [of ?k ?s2 "network E (wire c) (refresh_request E)" v c2 E] d
    by (cases s) (simp add: doRefresh_alt sent_def)
  moreover have "continues E ?s3 ?s4"
    using continues.finally_resets [of ?k ?s3 v E] by (cases s) simp
  ultimately show ?thesis using run by (meson rtranclp.rtrancl_into_rtrancl)
qed

text \<open>The caller resumed by a refresh that is put away: its error, its retry, or its first answer.\<close>

lemma resume_run:
  assumes run: "(continues E)\<^sup>*\<^sup>* s0 s" and idle: "refreshing s = None"
    and task: "tasks s = ts @ [Awaiting path ini hs res k]" and "k < length (promises s)" and "promises s ! k = Resolved v"
  shows "\<exists>t. (continues E)\<^sup>*\<^sup>* s0 t \<and> refreshing t = None \<and>
     (case v of
        Inl e \<Rightarrow> client t = client s \<and> tasks t = ts @ [Settled (Inl e)]
      | Inr token \<Rightarrow>
          if truthy token
          then let rc = fetch E (auth_request E path ini (hs(authorization \<mapsto> bearer token))) (client s) in
            client t = snd rc \<and> tasks t = ts @ [Settled (fst rc)]
          else client t = client s \<and> tasks t = ts @ [Settled (Inr res)])"
proof (cases v)
  case (Inl e)
  then have "continues E s (set_task (length ts) (Settled (Inl e)) s)"
    using assms by (intro continues.resume_error [where k = k]) auto
  from rtranclp.rtrancl_into_rtrancl [OF run this] Inl idle task show ?thesis
    by (intro exI [of _ "set_task (length ts) (Settled (Inl e)) s"]) (simp add: set_task_def)
next
  case (Inr token)
  show ?thesis
  proof (cases "truthy token")
    case False
    then have "continues E s (set_task (length ts) (Settled (Inr res)) s)"
      using assms Inr by (intro continues.resume_refused [where k = k and token = token]) auto
    from rtranclp.rtrancl_into_rtrancl [OF run this] Inr False idle task show ?thesis
      by (intro exI [of _ "set_task (length ts) (Settled (Inr res)) s"]) (simp add: set_task_def)
  next
    case True
    let ?r = "auth_request E path ini (hs(authorization \<mapsto> bearer token))"
    let ?s5 = "set_task (length ts) Resent (s\<lparr>client := sent ?r (client s)\<rparr>)"
    let ?s6 = "set_task (length ts) (Settled (fst (fetch E ?r (client s)))) ?s5"
    have "continues E s ?s5"
      using assms Inr True by (intro continues.resume_retry [where k = k and token = token]) auto
    moreover have "continues E ?s5 ?s6"
      using task by (intro continues.retried) (auto simp: set_task_def)
    ultimately have "(continues E)\<^sup>*\<^sup>* s0 ?s6" using run by (meson rtranclp.rtrancl_into_rtrancl)
    with Inr True idle task show ?thesis
      by (intro exI [of _ ?s6]) (simp add: set_task_def Let_def sent_fetch [of _ _ E])
  qed
qed

text \<open>\<open>start_call\<close>: a call of \<open>authFetch\<close> up to its first \<open>await\<close>.\<close>

definition start_call :: "env \<Rightarrow> jstring \<Rightarrow> RequestInit \<Rightarrow> session \<Rightarrow> session" where
  "start_call E path ini s =
     (let hs = initial_headers ini (client s) in
      add_task (Sent path ini hs) (s\<lparr>client := sent (auth_request E path ini hs) (client s)\<rparr>))"

lemma start_call_begins: "begins E s (start_call E path ini s)"
  using begins.call [OF refl, of E s path ini] by (simp add: start_call_def Let_def)

lemma authFetch_run:
  assumes "refreshing s = None"
  shows "\<exists>t. (continues E)\<^sup>*\<^sup>* (start_call E path ini s) t \<and> client t = snd (authFetch E path ini (client s)) \<and>
     tasks t = tasks s @ [Settled (fst (authFetch E path ini (client s)))] \<and> refreshing t = None"
proof -
  let ?i = "length (tasks s)" and ?hs = "initial_headers ini (client s)" and ?k = "length (promises s)"
  let ?r1 = "first_answer E path ini (client s)" and ?c1 = "after_first E path ini (client s)"
  let ?s1 = "add_task (Sent path ini ?hs) (s\<lparr>client := ?c1\<rparr>)"
  have start: "start_call E path ini s = ?s1" by (simp add: start_call_def Let_def sent_fetch [symmetric])
  show ?thesis
  proof (cases "unauthorized ?r1")
    case False
    have "continues E ?s1 (set_task ?i (Settled ?r1) ?s1)"
      using False by (intro continues.answered) auto
    then have "(continues E)\<^sup>*\<^sup>* ?s1 (set_task ?i (Settled ?r1) ?s1)" ..
    with False assms show ?thesis
      unfolding start by (intro exI [of _ "set_task ?i (Settled ?r1) ?s1"]) (simp add: authFetch_not_401)
  next
    case True
    then obtain res where res: "?r1 = Inr res" "status res = 401" by (auto simp: unauthorized_def split: sum.splits)
    obtain v c2 where d: "doRefresh E ?c1 = (v, c2)" by fastforce
    from resume_run [OF refresh_run [where path = path and ini = ini and hs = ?hs, OF rtranclp.rtrancl_refl assms res(2) d], of "tasks s" path ini ?hs res ?k v] True d res
    show ?thesis unfolding start by (cases v) (auto simp: authFetch_401 Let_def split: if_splits)
  qed
qed

text \<open>
  A call made while no refresh is under way and answered before anything else happens does
  exactly what the sequential \<open>authFetch\<close> does: the same requests, the same session, the same
  result, and no refresh left under way.
\<close>

theorem authFetch_schedule:
  assumes "refreshing s = None"
  shows "\<exists>t. (steps E)\<^sup>*\<^sup>* s t \<and> client t = snd (authFetch E path ini (client s)) \<and>
     tasks t = tasks s @ [Settled (fst (authFetch E path ini (client s)))] \<and> refreshing t = None"
proof -
  obtain t where t: "(continues E)\<^sup>*\<^sup>* (start_call E path ini s) t"
      "client t = snd (authFetch E path ini (client s)) \<and>
       tasks t = tasks s @ [Settled (fst (authFetch E path ini (client s)))] \<and> refreshing t = None"
    using authFetch_run [OF assms] by blast
  have "(steps E)\<^sup>*\<^sup>* (start_call E path ini s) t"
    using t(1) by (rule rtranclp_mono [THEN predicate2D, rotated]) (auto simp: steps_def)
  moreover have "steps E s (start_call E path ini s)" by (simp add: steps_def start_call_begins)
  ultimately show ?thesis using t(2) by (meson converse_rtranclp_into_rtranclp)
qed

theorem authFetch_schedule_witness:
  "\<exists>t. reachable (scripted [answer 401 '''', answer 401 '''']) signed_in t \<and>
     tasks t = [Settled (answer 401 '''')] \<and> accessToken (client t) = Json JNull"
proof -
  let ?E = "scripted [answer 401 '''', answer 401 '''']"
  obtain t where t: "reachable ?E signed_in t"
      "client t = snd (authFetch ?E (js ''/api/me'') demo_init signed_in)"
      "tasks t = [Settled (fst (authFetch ?E (js ''/api/me'') demo_init signed_in))]"
    using authFetch_schedule [of "idle signed_in" ?E "js ''/api/me''" demo_init] by (auto simp: idle_def)
  have "authFetch ?E (js ''/api/me'') demo_init signed_in =
      (answer 401 '''', snd (authFetch ?E (js ''/api/me'') demo_init signed_in))"
    and "accessToken (snd (authFetch ?E (js ''/api/me'') demo_init signed_in)) = Json JNull"
    by (simp_all add: authFetch_def fetch_def doRefresh_def refresh_settled_def ok_def clearSession_def
        notify_unauthorized_def scripted_def answer_def signed_in_def Let_def)
  with t show ?thesis by (metis fst_conv)
qed

text \<open>
  A logout does not cancel a refresh under way: its answer may put a token back after the logout
  has cleared the session and returned.
\<close>

definition new_token :: jsval where
  "new_token = Json (JStr (js ''new''))"

definition logout_request :: "env \<Rightarrow> Request" where
  "logout_request E =
     \<lparr>http_method = js ''POST'', url = API_URL E @ js ''/api/logout'', headers = Map.empty, body = None\<rparr>"

theorem logout_races_refresh:
  "\<exists>s t c. reachable E signed_in s \<and> tasks s = [demo_waiting, demo_waiting, LoggedOut] \<and>
     accessToken (client s) = Json JNull \<and>
     (continues E)\<^sup>*\<^sup>* s t \<and> tasks t = tasks s \<and> accessToken (client t) = new_token"
proof -
  let ?s0 = "two_waiting E"
  let ?s1 = "add_task LoggingOut (?s0\<lparr>client := sent (logout_request E) (client ?s0)\<rparr>)"
  let ?s2 = "set_task 2 LoggedOut (?s1\<lparr>client := clearSession (client ?s1)\<rparr>)"
  let ?c = "(client ?s2)\<lparr>accessToken := new_token\<rparr>"
  let ?t = "?s2\<lparr>promises := [Settling (Inr new_token)], client := ?c\<rparr>"
  have "begins E ?s0 ?s1" using begins.logout [of E ?s0] by (simp add: logout_request_def)
  moreover have "continues E ?s1 ?s2" by (rule continues.logged_out) (simp_all add: two_waiting_def)
  ultimately have 1: "reachable E signed_in ?s2" using two_waiting_reachable by (meson run_steps)
  obtain r where "refresh_settled r (client ?s2) = (Inr new_token, ?c)"
  proof -
    have "canonical (JObj [(js ''access_token'', JStr (js ''new''))])"
      by (simp add: obj_put_def key_index_def js_text)
    from JSON_parse_stringify [OF this]
    have "refresh_settled (Inr \<lparr>status = 200, body_text =
        Inr (JSON_stringify (JObj [(js ''access_token'', JStr (js ''new''))])), stream = None\<rparr>) (client ?s2) =
        (Inr new_token, ?c)"
      by (simp add: refresh_settled_def ok_def res_json_def setSession_def new_token_def)
    then show thesis by (rule that)
  qed
  then have "continues E ?s2 ?t"
    using continues.refresh_answered [of 0 ?s2 r "Inr new_token" ?c E] by (simp add: two_waiting_def)
  with 1 show ?thesis
    by (intro exI [of _ ?s2] exI [of _ ?t]) (auto simp: two_waiting_def)
qed

text \<open>
  The boot of the session does not know of a login that finished while its refresh was under way:
  the refusal of the refresh takes the new session's token away and reports it as over, so that the
  provider falls back to the sign-in page.
\<close>

theorem boot_refusal_drops_login:
  assumes "onUnauthorized c" and "setSession v (sent (refresh_request E) c) = Some c1"
  shows "\<exists>s t. reachable E c s \<and> tasks s = [Booting 0] \<and> client s = c1 \<and> continues E s t \<and>
     accessToken (client t) = Json JNull \<and> notified (client t) = Suc (notified c1)"
proof -
  let ?s1 = "\<lparr>client = sent (refresh_request E) c, refreshing = Some 0, promises = [Flying], tasks = [Booting 0]\<rparr>"
  let ?s = "?s1\<lparr>client := c1\<rparr>"
  let ?t = "?s\<lparr>promises := [Settling (Inr (Json JNull))], client := notify_unauthorized (clearSession c1)\<rparr>"
  have "begins E (idle c) ?s1"
    using begins.boot [of E "idle c" 0] by (simp add: refreshAccess_def idle_def add_task_def)
  moreover have "begins E ?s1 ?s" by (rule begins.login) (use assms(2) in simp)
  ultimately have 1: "reachable E c ?s" by (meson run_steps)
  have "continues E ?s ?t"
    using continues.refresh_answered [of 0 ?s "Inr unauthorized_answer" "Inr (Json JNull)" "notify_unauthorized (clearSession c1)" E]
    by (simp add: refresh_settled_def unauthorized_answer_def ok_def)
  moreover have "onUnauthorized c1"
    using assms by (auto simp: setSession_def sent_def split: option.splits)
  ultimately show ?thesis
    using 1 by (intro exI [of _ ?s] exI [of _ ?t]) (simp add: notify_unauthorized_def clearSession_def)
qed

end
