(* ===== verification/Auth.thy ===== *)
theory Auth
  imports Api
begin

text \<open>
  \<open>AuthProvider\<close> of \<open>web/src/lib/auth-context.tsx\<close> on top of the API client, the guard of the
  application shell (\<open>app/(app)/layout.tsx\<close>), the sign-in page and the page a magic link opens.
  The provider's calls run to completion one after the other; overlapping calls of the client are
  treated in \<open>ApiConcurrency\<close>.
\<close>

section \<open>The provider\<close>

datatype auth_status = Checking | Authed | Anon

text \<open>\<open>user\<close> is \<open>JNull\<close> for \<open>null\<close>; \<open>api\<close> is the state of the API module.\<close>

record auth =
  user :: json
  auth_status :: auth_status
  api :: client

text \<open>The provider as rendered first, with its callback registered.\<close>

definition auth_start :: "client \<Rightarrow> auth" where
  "auth_start c = \<lparr>user = JNull, auth_status = Checking, api = setOnUnauthorized True c\<rparr>"

definition drop_to_anon :: "auth \<Rightarrow> auth" where
  "drop_to_anon a = a\<lparr>user := JNull, auth_status := Anon\<rparr>"

text \<open>
  The state after a call of the client: its \<open>onUnauthorized\<close> callback, if it was called, has set
  the provider's state.
\<close>

definition after_call :: "client \<Rightarrow> auth \<Rightarrow> auth" where
  "after_call c a =
     (if notified (api a) < notified c then drop_to_anon (a\<lparr>api := c\<rparr>) else a\<lparr>api := c\<rparr>)"

definition signed_in_as :: "json \<Rightarrow> auth \<Rightarrow> auth" where
  "signed_in_as u a = a\<lparr>user := u, auth_status := Authed\<rparr>"

text \<open>The boot effect; \<open>active\<close> is false when the provider was unmounted meanwhile.\<close>

definition boot :: "env \<Rightarrow> bool \<Rightarrow> auth \<Rightarrow> auth" where
  "boot E active a =
     (let anon = (\<lambda>b. if active then b\<lparr>auth_status := Anon\<rparr> else b);
          (r, c) = doRefresh E (api a);
          a1 = after_call c a
      in case r of
           Inl _ \<Rightarrow> anon a1
         | Inr token \<Rightarrow>
             if \<not> truthy token then anon a1
             else (let (r2, c2) = me E (api a1); a2 = after_call c2 a1 in
                   case r2 of
                     Inl _ \<Rightarrow> anon a2
                   | Inr u \<Rightarrow> if active then signed_in_as u a2 else a2))"

text \<open>\<open>await login(...); setUser(await api.me()); setStatus('authed')\<close>.\<close>

definition finish_login :: "env \<Rightarrow> (exn + unit) \<times> client \<Rightarrow> auth \<Rightarrow> (exn + unit) \<times> auth" where
  "finish_login E login a =
     (let (r, c) = login; a1 = after_call c a in
      case r of
        Inl e \<Rightarrow> (Inl e, a1)
      | Inr _ \<Rightarrow>
          (let (r2, c2) = me E (api a1); a2 = after_call c2 a1 in
           case r2 of Inl e \<Rightarrow> (Inl e, a2) | Inr u \<Rightarrow> (Inr (), signed_in_as u a2)))"

definition auth_google :: "env \<Rightarrow> jstring \<Rightarrow> auth \<Rightarrow> (exn + unit) \<times> auth" where
  "auth_google E code a = finish_login E (loginWithGoogle E code (api a)) a"

definition auth_magic :: "env \<Rightarrow> jstring \<Rightarrow> auth \<Rightarrow> (exn + unit) \<times> auth" where
  "auth_magic E token a = finish_login E (verifyMagicLink E token (api a)) a"

definition auth_request_link :: "env \<Rightarrow> jstring \<Rightarrow> auth \<Rightarrow> (exn + unit) \<times> auth" where
  "auth_request_link E email a = (let (r, c) = requestMagicLink E email (api a) in (r, after_call c a))"

definition auth_logout :: "env \<Rightarrow> auth \<Rightarrow> (exn + unit) \<times> auth" where
  "auth_logout E a =
     (let (r, c) = logout E (api a); a1 = after_call c a in
      case r of Inl e \<Rightarrow> (Inl e, a1) | Inr _ \<Rightarrow> (Inr (), drop_to_anon a1))"

text \<open>Any other call of the client made by the pages of the shell.\<close>

definition auth_fetch :: "env \<Rightarrow> jstring \<Rightarrow> RequestInit \<Rightarrow> auth \<Rightarrow> auth" where
  "auth_fetch E path ini a = after_call (snd (authFetch E path ini (api a))) a"

section \<open>Guards\<close>

datatype page = Shell | Blank | RedirectTo jstring

text \<open>
  \<open>AppLayout\<close>: nothing until the session is known, a redirect to the sign-in page when there is
  none; the sign-in page redirects the other way.
\<close>

definition app_layout :: "auth \<Rightarrow> page" where
  "app_layout a =
     (case auth_status a of Authed \<Rightarrow> Shell | Checking \<Rightarrow> Blank | Anon \<Rightarrow> RedirectTo (js ''/login''))"

definition login_redirect :: "auth \<Rightarrow> jstring option" where
  "login_redirect a = (if auth_status a = Authed then Some (js ''/'') else None)"

section \<open>The sign-in page\<close>

record login_page =
  login_error :: jstring
  login_loading :: bool
  ready :: bool
  email :: jstring
  link_sent :: bool
  link_sending :: bool

definition error_text :: "string \<Rightarrow> exn \<Rightarrow> jstring" where
  "error_text fallback e = (case e of ApiError _ m \<Rightarrow> m | _ \<Rightarrow> js fallback)"

text \<open>The callback of the Google popup, before and after \<open>loginWithGoogle\<close>.\<close>

definition google_started :: "login_page \<Rightarrow> login_page" where
  "google_started p = p\<lparr>login_error := [], login_loading := True\<rparr>"

definition google_settled :: "exn + unit \<Rightarrow> login_page \<Rightarrow> login_page" where
  "google_settled r p =
     (case r of
        Inr _ \<Rightarrow> p
      | Inl e \<Rightarrow> p\<lparr>login_error := error_text ''Sign-in failed'' e, login_loading := False\<rparr>)"

text \<open>Submitting the e-mail form, before and after \<open>requestMagicLink\<close>.\<close>

definition link_started :: "login_page \<Rightarrow> login_page" where
  "link_started p = p\<lparr>login_error := [], link_sending := True\<rparr>"

definition link_settled :: "exn + unit \<Rightarrow> login_page \<Rightarrow> login_page" where
  "link_settled r p =
     (case r of
        Inr _ \<Rightarrow> p\<lparr>link_sent := True\<rparr>
      | Inl e \<Rightarrow> p\<lparr>login_error := error_text ''Could not send link'' e\<rparr>)
     \<lparr>link_sending := False\<rparr>"

definition google_enabled :: "login_page \<Rightarrow> bool" where
  "google_enabled p \<longleftrightarrow> ready p \<and> \<not> login_loading p"

text \<open>The whole flow of the form on the provider.\<close>

definition submit_link :: "env \<Rightarrow> login_page \<times> auth \<Rightarrow> login_page \<times> auth" where
  "submit_link E pa =
     (let (p, a) = pa; (r, a1) = auth_request_link E (email p) a in (link_settled r (link_started p), a1))"

definition google_popup :: "env \<Rightarrow> jstring \<Rightarrow> login_page \<times> auth \<Rightarrow> login_page \<times> auth" where
  "google_popup E code pa =
     (let (p, a) = pa; (r, a1) = auth_google E code a in (google_settled r (google_started p), a1))"

section \<open>The magic-link page\<close>

text \<open>\<open>Verify\<close>: the token is used once, however often the effect runs.\<close>

record verify_page =
  verify_token :: "jstring option"
  verify_error :: bool
  started :: bool
  left_to :: "jstring option"

definition no_token :: "jstring option \<Rightarrow> bool" where
  "no_token t \<longleftrightarrow> (case t of None \<Rightarrow> True | Some s \<Rightarrow> s = [])"

definition verify_mounted :: "jstring option \<Rightarrow> verify_page" where
  "verify_mounted t = \<lparr>verify_token = t, verify_error = no_token t, started = False, left_to = None\<rparr>"

definition verify_effect :: "env \<Rightarrow> verify_page \<times> auth \<Rightarrow> verify_page \<times> auth" where
  "verify_effect E pa =
     (let (p, a) = pa in
      case verify_token p of
        None \<Rightarrow> pa
      | Some t \<Rightarrow>
          if started p \<or> no_token (verify_token p) then pa
          else (let (r, a1) = auth_magic E t a; p1 = p\<lparr>started := True\<rparr> in
                case r of
                  Inr _ \<Rightarrow> (p1\<lparr>left_to := Some (js ''/'')\<rparr>, a1)
                | Inl _ \<Rightarrow> (p1\<lparr>verify_error := True\<rparr>, a1)))"

section \<open>Properties\<close>

lemma after_call_simps [simp]:
  "api (after_call c a) = c"
  "auth_status (after_call c a) = (if notified (api a) < notified c then Anon else auth_status a)"
  "user (after_call c a) = (if notified (api a) < notified c then JNull else user a)"
  by (simp_all add: after_call_def drop_to_anon_def)

lemma signed_in_as_simps [simp]:
  "user (signed_in_as u a) = u" "auth_status (signed_in_as u a) = Authed" "api (signed_in_as u a) = api a"
  by (simp_all add: signed_in_as_def)

lemma drop_to_anon_simps [simp]:
  "user (drop_to_anon a) = JNull" "auth_status (drop_to_anon a) = Anon" "api (drop_to_anon a) = api a"
  by (simp_all add: drop_to_anon_def)

text \<open>Everything that happens to the provider.\<close>

datatype auth_op =
    Boot bool
  | Google jstring
  | Magic jstring
  | RequestLink jstring
  | Logout
  | ApiCall jstring RequestInit

fun auth_step :: "env \<Rightarrow> auth \<Rightarrow> auth_op \<Rightarrow> auth" where
  "auth_step E a (Boot active) = boot E active a"
| "auth_step E a (Google code) = snd (auth_google E code a)"
| "auth_step E a (Magic token) = snd (auth_magic E token a)"
| "auth_step E a (RequestLink addr) = snd (auth_request_link E addr a)"
| "auth_step E a Logout = snd (auth_logout E a)"
| "auth_step E a (ApiCall path ini) = auth_fetch E path ini a"

definition user_known :: "auth \<Rightarrow> bool" where
  "user_known a \<longleftrightarrow> user a = JNull \<or> auth_status a = Authed"

lemma user_known_after_call: "user_known a \<Longrightarrow> user_known (after_call c a)"
  by (auto simp: user_known_def)

lemma user_known_finish: "user_known a \<Longrightarrow> user_known (snd (finish_login E l a))"
  by (auto simp: finish_login_def case_prod_beta Let_def user_known_after_call split: sum.split)
    (simp add: user_known_def)

text \<open>A boot is the first thing that happens: there is no user yet.\<close>

lemma user_known_boot: "user a = JNull \<Longrightarrow> user_known (boot E active a)"
  by (auto simp: boot_def case_prod_beta Let_def user_known_def split: sum.split)

lemma auth_step_user:
  assumes "user_known a" and "\<And>active. e = Boot active \<Longrightarrow> user a = JNull"
  shows "user_known (auth_step E a e)"
proof (cases e)
  case (Boot active)
  with assms(2) show ?thesis by (simp add: user_known_boot)
next
  case Logout
  with assms(1) show ?thesis
    by (auto simp: auth_logout_def case_prod_beta Let_def user_known_after_call split: sum.split)
      (simp add: user_known_def)
qed (use assms(1) in \<open>simp_all add: auth_google_def auth_magic_def user_known_finish auth_request_link_def
  auth_fetch_def case_prod_beta Let_def user_known_after_call\<close>)

definition run_auth :: "env \<Rightarrow> auth \<Rightarrow> auth_op list \<Rightarrow> auth" where
  "run_auth E = foldl (auth_step E)"

fun is_boot :: "auth_op \<Rightarrow> bool" where
  "is_boot (Boot _) \<longleftrightarrow> True"
| "is_boot _ \<longleftrightarrow> False"

text \<open>
  The provider holds a user only while its status is \<open>authed\<close>: through the boot, sign-ins,
  failed refreshes in the middle of any call, and logouts, a user is never kept by a session that
  is over.
\<close>

theorem user_only_when_authed:
  assumes "\<forall>e \<in> set es. \<not> is_boot e"
  shows "user (run_auth E (auth_start c) (Boot active # es)) = JNull \<or>
     auth_status (run_auth E (auth_start c) (Boot active # es)) = Authed"
proof -
  have "user_known (foldl (auth_step E) a es)" if "user_known a" for a
    using that assms
  proof (induction es arbitrary: a)
    case (Cons e es)
    have "user_known (auth_step E a e)" by (rule auth_step_user) (use Cons.prems in auto)
    with Cons show ?case by simp
  qed simp
  moreover have "user_known (boot E active (auth_start c))" by (rule user_known_boot) (simp add: auth_start_def)
  ultimately show ?thesis by (simp add: run_auth_def user_known_def)
qed

theorem user_only_when_authed_witness:
  "user (run_auth (scripted [answer 401 '''', answer 200 '''']) (auth_start signed_in) [Boot True, Logout]) = JNull \<or>
   auth_status (run_auth (scripted [answer 401 '''', answer 200 '''']) (auth_start signed_in) [Boot True, Logout]) = Authed"
  by (rule user_only_when_authed) simp

text \<open>
  The boot ends: with a mounted provider the status is \<open>authed\<close> or \<open>anon\<close>, never still
  loading, whatever the two requests give; it is \<open>authed\<close> exactly if the refresh gave a token and
  \<open>/api/me\<close> answered, and then the shell is shown.
\<close>

theorem boot_settles:
  "auth_status (boot E True (auth_start c)) =
     (case doRefresh E (setOnUnauthorized True c) of
        (Inr token, c1) \<Rightarrow>
          if truthy token \<and> (\<exists>u. fst (me E c1) = Inr u) then Authed else Anon
      | _ \<Rightarrow> Anon) \<and>
   (app_layout (boot E True (auth_start c)) = Shell) = (auth_status (boot E True (auth_start c)) = Authed)"
proof -
  obtain r c1 where r: "doRefresh E (setOnUnauthorized True c) = (r, c1)" by fastforce
  obtain r2 c2 where r2: "me E c1 = (r2, c2)" by fastforce
  show ?thesis
    by (cases r; cases r2) (auto simp: boot_def auth_start_def r r2 app_layout_def Let_def split: auth_status.split)
qed

text \<open>
  A call whose refresh is refused ends the session: the token and the user are gone, the
  status is \<open>anon\<close>, and the shell redirects to the sign-in page.
\<close>

theorem refused_refresh_ends_session:
  assumes "onUnauthorized (api a)"
    and "network E (wire (api a)) (first_request E path ini (api a)) = Inr res" and "status res = 401"
    and "network E (wire (api a) @ [first_request E path ini (api a)]) (refresh_request E) = Inr no" and "\<not> ok no"
  shows "let a' = auth_fetch E path ini a in
     accessToken (api a') = Json JNull \<and> user a' = JNull \<and> app_layout a' = RedirectTo (js ''/login'')"
proof -
  from authFetch_denied [OF assms(2-5)] assms(1)
  show ?thesis by (simp add: auth_fetch_def Let_def app_layout_def)
qed

theorem refused_refresh_ends_session_witness:
  "let E = scripted [answer 401 '''', answer 401 ''''];
       a = \<lparr>user = JBool True, auth_status = Authed, api = signed_in\<rparr>;
       a' = auth_fetch E (js ''/api/me'') \<lparr>init_method = js ''GET'', init_headers = Map.empty, init_body = None\<rparr> a
   in user a' = JNull \<and> app_layout a' = RedirectTo (js ''/login'')"
  using refused_refresh_ends_session [of "\<lparr>user = JBool True, auth_status = Authed, api = signed_in\<rparr>"
      "scripted [answer 401 '''', answer 401 '''']" "js ''/api/me''"
      "\<lparr>init_method = js ''GET'', init_headers = Map.empty, init_body = None\<rparr>"
      "\<lparr>status = 401, body_text = Inr [], stream = None\<rparr>" "\<lparr>status = 401, body_text = Inr [], stream = None\<rparr>"]
  by (simp add: scripted_def answer_def signed_in_def ok_def Let_def)

text \<open>
  A Google sign-in either ends signed in, with the shell shown and the sign-in page left, or
  leaves an error text and the button enabled again; it cannot end with the button dead and no
  session.
\<close>

theorem google_popup_outcome:
  "let (p', a') = google_popup E code (p, a) in
     (auth_status a' = Authed \<and> app_layout a' = Shell \<and> login_redirect a' = Some (js ''/'')) \<or>
     (\<exists>e. login_error p' = error_text ''Sign-in failed'' e \<and> google_enabled p' = ready p)"
proof -
  obtain r a' where r: "auth_google E code a = (r, a')" by fastforce
  have "auth_status a' = Authed" if "r = Inr ()"
    using r that
    by (auto simp: auth_google_def finish_login_def case_prod_beta Let_def split: sum.splits)
  then show ?thesis
    by (cases r)
      (auto simp: google_popup_def r google_settled_def google_started_def google_enabled_def app_layout_def
        login_redirect_def)
qed

text \<open>
  The token of a magic link is sent at most once: running the effect again changes nothing,
  and without a token no request is made and the error is shown. The page is left exactly if it
  shows no error, and then the session is signed in.
\<close>

theorem magic_link_once:
  "verify_effect E (verify_effect E pa) = verify_effect E pa \<and>
   (no_token t \<longrightarrow> verify_effect E (verify_mounted t, a) = (verify_mounted t, a) \<and> verify_error (verify_mounted t)) \<and>
   (case verify_effect E (verify_mounted t, a) of (p', a') \<Rightarrow>
      (left_to p' = Some (js ''/'')) = (\<not> verify_error p') \<and> (\<not> verify_error p' \<longrightarrow> auth_status a' = Authed))"
proof (intro conjI)
  show "verify_effect E (verify_effect E pa) = verify_effect E pa"
    by (auto simp: verify_effect_def case_prod_beta Let_def split: option.splits sum.splits)
  show "no_token t \<longrightarrow> verify_effect E (verify_mounted t, a) = (verify_mounted t, a) \<and> verify_error (verify_mounted t)"
    by (auto simp: verify_effect_def verify_mounted_def no_token_def split: option.splits)
  have "auth_status (snd (auth_magic E s a)) = Authed" if "fst (auth_magic E s a) = Inr ()" for s
    using that by (auto simp: auth_magic_def finish_login_def case_prod_beta Let_def split: sum.splits)
  then show "case verify_effect E (verify_mounted t, a) of (p', a') \<Rightarrow>
      (left_to p' = Some (js ''/'')) = (\<not> verify_error p') \<and> (\<not> verify_error p' \<longrightarrow> auth_status a' = Authed)"
    by (auto simp: verify_effect_def verify_mounted_def no_token_def case_prod_beta Let_def
        split: option.splits sum.splits)
qed

theorem magic_link_once_witness:
  "verify_effect (scripted []) (verify_mounted None, auth_start signed_in) = (verify_mounted None, auth_start signed_in) \<and>
   verify_error (verify_mounted None)"
  using magic_link_once [of "scripted []" "(verify_mounted None, auth_start signed_in)" None "auth_start signed_in"]
  by (simp add: no_token_def)

text \<open>
  A logout whose request fails clears the token but not the provider: the status stays, the shell
  stays, and the rejection reaches a caller that does not handle it.
\<close>

theorem failed_logout_keeps_shell:
  assumes "\<And>log r. network E log r = Inl TypeError"
  shows "fst (auth_logout E a) = Inl TypeError \<and> accessToken (api (snd (auth_logout E a))) = Json JNull \<and>
     auth_status (snd (auth_logout E a)) = auth_status a \<and> app_layout (snd (auth_logout E a)) = app_layout a"
proof -
  have "fst (auth_logout E a) = Inl TypeError"
    "accessToken (api (snd (auth_logout E a))) = Json JNull"
    "auth_status (snd (auth_logout E a)) = auth_status a"
    using assms by (simp_all add: auth_logout_def logout_def fetch_def case_prod_beta Let_def)
  then show ?thesis by (simp add: app_layout_def)
qed

end
