(* ===== verification/AuthConcurrency.thy ===== *)
theory AuthConcurrency
  imports ApiConcurrency Auth
begin

text \<open>
  \<open>AuthProvider\<close> (\<open>web/src/lib/auth-context.tsx\<close>) with overlapping calls: the boot of the session,
  sign-ins and logouts are jobs that are resumed when the API call they await has settled, while
  other components make calls of their own. \<open>Auth\<close> runs the same operations one after the other;
  the last section shows that this is one schedule of the overlapping provider.
\<close>

section \<open>Jobs\<close>

text \<open>
  An asynchronous function of the provider at one of its \<open>await\<close>s, with the task of the API module
  it waits for: \<open>refreshAccess()\<close> and \<open>me()\<close> of the boot, the request and \<open>me()\<close> of a sign-in,
  \<open>logout()\<close>; or settled.
\<close>

datatype job =
    BootRefresh nat
  | BootMe nat
  | LoginCall nat
  | LoginMe nat
  | LogoutCall nat
  | Done "exn + unit"

record provider =
  net :: session
  p_user :: json
  p_status :: auth_status
  jobs :: "job list"

text \<open>What \<open>request\<close> makes of the answer to its call.\<close>

definition request_value :: "exn + response \<Rightarrow> exn + json" where
  "request_value r =
     (case r of
        Inl e \<Rightarrow> Inl e
      | Inr res \<Rightarrow>
          if \<not> ok res then Inl (ApiError (status res) (val_string (errorMessage res)))
          else if status res = 204 then Inr JNull
          else res_json res)"

definition request_init :: "jstring option \<Rightarrow> json option \<Rightarrow> RequestInit" where
  "request_init meth bod =
     \<lparr>init_method = (case meth of Some m \<Rightarrow> m | None \<Rightarrow> js ''GET''),
      init_headers = (if bod \<noteq> None then [js ''Content-Type'' \<mapsto> js ''application/json''] else Map.empty),
      init_body = map_option JSON_stringify bod\<rparr>"

definition start_me :: "env \<Rightarrow> session \<Rightarrow> session" where
  "start_me E = start_call E (js ''/api/me'') (request_init None None)"

definition start_logout :: "env \<Rightarrow> session \<Rightarrow> session" where
  "start_logout E n =
     add_task LoggingOut
       (n\<lparr>client := sent \<lparr>http_method = js ''POST'', url = API_URL E @ js ''/api/logout'', headers = Map.empty, body = None\<rparr> (client n)\<rparr>)"

text \<open>The API module has moved on; its \<open>onUnauthorized\<close> callback, if called, has set the state.\<close>

definition absorb :: "session \<Rightarrow> provider \<Rightarrow> provider" where
  "absorb n s =
     (if notified (client (net s)) < notified (client n) then s\<lparr>net := n, p_user := JNull, p_status := Anon\<rparr>
      else s\<lparr>net := n\<rparr>)"

text \<open>
  A job whose call has settled goes on to its next \<open>await\<close> or to its end; \<open>r\<close> is the result of a
  logout. \<open>None\<close>: it still waits.
\<close>

fun resume :: "env \<Rightarrow> exn + unit \<Rightarrow> job \<Rightarrow> provider \<Rightarrow> (job \<times> provider) option" where
  "resume E r (BootRefresh k) s =
     (case tasks (net s) ! k of
        Booted (Inr token) \<Rightarrow>
          if truthy token then Some (BootMe (length (tasks (net s))), s\<lparr>net := start_me E (net s)\<rparr>)
          else Some (Done (Inr ()), s\<lparr>p_status := Anon\<rparr>)
      | Booted (Inl e) \<Rightarrow> Some (Done (Inr ()), s\<lparr>p_status := Anon\<rparr>)
      | _ \<Rightarrow> None)"
| "resume E r (BootMe k) s =
     (case tasks (net s) ! k of
        Settled x \<Rightarrow>
          (case request_value x of
             Inl e \<Rightarrow> Some (Done (Inr ()), s\<lparr>p_status := Anon\<rparr>)
           | Inr u \<Rightarrow> Some (Done (Inr ()), s\<lparr>p_user := u, p_status := Authed\<rparr>))
      | _ \<Rightarrow> None)"
| "resume E r (LoginCall k) s =
     (case tasks (net s) ! k of
        Settled x \<Rightarrow>
          (case request_value x of
             Inl e \<Rightarrow> Some (Done (Inl e), s)
           | Inr v \<Rightarrow>
               (case setSession (Json v) (client (net s)) of
                  None \<Rightarrow> Some (Done (Inl TypeError), s)
                | Some c \<Rightarrow>
                    Some (LoginMe (length (tasks (net s))), s\<lparr>net := start_me E ((net s)\<lparr>client := c\<rparr>)\<rparr>)))
      | _ \<Rightarrow> None)"
| "resume E r (LoginMe k) s =
     (case tasks (net s) ! k of
        Settled x \<Rightarrow>
          (case request_value x of
             Inl e \<Rightarrow> Some (Done (Inl e), s)
           | Inr u \<Rightarrow> Some (Done (Inr ()), s\<lparr>p_user := u, p_status := Authed\<rparr>))
      | _ \<Rightarrow> None)"
| "resume E r (LogoutCall k) s =
     (case tasks (net s) ! k of
        LoggedOut \<Rightarrow>
          (case r of
             Inl e \<Rightarrow> Some (Done (Inl e), s)
           | Inr u \<Rightarrow> Some (Done (Inr ()), s\<lparr>p_user := JNull, p_status := Anon\<rparr>))
      | _ \<Rightarrow> None)"
| "resume E r (Done x) s = None"

section \<open>Steps\<close>

text \<open>The provider once mounted: its boot has called \<open>refreshAccess\<close>.\<close>

definition provider_start :: "env \<Rightarrow> client \<Rightarrow> provider" where
  "provider_start E c =
     \<lparr>net = (let (k, n) = refreshAccess E (idle (setOnUnauthorized True c)) in add_task (Booting k) n),
      p_user = JNull, p_status = Checking, jobs = [BootRefresh 0]\<rparr>"

text \<open>The user signs in or out, or a component makes a call.\<close>

inductive auth_begins :: "env \<Rightarrow> provider \<Rightarrow> provider \<Rightarrow> bool" for E where
  login:
    "path \<in> {js ''/api/google'', js ''/api/magic/verify''} \<Longrightarrow>
     auth_begins E s
       (s\<lparr>net := start_call E path (request_init (Some (js ''POST'')) (Some bod)) (net s),
          jobs := jobs s @ [LoginCall (length (tasks (net s)))]\<rparr>)"
| logout:
    "auth_begins E s (s\<lparr>net := start_logout E (net s), jobs := jobs s @ [LogoutCall (length (tasks (net s)))]\<rparr>)"
| call:
    "auth_begins E s (s\<lparr>net := start_call E path ini (net s)\<rparr>)"

text \<open>The API module goes on, or a job does.\<close>

inductive auth_continues :: "env \<Rightarrow> provider \<Rightarrow> provider \<Rightarrow> bool" for E where
  network:
    "continues E (net s) n \<Longrightarrow> auth_continues E s (absorb n s)"
| resumed:
    "i < length (jobs s) \<Longrightarrow> resume E r (jobs s ! i) s = Some (j, s') \<Longrightarrow>
     auth_continues E s (s'\<lparr>jobs := (jobs s)[i := j]\<rparr>)"

definition auth_steps :: "env \<Rightarrow> provider \<Rightarrow> provider \<Rightarrow> bool" where
  "auth_steps E s t \<longleftrightarrow> auth_begins E s t \<or> auth_continues E s t"

section \<open>Every job waits for a task of its kind\<close>

datatype kind = CallTask | BootTask | LogoutTask

fun task_kind :: "task \<Rightarrow> kind" where
  "task_kind (Booting k) = BootTask"
| "task_kind (Booted v) = BootTask"
| "task_kind LoggingOut = LogoutTask"
| "task_kind LoggedOut = LogoutTask"
| "task_kind _ = CallTask"

definition kinds :: "session \<Rightarrow> kind list" where
  "kinds n = map task_kind (tasks n)"

definition nth_kind :: "kind \<Rightarrow> nat \<Rightarrow> kind list \<Rightarrow> bool" where
  "nth_kind q k ks \<longleftrightarrow> k < length ks \<and> ks ! k = q"

fun job_fits :: "kind list \<Rightarrow> job \<Rightarrow> bool" where
  "job_fits ks (BootRefresh k) \<longleftrightarrow> nth_kind BootTask k ks"
| "job_fits ks (BootMe k) \<longleftrightarrow> nth_kind CallTask k ks"
| "job_fits ks (LoginCall k) \<longleftrightarrow> nth_kind CallTask k ks"
| "job_fits ks (LoginMe k) \<longleftrightarrow> nth_kind CallTask k ks"
| "job_fits ks (LogoutCall k) \<longleftrightarrow> nth_kind LogoutTask k ks"
| "job_fits ks (Done x) \<longleftrightarrow> True"

lemma nth_kind_append: "nth_kind q k ks \<Longrightarrow> nth_kind q k (ks @ ls)"
  by (simp add: nth_kind_def nth_append)

lemma job_fits_append: "job_fits ks j \<Longrightarrow> job_fits (ks @ ls) j"
  by (cases j) (simp_all add: nth_kind_append)

lemma nth_kind_new [simp]: "nth_kind q (length (tasks n)) (kinds n @ [q'] ) \<longleftrightarrow> q' = q"
  by (simp add: nth_kind_def kinds_def nth_append)

lemma kinds_simps [simp]:
  "kinds (add_task t n) = kinds n @ [task_kind t]" "kinds (n\<lparr>client := c\<rparr>) = kinds n"
  "kinds (start_call E path ini n) = kinds n @ [CallTask]" "kinds (start_me E n) = kinds n @ [CallTask]"
  "kinds (start_logout E n) = kinds n @ [LogoutTask]"
  by (simp_all add: kinds_def start_call_def start_me_def start_logout_def Let_def)

lemma kinds_set_task: "i < length (tasks n) \<Longrightarrow> task_kind t = task_kind (tasks n ! i) \<Longrightarrow> kinds (set_task i t n) = kinds n"
  by (simp add: kinds_def map_update list_update_same_conv)

lemma refreshAccess_tasks: "refreshAccess E s = (k, s') \<Longrightarrow> tasks s' = tasks s"
  by (auto simp: refreshAccess_def split: option.splits)

lemma continues_kinds: "continues E n n' \<Longrightarrow> kinds n' = kinds n"
proof (induction rule: continues.induct)
  case (rejected i s path ini hs res k s')
  then show ?case using refreshAccess_tasks [OF rejected(4)] by (auto simp: kinds_def map_update list_update_same_conv)
qed (auto simp: kinds_def set_task_def map_update list_update_same_conv)

section \<open>Invariant\<close>

fun booting :: "job \<Rightarrow> bool" where
  "booting (BootRefresh k) \<longleftrightarrow> True"
| "booting (BootMe k) \<longleftrightarrow> True"
| "booting _ \<longleftrightarrow> False"

text \<open>
  Jobs wait for tasks of their kind, only the first is the boot, and while the session is not known
  yet the boot is under way.
\<close>

definition auth_ok :: "provider \<Rightarrow> bool" where
  "auth_ok s \<longleftrightarrow>
     consistent (net s) \<and> list_all (job_fits (kinds (net s))) (jobs s) \<and>
     (p_status s = Checking \<longrightarrow> list_ex booting (jobs s)) \<and>
     (\<forall>i < length (jobs s). booting (jobs s ! i) \<longrightarrow> i = 0)"

fun job_weight :: "job \<Rightarrow> nat" where
  "job_weight (BootRefresh k) = 7"
| "job_weight (LoginCall k) = 7"
| "job_weight (Done x) = 0"
| "job_weight _ = 1"

definition provider_weight :: "provider \<Rightarrow> nat" where
  "provider_weight s = weight (net s) + sum_list (map job_weight (jobs s))"

lemma absorb_simps [simp]:
  "net (absorb n s) = n" "jobs (absorb n s) = jobs s"
  "p_status (absorb n s) = Checking \<longleftrightarrow> p_status s = Checking \<and> \<not> notified (client (net s)) < notified (client n)"
  by (simp_all add: absorb_def)

lemma weight_add_task: "weight (add_task t n) = weight n + task_weight t"
  by (simp add: weight_def)

lemma weight_start [simp]:
  "weight (start_call E path ini n) = weight n + 5" "weight (start_me E n) = weight n + 5"
  by (simp_all add: start_call_def start_me_def Let_def weight_add_task task_weight_def)

lemma start_steps: "steps E n (start_call E path ini n)" "steps E n (start_me E n)" "steps E n (start_logout E n)"
  using begins.logout [of E n] by (simp_all add: steps_def start_call_begins start_me_def start_logout_def)

lemmas resume_splits = task.splits sum.splits if_splits option.splits

lemma resume_job:
  assumes "resume E r j s = Some (j', s')" and "job_fits (kinds (net s)) j"
  shows "job_fits (kinds (net s')) j'" and "\<exists>ls. kinds (net s') = kinds (net s) @ ls"
    and "booting j' \<Longrightarrow> booting j" and "jobs s' = jobs s"
    and "p_status s' = Checking \<Longrightarrow> p_status s = Checking \<and> (booting j \<longrightarrow> booting j')"
    and "weight (net s') + job_weight j' < weight (net s) + job_weight j"
  using assms by (cases j; auto split: resume_splits)+

lemma resume_booting: "resume E r j s = Some (j', s') \<Longrightarrow> booting j' \<Longrightarrow> booting j"
  by (cases j) (auto split: resume_splits)

lemma resume_net:
  assumes "resume E r j s = Some (j', s')" shows "(steps E)\<^sup>*\<^sup>* (net s) (net s')"
proof (cases "net s' = net s")
  case False
  have login: "(steps E)\<^sup>*\<^sup>* n (start_me E (n\<lparr>client := c\<rparr>))" if "setSession v (client n) = Some c" for n v c
    using begins.login [OF that, of E] start_steps(2) [of E "n\<lparr>client := c\<rparr>"]
    by (meson rtranclp.rtrancl_into_rtrancl run_begins rtranclp.rtrancl_refl)
  from False assms show ?thesis
    by (cases j) (auto intro: r_into_rtranclp [of "steps E", OF start_steps(2)] login split: resume_splits)
qed simp

lemma steps_consistent: "(steps E)\<^sup>*\<^sup>* n n' \<Longrightarrow> consistent n \<Longrightarrow> consistent n'"
  by (induction rule: rtranclp_induct) (auto simp: steps_def dest: begins_consistent continues_consistent)

text \<open>The API module under the provider takes its own steps.\<close>

lemma auth_steps_net: "auth_steps E s t \<Longrightarrow> (steps E)\<^sup>*\<^sup>* (net s) (net t)"
  unfolding auth_steps_def
  by (elim disjE auth_begins.cases auth_continues.cases)
    (auto intro: start_steps resume_net r_into_rtranclp simp: steps_def)

lemma auth_ok_continues: "auth_continues E s t \<Longrightarrow> auth_ok s \<Longrightarrow> auth_ok t"
proof (induction rule: auth_continues.induct)
  case (network s n)
  then show ?case by (simp add: auth_ok_def continues_consistent continues_kinds [OF network(1)])
next
  case (resumed i s r j s')
  have fits: "job_fits (kinds (net s)) (jobs s ! i)" using resumed by (simp add: auth_ok_def list_all_length)
  note j = resume_job [OF resumed(2) fits]
  obtain ls where ls: "kinds (net s') = kinds (net s) @ ls" using j(2) by blast
  have "consistent (net s')"
    using resume_net [OF resumed(2)] resumed(3) by (auto simp: auth_ok_def intro: steps_consistent)
  moreover have "list_all (job_fits (kinds (net s'))) ((jobs s)[i := j])"
    using resumed(3) j(1) by (auto simp: auth_ok_def ls list_all_iff job_fits_append dest!: set_update_subset_insert [THEN subsetD])
  moreover have "list_ex booting ((jobs s)[i := j])" if "p_status s' = Checking"
  proof -
    from j(5) [OF that] resumed(3) have "list_ex booting (jobs s)" and keep: "booting (jobs s ! i) \<longrightarrow> booting j"
      by (auto simp: auth_ok_def)
    then obtain l where "l < length (jobs s)" "booting (jobs s ! l)" by (auto simp: list_ex_length)
    moreover from this keep have "booting ((jobs s)[i := j] ! l)" by (cases "l = i") auto
    ultimately show ?thesis by (auto simp: list_ex_length)
  qed
  moreover have "l = 0" if "l < length (jobs s)" "booting ((jobs s)[i := j] ! l)" for l
    using that resumed(3) j(3) by (cases "l = i") (auto simp: auth_ok_def)
  ultimately show ?case by (simp add: auth_ok_def)
qed

lemma auth_ok_begins: "auth_begins E s t \<Longrightarrow> auth_ok s \<Longrightarrow> auth_ok t"
proof (induction rule: auth_begins.induct)
  case (login path s bod)
  then show ?case
    using begins_consistent [OF start_call_begins, of "net s" E path]
    by (auto simp: auth_ok_def list_all_iff job_fits_append nth_append less_Suc_eq)
next
  case (logout s)
  then show ?case
    using begins_consistent [OF begins.logout, of "net s" E]
    by (auto simp: auth_ok_def list_all_iff job_fits_append nth_append less_Suc_eq start_logout_def)
next
  case (call s path ini)
  then show ?case
    using begins_consistent [OF start_call_begins, of "net s" E path]
    by (auto simp: auth_ok_def list_all_iff job_fits_append)
qed

lemma auth_ok_start: "auth_ok (provider_start E c)"
  using begins_consistent [OF begins.boot, of E "idle (setOnUnauthorized True c)"]
  by (auto simp: auth_ok_def provider_start_def refreshAccess_def idle_def consistent_def nth_kind_def kinds_def Let_def)

interpretation providers_run: transition_invariant "provider_start E c" "auth_steps E" auth_ok for E c
  by unfold_locales (auto simp: auth_steps_def auth_ok_start dest: auth_ok_begins auth_ok_continues)

section \<open>Every boot, sign-in and logout ends\<close>

definition is_done :: "job \<Rightarrow> bool" where
  "is_done j \<longleftrightarrow> (case j of Done x \<Rightarrow> True | _ \<Rightarrow> False)"

lemma auth_continues_weight: "auth_continues E s t \<Longrightarrow> auth_ok s \<Longrightarrow> provider_weight t < provider_weight s"
proof (induction rule: auth_continues.induct)
  case (network s n)
  then show ?case by (simp add: provider_weight_def continues_weight)
next
  case (resumed i s r j s')
  have "job_fits (kinds (net s)) (jobs s ! i)" using resumed by (simp add: auth_ok_def list_all_length)
  from resume_job(6) [OF resumed(2) this] sum_list_map_update [OF resumed(1), of job_weight j]
  show ?case by (simp add: provider_weight_def)
qed

interpretation provider_ends: weighted_steps "auth_continues E" auth_ok provider_weight for E
  by unfold_locales (auto intro: auth_ok_continues auth_continues_weight)

lemma nth_kind_task: "nth_kind q k (kinds n) \<longleftrightarrow> k < length (tasks n) \<and> task_kind (tasks n ! k) = q"
  by (auto simp: nth_kind_def kinds_def)

text \<open>A job whose task is finished goes on.\<close>

lemma resume_finished:
  assumes "job_fits (kinds (net s)) j" and "\<not> is_done j" and "list_all finished (tasks (net s))"
  shows "\<exists>j' s'. resume E r j s = Some (j', s')"
proof -
  have *: "finished (tasks (net s) ! k) \<and> task_kind (tasks (net s) ! k) = q" if "nth_kind q k (kinds (net s))" for q k
    using that assms(3) by (auto simp: nth_kind_task list_all_length)
  show ?thesis
    using assms(1,2) by (cases j) (auto simp: is_done_def dest!: * split: resume_splits)
qed

lemma auth_stuck:
  assumes "auth_ok s" and "\<nexists>t. auth_continues E s t"
  shows "list_all is_done (jobs s) \<and> list_all finished (tasks (net s)) \<and> p_status s \<noteq> Checking"
proof -
  have fin: "list_all finished (tasks (net s))"
    using assms continues_progress [of "net s" _ E] auth_continues.network [of E s]
    unfolding list_all_iff auth_ok_def by blast
  moreover have settled: "list_all is_done (jobs s)"
    unfolding list_all_length
  proof (intro allI impI)
    fix i
    assume i: "i < length (jobs s)"
    then have "job_fits (kinds (net s)) (jobs s ! i)" using assms(1) by (simp add: auth_ok_def list_all_length)
    then show "is_done (jobs s ! i)"
      using resume_finished [OF _ _ fin, of "jobs s ! i" E undefined] assms(2) auth_continues.resumed [OF i] by blast
  qed
  moreover have "\<not> list_ex booting (jobs s)"
  proof -
    have "\<not> booting j" if "is_done j" for j using that by (cases j) (simp_all add: is_done_def)
    with settled show ?thesis by (auto simp: list_all_iff list_ex_iff)
  qed
  ultimately show ?thesis using assms(1) by (auto simp: auth_ok_def)
qed

text \<open>
  C39: However boots, sign-ins, logouts, calls of other components and their answers overlap, what is
  under way ends: at most \<open>provider_weight\<close> answers and resumptions are left, and where none is left
  every job and every call has been settled and the session is known.
\<close>

theorem provider_settles:
  assumes "(auth_steps E)\<^sup>*\<^sup>* (provider_start E c) s"
  shows "(\<forall>n t. (auth_continues E ^^ n) s t \<longrightarrow> n \<le> provider_weight s) \<and>
     (\<forall>t. (auth_continues E)\<^sup>*\<^sup>* s t \<and> (\<nexists>u. auth_continues E t u) \<longrightarrow>
        list_all is_done (jobs t) \<and> list_all finished (tasks (net t)) \<and> p_status t \<noteq> Checking) \<and>
     (\<exists>t. (auth_continues E)\<^sup>*\<^sup>* s t \<and> (\<nexists>u. auth_continues E t u))"
proof -
  have ok: "auth_ok s" using assms by (rule providers_run.inv_reachable)
  have "n \<le> provider_weight s" if "(auth_continues E ^^ n) s t" for n t
    using provider_ends.bounded [OF that ok] by simp
  with provider_ends.ends [OF ok] show ?thesis
    using auth_stuck provider_ends.inv_steps [OF _ ok] by blast
qed

theorem provider_settles_witness:
  "\<exists>t. (auth_continues (scripted []))\<^sup>*\<^sup>* (provider_start (scripted []) signed_in) t \<and>
     list_all is_done (jobs t) \<and> p_status t \<noteq> Checking"
  using provider_settles [OF rtranclp.rtrancl_refl, of "scripted []" signed_in] by blast

section \<open>The sequential provider is one schedule\<close>

definition seen :: "provider \<Rightarrow> auth" where
  "seen s = \<lparr>user = p_user s, auth_status = p_status s, api = client (net s)\<rparr>"

lemma seen_simps [simp]:
  "user (seen s) = p_user s" "auth_status (seen s) = p_status s" "api (seen s) = client (net s)"
  by (simp_all add: seen_def)

lemma seen_updates [simp]:
  "seen (s\<lparr>p_status := x\<rparr>) = (seen s)\<lparr>auth_status := x\<rparr>" "seen (s\<lparr>p_user := u\<rparr>) = (seen s)\<lparr>user := u\<rparr>"
  "seen (s\<lparr>jobs := l\<rparr>) = seen s"
  by (simp_all add: seen_def)

lemma seen_eqI: "user a = p_user s \<Longrightarrow> auth_status a = p_status s \<Longrightarrow> api a = client (net s) \<Longrightarrow> seen s = a"
  by (simp add: seen_def)

lemma seen_absorb: "client (net s) = c \<Longrightarrow> notified c = notified (api a) \<Longrightarrow> user a = p_user s \<Longrightarrow> auth_status a = p_status s \<Longrightarrow>
   seen (absorb n s) = after_call (client n) a"
  by (rule seen_eqI) (auto simp: absorb_def)

lemma request_split:
  "request E path meth bod st =
     (let (r, st1) = authFetch E path (request_init meth bod) st in (request_value r, st1))"
  by (simp add: request_def request_init_def request_value_def Let_def case_prod_beta)

lemma continues_notified: "continues E n n' \<Longrightarrow> notified (client n) \<le> notified (client n')"
proof (induction rule: continues.induct)
  case (rejected i s path ini hs res k s')
  then show ?case by (auto simp: refreshAccess_def sent_def split: option.splits)
next
  case (refresh_answered k s r v c)
  then show ?case
    by (auto simp: refresh_settled_def notify_unauthorized_def clearSession_def setSession_def
        split: sum.splits if_splits option.splits)
qed (simp_all add: sent_def clearSession_def)

lemma absorb_run:
  "(continues E)\<^sup>*\<^sup>* (net s) n \<Longrightarrow> (auth_continues E)\<^sup>*\<^sup>* s (absorb n s) \<and> notified (client (net s)) \<le> notified (client n)"
proof (induction rule: rtranclp_induct)
  case base
  then show ?case by (simp add: absorb_def)
next
  case (step n n')
  have "absorb n' (absorb n s) = absorb n' s"
    using step continues_notified [OF step(2)] by (simp add: absorb_def)
  with auth_continues.network [of E "absorb n s" n'] step continues_notified [OF step(2)] show ?case
    by (auto intro: rtranclp.rtrancl_into_rtrancl)
qed

lemma notified_start [simp]:
  "notified (client (start_call E path ini n)) = notified (client n)" "notified (client (start_me E n)) = notified (client n)"
  by (simp_all add: start_call_def start_me_def Let_def sent_def)

text \<open>A call that a job awaits, made while no refresh is under way and answered before anything else.\<close>

lemma call_alone:
  assumes "refreshing n = None" and "net s = start_call E path ini n"
  shows "\<exists>n'. (auth_continues E)\<^sup>*\<^sup>* s (absorb n' s) \<and> client n' = snd (authFetch E path ini (client n)) \<and>
     tasks n' ! length (tasks n) = Settled (fst (authFetch E path ini (client n))) \<and>
     length (tasks n') = Suc (length (tasks n)) \<and> refreshing n' = None"
proof -
  obtain n' where n': "(continues E)\<^sup>*\<^sup>* (net s) n'" "client n' = snd (authFetch E path ini (client n))"
      "tasks n' = tasks n @ [Settled (fst (authFetch E path ini (client n)))]" "refreshing n' = None"
    using authFetch_run [OF assms(1), of E path ini] unfolding assms(2) [symmetric] by blast
  with absorb_run [OF n'(1)] show ?thesis by (intro exI [of _ n']) simp
qed

text \<open>The end that boot and sign-in share: \<open>me()\<close> for the job at index \<open>i\<close>.\<close>

lemma me_alone:
  assumes "refreshing n = None" and "net s = start_me E n" and "i < length (jobs s)"
    and "jobs s ! i = BootMe (length (tasks n)) \<or> jobs s ! i = LoginMe (length (tasks n))"
    and "user a = p_user s" and "auth_status a = p_status s" and "notified (api a) = notified (client n)"
  shows "\<exists>t. (auth_continues E)\<^sup>*\<^sup>* s t \<and> refreshing (net t) = None \<and>
     (let (r, c) = me E (client n); a' = after_call c a in
      case r of
        Inr u \<Rightarrow> seen t = signed_in_as u a' \<and> jobs t = (jobs s)[i := Done (Inr ())]
      | Inl e \<Rightarrow>
          (case jobs s ! i of
             BootMe k \<Rightarrow> seen t = a'\<lparr>auth_status := Anon\<rparr> \<and> jobs t = (jobs s)[i := Done (Inr ())]
           | _ \<Rightarrow> seen t = a' \<and> jobs t = (jobs s)[i := Done (Inl e)]))"
proof -
  let ?f = "authFetch E (js ''/api/me'') (request_init None None) (client n)"
  obtain n' where n': "(auth_continues E)\<^sup>*\<^sup>* s (absorb n' s)" "client n' = snd ?f"
      "tasks n' ! length (tasks n) = Settled (fst ?f)" "refreshing n' = None"
    using call_alone [OF assms(1) assms(2) [unfolded start_me_def]] by blast
  have me: "me E (client n) = (request_value (fst ?f), snd ?f)"
    by (simp add: me_def request_split case_prod_beta)
  have seen: "seen (absorb n' s) = after_call (snd ?f) a"
    using assms n'(2) by (subst seen_absorb [of s "client (net s)" a]) (simp_all)
  obtain j s' where j: "resume E (Inr ()) (jobs s ! i) (absorb n' s) = Some (j, s')"
    and s': "case request_value (fst ?f) of
        Inr u \<Rightarrow> s' = (absorb n' s)\<lparr>p_user := u, p_status := Authed\<rparr> \<and> j = Done (Inr ())
      | Inl e \<Rightarrow> (case jobs s ! i of BootMe k \<Rightarrow> s' = (absorb n' s)\<lparr>p_status := Anon\<rparr> \<and> j = Done (Inr ())
                  | _ \<Rightarrow> s' = absorb n' s \<and> j = Done (Inl e))"
    using assms(4) n'(3) by (cases "request_value (fst ?f)") auto
  have "auth_continues E (absorb n' s) (s'\<lparr>jobs := (jobs s)[i := j]\<rparr>)"
    using auth_continues.resumed [of i "absorb n' s" E "Inr ()" j s'] assms(3) j by simp
  then have "(auth_continues E)\<^sup>*\<^sup>* s (s'\<lparr>jobs := (jobs s)[i := j]\<rparr>)"
    using n'(1) by (rule rtranclp.rtrancl_into_rtrancl [rotated])
  moreover have "refreshing (net s') = None"
    using s' n'(4) assms(4) by (auto split: sum.splits)
  ultimately show ?thesis
    using s' seen assms(4) unfolding me
    by (intro exI [of _ "s'\<lparr>jobs := (jobs s)[i := j]\<rparr>"])
      (auto simp: Let_def signed_in_as_def split: sum.splits)
qed

lemma continues_steps: "(auth_continues E)\<^sup>*\<^sup>* s t \<Longrightarrow> (auth_steps E)\<^sup>*\<^sup>* s t"
  by (rule rtranclp_mono [THEN predicate2D, rotated]) (auto simp: auth_steps_def)

lemma begin_then: "auth_begins E s u \<Longrightarrow> (auth_continues E)\<^sup>*\<^sup>* u t \<Longrightarrow> (auth_steps E)\<^sup>*\<^sup>* s t"
  by (meson auth_steps_def continues_steps converse_rtranclp_into_rtranclp)

lemma setSession_notified: "setSession v c = Some c' \<Longrightarrow> notified c' = notified c"
  by (auto simp: setSession_def split: option.splits)

text \<open>A sign-in up to the answer to its request.\<close>

lemma login_called:
  assumes "path \<in> {js ''/api/google'', js ''/api/magic/verify''}" and "refreshing (net s) = None"
    and "f = authFetch E path (request_init (Some (js ''POST'')) (Some bod)) (client (net s))"
    and "k = length (tasks (net s))"
  shows "\<exists>u. refreshing (net u) = None \<and> client (net u) = snd f \<and> tasks (net u) ! k = Settled (fst f) \<and>
     seen u = after_call (snd f) (seen s) \<and> jobs u = jobs s @ [LoginCall k] \<and>
     (\<forall>j s'. resume E (Inr ()) (LoginCall k) u = Some (j, s') \<longrightarrow> (auth_steps E)\<^sup>*\<^sup>* s (s'\<lparr>jobs := jobs s @ [j]\<rparr>))"
proof -
  let ?ini = "request_init (Some (js ''POST'')) (Some bod)"
  let ?s1 = "s\<lparr>net := start_call E path ?ini (net s), jobs := jobs s @ [LoginCall k]\<rparr>"
  have starts: "auth_begins E s ?s1" using auth_begins.login [OF assms(1), of E s bod] assms(4) by simp
  obtain n where n: "(auth_continues E)\<^sup>*\<^sup>* ?s1 (absorb n ?s1)" "client n = snd f" "tasks n ! k = Settled (fst f)"
      "refreshing n = None"
    using call_alone [OF assms(2), of ?s1 E path ?ini] assms(3,4) by auto
  let ?u = "absorb n ?s1"
  have "seen ?u = after_call (snd f) (seen s)"
    using n(2) by (subst seen_absorb [of ?s1 "client (net ?s1)" "seen s"]) simp_all
  moreover have "(auth_steps E)\<^sup>*\<^sup>* s (s'\<lparr>jobs := jobs s @ [j]\<rparr>)"
    if "resume E (Inr ()) (LoginCall k) ?u = Some (j, s')" for j s'
  proof -
    have "auth_continues E ?u (s'\<lparr>jobs := (jobs ?u)[length (jobs s) := j]\<rparr>)"
      using that by (intro auth_continues.resumed) simp_all
    with starts n(1) show ?thesis by (simp, meson begin_then rtranclp.rtrancl_into_rtrancl)
  qed
  ultimately show ?thesis using n by (intro exI [of _ ?u]) simp
qed

lemma login_alone:
  assumes "path \<in> {js ''/api/google'', js ''/api/magic/verify''}" and "refreshing (net s) = None"
  shows "\<exists>t. (auth_steps E)\<^sup>*\<^sup>* s t \<and> refreshing (net t) = None \<and>
     (let (r, a') = finish_login E (login_request E path bod (client (net s))) (seen s) in
      seen t = a' \<and> jobs t = jobs s @ [Done r])"
proof -
  let ?n = "net s" and ?i = "length (jobs s)"
  let ?f = "authFetch E path (request_init (Some (js ''POST'')) (Some bod)) (client ?n)"
  obtain u where u: "refreshing (net u) = None" "client (net u) = snd ?f"
      "tasks (net u) ! length (tasks ?n) = Settled (fst ?f)" "seen u = after_call (snd ?f) (seen s)"
      "jobs u = jobs s @ [LoginCall (length (tasks ?n))]"
    and last: "\<And>j s'. resume E (Inr ()) (LoginCall (length (tasks ?n))) u = Some (j, s') \<Longrightarrow>
      (auth_steps E)\<^sup>*\<^sup>* s (s'\<lparr>jobs := jobs s @ [j]\<rparr>)"
    using login_called [OF assms refl refl] by blast
  have req: "login_request E path bod (client ?n) =
      (case request_value (fst ?f) of
         Inl e \<Rightarrow> (Inl e, snd ?f)
       | Inr v \<Rightarrow> (case setSession (Json v) (snd ?f) of None \<Rightarrow> (Inl TypeError, snd ?f) | Some c \<Rightarrow> (Inr (), c)))"
    by (simp add: login_request_def request_split case_prod_beta Let_def split: sum.split)
  consider e where "request_value (fst ?f) = Inl e"
    | v where "request_value (fst ?f) = Inr v" "setSession (Json v) (snd ?f) = None"
    | v c where "request_value (fst ?f) = Inr v" "setSession (Json v) (snd ?f) = Some c"
    by (cases "request_value (fst ?f)") fastforce+
  then show ?thesis
  proof cases
    case 1
    with last [of "Done (Inl e)" u] u show ?thesis
      by (intro exI [of _ "u\<lparr>jobs := jobs s @ [Done (Inl e)]\<rparr>"]) (simp add: req finish_login_def)
  next
    case 2
    with last [of "Done (Inl TypeError)" u] u show ?thesis
      by (intro exI [of _ "u\<lparr>jobs := jobs s @ [Done (Inl TypeError)]\<rparr>"]) (simp add: req finish_login_def)
  next
    case 3
    let ?m = "(net u)\<lparr>client := c\<rparr>" and ?a = "after_call c (seen s)"
    let ?s3 = "u\<lparr>net := start_me E ?m, jobs := jobs s @ [LoginMe (length (tasks ?m))]\<rparr>"
    have s3: "(auth_steps E)\<^sup>*\<^sup>* s ?s3"
      using 3 u last [of "LoginMe (length (tasks ?m))" "u\<lparr>net := start_me E ?m\<rparr>"] by simp
    have a: "user ?a = p_user ?s3" "auth_status ?a = p_status ?s3"
      using arg_cong [OF u(4), of user] arg_cong [OF u(4), of auth_status] setSession_notified [OF 3(2)] by simp_all
    obtain t where t: "(auth_continues E)\<^sup>*\<^sup>* ?s3 t" "refreshing (net t) = None"
        "let (r, c') = me E c; a' = after_call c' ?a in
         case r of
           Inr u \<Rightarrow> seen t = signed_in_as u a' \<and> jobs t = jobs s @ [Done (Inr ())]
         | Inl e \<Rightarrow> seen t = a' \<and> jobs t = jobs s @ [Done (Inl e)]"
      using me_alone [OF _ _ _ _ a, of ?m E ?i] u(1)
      by (auto simp: Let_def split: sum.splits prod.splits)
    then have "(auth_steps E)\<^sup>*\<^sup>* s t" using s3 by (meson continues_steps rtranclp_trans)
    with t 3 show ?thesis
      by (intro exI [of _ t]) (auto simp: req finish_login_def Let_def case_prod_beta split: sum.splits)
  qed
qed

lemma logout_alone:
  assumes "refreshing (net s) = None"
  shows "\<exists>t. (auth_steps E)\<^sup>*\<^sup>* s t \<and> refreshing (net t) = None \<and>
     (let (r, a') = auth_logout E (seen s) in seen t = a' \<and> jobs t = jobs s @ [Done r])"
proof -
  let ?n = "net s" and ?i = "length (jobs s)" and ?k = "length (tasks (net s))"
  let ?s1 = "s\<lparr>net := start_logout E ?n, jobs := jobs s @ [LogoutCall ?k]\<rparr>"
  obtain r c where l: "logout E (client ?n) = (r, c)" by fastforce
  let ?m = "set_task ?k LoggedOut ((start_logout E ?n)\<lparr>client := clearSession (client (start_logout E ?n))\<rparr>)"
  have c: "c = client ?m" and same: "notified c = notified (client ?n)"
    using l by (auto simp: logout_def fetch_def Let_def start_logout_def sent_def clearSession_def)
  have "continues E (net ?s1) ?m" by (simp, rule continues.logged_out) (simp_all add: start_logout_def)
  then have go: "auth_continues E ?s1 (absorb ?m ?s1)" by (rule auth_continues.network)
  let ?s2 = "s\<lparr>net := ?m, jobs := jobs s @ [LogoutCall ?k]\<rparr>"
  have absorb: "absorb ?m ?s1 = ?s2"
    using same unfolding c by (simp add: absorb_def start_logout_def sent_def)
  have logged: "tasks ?m ! ?k = LoggedOut" by (simp add: start_logout_def)
  have job: "jobs ?s2 ! ?i = LogoutCall ?k" "?i < length (jobs ?s2)" by simp_all
  have last: "(auth_steps E)\<^sup>*\<^sup>* s (s'\<lparr>jobs := (jobs ?s2)[?i := j]\<rparr>)"
    if "resume E r (LogoutCall ?k) ?s2 = Some (j, s')" for j s'
    using that auth_continues.resumed [OF job(2), of E r j s'] go auth_begins.logout [of E s] unfolding job(1) absorb
    by (meson begin_then rtranclp.rtrancl_into_rtrancl r_into_rtranclp)
  have seen2: "seen ?s2 = after_call c (seen s)"
    using same c by (intro seen_eqI) simp_all
  have idle: "refreshing ?m = None" using assms by (simp add: start_logout_def)
  show ?thesis
  proof (cases r)
    case (Inl e)
    with last [of "Done (Inl e)" ?s2] logged idle seen2 l show ?thesis
      by (intro exI [of _ "?s2\<lparr>jobs := (jobs ?s2)[?i := Done (Inl e)]\<rparr>"]) (simp add: auth_logout_def)
  next
    case (Inr u)
    let ?t = "?s2\<lparr>p_user := JNull, p_status := Anon\<rparr>"
    from Inr last [of "Done (Inr ())" ?t] logged idle seen2 l show ?thesis
      by (intro exI [of _ "?t\<lparr>jobs := (jobs ?s2)[?i := Done (Inr ())]\<rparr>"]) (simp add: auth_logout_def drop_to_anon_def)
  qed
qed

lemma fetch_alone:
  assumes "refreshing (net s) = None"
  shows "\<exists>t. (auth_steps E)\<^sup>*\<^sup>* s t \<and> refreshing (net t) = None \<and> seen t = auth_fetch E path ini (seen s) \<and> jobs t = jobs s"
proof -
  let ?s1 = "s\<lparr>net := start_call E path ini (net s)\<rparr>"
  obtain n where n: "(auth_continues E)\<^sup>*\<^sup>* ?s1 (absorb n ?s1)"
      "client n = snd (authFetch E path ini (client (net s)))" "refreshing n = None"
    using call_alone [OF assms, of ?s1 E path ini] by auto
  have "seen (absorb n ?s1) = auth_fetch E path ini (seen s)"
    using n(2) by (subst seen_absorb [of ?s1 "client (net ?s1)" "seen s"]) (simp_all add: auth_fetch_def)
  with n begin_then [OF auth_begins.call n(1)] show ?thesis by (intro exI [of _ "absorb n ?s1"]) simp
qed

lemma request_link_fetch:
  "snd (auth_request_link E addr a) =
     auth_fetch E (js ''/api/magic/request'') (request_init (Some (js ''POST'')) (Some (JObj [(js ''email'', JStr addr)]))) a"
  by (simp add: auth_request_link_def requestMagicLink_def request_void_def request_split auth_fetch_def case_prod_beta Let_def)

text \<open>The refresh of the boot, answered.\<close>

lemma boot_refresh_run:
  assumes "tasks n = Booting 0 # ts" and "promises n = [Flying]" and "refresh_settled r (client n) = (v, c)"
  shows "(continues E)\<^sup>*\<^sup>* n (n\<lparr>client := c, promises := [Resolved v], refreshing := None, tasks := Booted v # ts\<rparr>)"
proof -
  let ?n1 = "n\<lparr>client := c, promises := [Settling v]\<rparr>"
  let ?n2 = "n\<lparr>client := c, promises := [Resolved v], refreshing := None\<rparr>"
  have order: "n\<lparr>promises := [Settling v], client := c\<rparr> = ?n1" by (cases n) simp
  have "continues E n ?n1" using continues.refresh_answered [of 0 n r v c E] assms by (simp add: order)
  moreover have "continues E ?n1 ?n2" using continues.finally_resets [of 0 ?n1 v E] by simp
  moreover have "continues E ?n2 (?n2\<lparr>tasks := Booted v # ts\<rparr>)"
    using continues.booted [of 0 ?n2 0 v E] assms by (simp add: set_task_def)
  ultimately show ?thesis by (meson rtranclp.rtrancl_into_rtrancl rtranclp.rtrancl_refl)
qed

lemma boot_alone:
  "\<exists>t. (auth_continues E)\<^sup>*\<^sup>* (provider_start E c) t \<and> refreshing (net t) = None \<and>
     seen t = boot E True (auth_start c) \<and> list_all is_done (jobs t)"
proof -
  let ?c = "setOnUnauthorized True c" and ?s = "provider_start E c"
  obtain v c1 where d: "doRefresh E ?c = (v, c1)" by fastforce
  let ?n = "\<lambda>cl w p ts. \<lparr>client = cl, refreshing = w, promises = [p], tasks = ts\<rparr>"
  let ?d = "sent (refresh_request E) ?c"
  have start: "net ?s = ?n ?d (Some 0) Flying [Booting 0]" "p_user ?s = JNull" "p_status ?s = Checking" "jobs ?s = [BootRefresh 0]"
    by (simp_all add: provider_start_def refreshAccess_def idle_def add_task_def)
  let ?m = "?n c1 None (Resolved v) [Booted v]"
  have "refresh_settled (network E (wire ?c) (refresh_request E)) (client (net ?s)) = (v, c1)"
    using d unfolding start by (simp add: doRefresh_alt sent_def)
  then have "(continues E)\<^sup>*\<^sup>* (net ?s) ?m"
    using boot_refresh_run [of "net ?s" "[]" _ v c1 E] by (simp add: start)
  from absorb_run [OF this] have run: "(auth_continues E)\<^sup>*\<^sup>* ?s (absorb ?m ?s)" ..
  let ?s2 = "absorb ?m ?s" and ?a1 = "after_call c1 (auth_start c)"
  have s2: "seen ?s2 = ?a1"
    using start by (subst seen_absorb [of ?s ?d "auth_start c"]) (simp_all add: auth_start_def sent_def)
  have last: "(auth_continues E)\<^sup>*\<^sup>* ?s (s'\<lparr>jobs := [j]\<rparr>)" if "resume E (Inr ()) (BootRefresh 0) ?s2 = Some (j, s')" for j s'
    using that auth_continues.resumed [of 0 ?s2 E "Inr ()" j s'] run start
    by (auto intro: rtranclp.rtrancl_into_rtrancl)
  show ?thesis
  proof (cases "\<exists>token. v = Inr token \<and> truthy token")
    case False
    then have "resume E (Inr ()) (BootRefresh 0) ?s2 = Some (Done (Inr ()), ?s2\<lparr>p_status := Anon\<rparr>)"
      by (cases v) simp_all
    from last [OF this] False d s2 show ?thesis
      by (intro exI [of _ "?s2\<lparr>p_status := Anon, jobs := [Done (Inr ())]\<rparr>"])
        (auto simp: boot_def auth_start_def is_done_def Let_def split: sum.split)
  next
    case True
    let ?s3 = "?s2\<lparr>net := start_me E ?m, jobs := [BootMe 1]\<rparr>"
    from True have "resume E (Inr ()) (BootRefresh 0) ?s2 = Some (BootMe 1, ?s2\<lparr>net := start_me E ?m\<rparr>)" by auto
    from last [OF this] have s3: "(auth_continues E)\<^sup>*\<^sup>* ?s ?s3" .
    have a: "user ?a1 = p_user ?s3" "auth_status ?a1 = p_status ?s3"
      using arg_cong [OF s2, of user] arg_cong [OF s2, of auth_status] by simp_all
    obtain t where t: "(auth_continues E)\<^sup>*\<^sup>* ?s3 t" "refreshing (net t) = None"
        "let (r, c') = me E c1; a' = after_call c' ?a1 in
         case r of Inr u \<Rightarrow> seen t = signed_in_as u a' \<and> jobs t = [Done (Inr ())]
                 | Inl e \<Rightarrow> seen t = a'\<lparr>auth_status := Anon\<rparr> \<and> jobs t = [Done (Inr ())]"
      using me_alone [OF _ _ _ _ a, of ?m E 0] by (auto simp: Let_def split: sum.splits prod.splits)
    then have "(auth_continues E)\<^sup>*\<^sup>* ?s t" using s3 by (meson rtranclp_trans)
    with t d True show ?thesis
      by (intro exI [of _ t])
        (auto simp: boot_def auth_start_def is_done_def Let_def case_prod_beta split: sum.splits)
  qed
qed


definition known_user :: provider where
  "known_user = \<lparr>net = idle signed_in, p_user = JObj [], p_status = Authed, jobs = []\<rparr>"


section \<open>A user only with a session\<close>

text \<open>Runs in which no sign-in or logout starts before the boot of the page has ended.\<close>

definition orderly_steps :: "env \<Rightarrow> provider \<Rightarrow> provider \<Rightarrow> bool" where
  "orderly_steps E s t \<longleftrightarrow>
     auth_steps E s t \<and> (list_ex booting (jobs s) \<longrightarrow> length (jobs t) = length (jobs s))"

definition user_ok :: "provider \<Rightarrow> bool" where
  "user_ok s \<longleftrightarrow>
     (p_user s = JNull \<or> p_status s = Authed) \<and>
     (list_ex booting (jobs s) \<longrightarrow> p_user s = JNull \<and> length (jobs s) = 1)"

lemma user_ok_resume:
  assumes "resume E r j s = Some (j', s')" and "p_user s = JNull \<or> p_status s = Authed" and "booting j \<longrightarrow> p_user s = JNull"
  shows "(p_user s' = JNull \<or> p_status s' = Authed) \<and> (booting j' \<longrightarrow> p_user s' = JNull)"
  using assms by (cases j) (auto split: resume_splits)

lemma user_ok_step:
  assumes "user_ok s" and "orderly_steps E s t" shows "user_ok t"
proof -
  have "user_ok t" if "auth_continues E s t"
    using that assms(1)
  proof (induction rule: auth_continues.induct)
    case (network s n)
    then show ?case by (auto simp: user_ok_def absorb_def)
  next
    case (resumed i s r j s')
    then have "booting (jobs s ! i) \<longrightarrow> p_user s = JNull" by (auto simp: user_ok_def list_ex_length)
    note u = user_ok_resume [OF resumed(2) _ this]
    show ?case
    proof (cases "list_ex booting (jobs s)")
      case True
      with resumed obtain b where "jobs s = [b]" "i = 0" by (auto simp: user_ok_def length_Suc_conv)
      with u resumed show ?thesis by (auto simp: user_ok_def)
    next
      case False
      with resumed have "\<not> booting (jobs s ! i)" "\<not> booting j"
        using resume_booting [OF resumed(2)] by (auto simp: list_ex_length)
      with False have "\<not> list_ex booting ((jobs s)[i := j])"
        by (auto simp: list_ex_iff dest!: set_update_subset_insert [THEN subsetD])
      with u resumed show ?thesis by (auto simp: user_ok_def)
    qed
  qed
  moreover have "user_ok t" if "auth_begins E s t"
    using that assms by (cases rule: auth_begins.cases) (auto simp: user_ok_def orderly_steps_def)
  ultimately show ?thesis using assms(2) by (auto simp: orderly_steps_def auth_steps_def)
qed

interpretation users: transition_invariant "provider_start E c" "orderly_steps E" user_ok for E c
  by unfold_locales (simp add: user_ok_def provider_start_def, rule user_ok_step)

text \<open>
  C30: The provider holds a user only while its status is \<open>authed\<close>: however sign-ins, refused refreshes,
  logouts and other calls overlap once the boot has ended, and through the boot, a user is never
  kept by a session that is over.
\<close>

theorem user_only_with_session:
  "(orderly_steps E)\<^sup>*\<^sup>* (provider_start E c) s \<Longrightarrow> p_user s = JNull \<or> p_status s = Authed"
  using users.inv_reachable [of E c s] by (simp add: user_ok_def)

definition token_answer :: "exn + response" where
  "token_answer = answer 200 (''{'' @ [CHR 0x22] @ ''access_token'' @ [CHR 0x22] @ '':'' @ [CHR 0x22] @ ''t'' @ [CHR 0x22] @ ''}'')"

lemma token_answer:
  "request_value token_answer = Inr (JObj [(js ''access_token'', JStr (js ''t''))])"
  "\<not> unauthorized token_answer"
  "request_value (answer 200 ''{}'') = Inr (JObj [])" "\<not> unauthorized (answer 200 ''{}'')"
  by code_simp+

definition boot_net :: env where
  "boot_net = scripted [token_answer, answer 200 ''{}'']"

lemma orderly_continues: "(auth_continues E)\<^sup>*\<^sup>* s t \<Longrightarrow> (orderly_steps E)\<^sup>*\<^sup>* s t"
proof (induction rule: rtranclp_induct)
  case (step t u)
  have "length (jobs u) = length (jobs t)"
    using step(2) by (cases rule: auth_continues.cases) auto
  with step show ?case by (auto simp: orderly_steps_def auth_steps_def intro: rtranclp.rtrancl_into_rtrancl)
qed simp

theorem user_only_with_session_witness:
  "\<exists>t. (orderly_steps boot_net)\<^sup>*\<^sup>* (provider_start boot_net signed_in) t \<and> p_user t = JObj [] \<and> p_status t = Authed"
proof -
  obtain t where t: "(auth_continues boot_net)\<^sup>*\<^sup>* (provider_start boot_net signed_in) t"
      "seen t = boot boot_net True (auth_start signed_in)"
    using boot_alone by blast
  have "user (seen t) = JObj []" unfolding t(2) by code_simp
  then have "p_user t = JObj []" by simp
  with user_only_with_session [OF orderly_continues [OF t(1)]] orderly_continues [OF t(1)] show ?thesis by auto
qed

text \<open>
  Without that condition it fails: a sign-in may finish while the refresh of the boot is still under
  way, and when that refresh then fails on the network, the boot sets the status to \<open>anon\<close> although
  the user and a valid token are there.
\<close>

definition answered :: "nat \<Rightarrow> exn + response \<Rightarrow> provider \<Rightarrow> provider" where
  "answered i r s = s\<lparr>net := set_task i (Settled r) (net s)\<rparr>"

lemma answered_continues:
  "i < length (tasks (net s)) \<Longrightarrow> tasks (net s) ! i = Sent path ini hs \<Longrightarrow> \<not> unauthorized r \<Longrightarrow>
   auth_continues E s (answered i r s)"
  using auth_continues.network [of E s, OF continues.answered [of i "net s" path ini hs r]]
  by (simp add: answered_def absorb_def)

lemma start_call_tasks [simp]:
  "\<exists>hs. tasks (start_call E path ini n) = tasks n @ [Sent path ini hs]"
  "promises (start_call E path ini n) = promises n" "accessToken (client (start_call E path ini n)) = accessToken (client n)"
  by (simp_all add: start_call_def Let_def sent_def)

lemma boot_failure_run:
  assumes "jobs s = BootRefresh 0 # rest" and "tasks (net s) = Booting 0 # ts" and "promises (net s) = [Flying]"
  shows "\<exists>t. (auth_continues E)\<^sup>*\<^sup>* s t \<and> p_status t = Anon \<and> p_user t = p_user s \<and> client (net t) = client (net s)"
proof -
  let ?v = "Inl TypeError :: exn + jsval"
  let ?n3 = "(net s)\<lparr>promises := [Resolved ?v], refreshing := None, tasks := Booted ?v # ts\<rparr>"
  have "(continues E)\<^sup>*\<^sup>* (net s) ?n3"
    using boot_refresh_run [of "net s" ts "Inl TypeError" ?v "client (net s)" E] assms by (simp add: refresh_settled_def)
  then have "(auth_continues E)\<^sup>*\<^sup>* s (s\<lparr>net := ?n3\<rparr>)"
    using absorb_run [of E s ?n3] by (simp add: absorb_def)
  moreover have "auth_continues E (s\<lparr>net := ?n3\<rparr>) (s\<lparr>net := ?n3, p_status := Anon, jobs := Done (Inr ()) # rest\<rparr>)"
    using auth_continues.resumed [of 0 "s\<lparr>net := ?n3\<rparr>" E "Inr ()" "Done (Inr ())" "s\<lparr>net := ?n3, p_status := Anon\<rparr>"] assms
    by simp
  ultimately show ?thesis
    by (intro exI [of _ "s\<lparr>net := ?n3, p_status := Anon, jobs := Done (Inr ()) # rest\<rparr>"]) auto
qed

theorem late_boot_failure_hides_session:
  "\<exists>s t. (auth_steps E)\<^sup>*\<^sup>* (provider_start E c) s \<and> p_status s = Authed \<and> p_user s \<noteq> JNull \<and>
     (auth_continues E)\<^sup>*\<^sup>* s t \<and> p_status t = Anon \<and> p_user t = p_user s \<and>
     accessToken (client (net t)) = Json (JStr (js ''t''))"
proof -
  let ?path = "js ''/api/google''" and ?ini = "request_init (Some (js ''POST'')) (Some JNull)"
  define s where "s = provider_start E c"
  have s: "tasks (net s) = [Booting 0]" "promises (net s) = [Flying]" "jobs s = [BootRefresh 0]"
    by (simp_all add: s_def provider_start_def refreshAccess_def idle_def add_task_def)
  define s1 where "s1 = s\<lparr>net := start_call E ?path ?ini (net s), jobs := [BootRefresh 0, LoginCall 1]\<rparr>"
  obtain hs where s1: "tasks (net s1) = [Booting 0, Sent ?path ?ini hs]" "promises (net s1) = [Flying]"
      "jobs s1 = [BootRefresh 0, LoginCall 1]"
    using start_call_tasks(1) [of E ?path ?ini "net s"] s by (auto simp: s1_def)
  define s2 where "s2 = answered 1 token_answer s1"
  have s2: "tasks (net s2) = [Booting 0, Settled token_answer]" "promises (net s2) = [Flying]" "jobs s2 = [BootRefresh 0, LoginCall 1]"
    using s1 by (simp_all add: s2_def answered_def set_task_def)
  define c2 where "c2 = (client (net s2))\<lparr>accessToken := Json (JStr (js ''t''))\<rparr>"
  define s3 where "s3 = s2\<lparr>net := start_me E ((net s2)\<lparr>client := c2\<rparr>), jobs := [BootRefresh 0, LoginMe 2]\<rparr>"
  obtain hs' where s3: "tasks (net s3) = [Booting 0, Settled token_answer, Sent (js ''/api/me'') (request_init None None) hs']"
      "promises (net s3) = [Flying]" "jobs s3 = [BootRefresh 0, LoginMe 2]" "accessToken (client (net s3)) = Json (JStr (js ''t''))"
    using start_call_tasks(1) [of E "js ''/api/me''" "request_init None None" "(net s2)\<lparr>client := c2\<rparr>"] s2
    by (auto simp: s3_def start_me_def c2_def)
  define s4 where "s4 = answered 2 (answer 200 ''{}'') s3"
  have s4: "tasks (net s4) = [Booting 0, Settled token_answer, Settled (answer 200 ''{}'')]" "promises (net s4) = [Flying]"
      "jobs s4 = [BootRefresh 0, LoginMe 2]" "accessToken (client (net s4)) = Json (JStr (js ''t''))"
    using s3 by (simp_all add: s4_def answered_def set_task_def)
  define s5 where "s5 = s4\<lparr>p_user := JObj [], p_status := Authed, jobs := [BootRefresh 0, Done (Inr ())]\<rparr>"
  have "auth_begins E s s1" using auth_begins.login [of ?path E s JNull] s by (simp add: s1_def)
  moreover have "auth_continues E s1 s2"
    unfolding s2_def by (rule answered_continues [of _ _ ?path ?ini hs]) (simp_all add: s1 token_answer)
  moreover have "auth_continues E s2 s3"
    using auth_continues.resumed [of 1 s2 E "Inr ()" "LoginMe 2" "s2\<lparr>net := start_me E ((net s2)\<lparr>client := c2\<rparr>)\<rparr>"] s2
    by (simp add: token_answer setSession_def c2_def s3_def)
  moreover have "auth_continues E s3 s4"
    unfolding s4_def by (rule answered_continues) (simp_all add: s3 token_answer)
  moreover have "auth_continues E s4 s5"
    using auth_continues.resumed [of 1 s4 E "Inr ()" "Done (Inr ())" "s4\<lparr>p_user := JObj [], p_status := Authed\<rparr>"] s4
    by (simp add: token_answer s5_def)
  ultimately have "(auth_steps E)\<^sup>*\<^sup>* s s5"
    by (meson begin_then rtranclp.rtrancl_into_rtrancl rtranclp.rtrancl_refl)
  moreover have "jobs s5 = BootRefresh 0 # [Done (Inr ())]" "net s5 = net s4" "p_user s5 = JObj []" "p_status s5 = Authed"
    by (simp_all add: s5_def)
  ultimately show ?thesis
    using boot_failure_run [of s5 _ _ E] s4 unfolding s_def by fastforce
qed

end
