(* ===== verification/JsonFuel.thy ===== *)
theory JsonFuel
  imports JsonRoundTrip
begin

text \<open>
  The fuel of \<open>JSON_parse\<close> never runs out: every reader leaves less than it was given, so that two
  units for each character are enough on every text, valid or not, and \<open>None\<close> is always the
  \<open>SyntaxError\<close> of \<open>JSON.parse\<close>.
\<close>

section \<open>Readers consume what they read\<close>

lemma skip_ws_length: "length (skip_ws s) \<le> length s"
  by (simp add: skip_ws_def length_dropWhile_le)

lemma skip_ws_Cons: "skip_ws s = c # cs \<Longrightarrow> length cs < length s"
  using skip_ws_length [of s] by simp

lemma p_chars_length: "p_chars s = Some (t, r) \<Longrightarrow> length r < length s"
  by (induction s arbitrary: t r rule: p_chars.induct)
    (fastforce split: if_splits list.splits option.splits)+

lemma p_digits_length: "p_digits s = Some (ds, r) \<Longrightarrow> length r < length s"
proof -
  assume "p_digits s = Some (ds, r)"
  then have "takeWhile is_digit s \<noteq> []" and r: "r = dropWhile is_digit s"
    by (auto simp: p_digits_def Let_def split: if_splits)
  then have "0 < length (takeWhile is_digit s)" by simp
  then have "length (dropWhile is_digit s) < length (takeWhile is_digit s @ dropWhile is_digit s)"
    unfolding length_append by linarith
  then show ?thesis by (simp add: r)
qed

lemma p_int_length: "p_int s = Some (ds, r) \<Longrightarrow> length r < length s"
  by (auto simp: p_int_def dest: p_digits_length split: list.splits if_splits)

lemma p_frac_length: "p_frac s = Some (ds, r) \<Longrightarrow> length r \<le> length s"
  by (auto simp: p_frac_def dest: p_digits_length split: list.splits if_splits)

lemma p_exp_length: "p_exp s = Some (e, r) \<Longrightarrow> length r \<le> length s"
  by (fastforce simp: p_exp_def Let_def dest: p_digits_length split: list.splits if_splits prod.splits)

lemma p_number_length: "p_number s = Some (n, r) \<Longrightarrow> length r < length s"
  by (fastforce simp: p_number_def Let_def dest: p_int_length p_frac_length p_exp_length
      split: list.splits if_splits prod.splits option.splits)

lemma p_consumes:
  "p_value f s = Some (v, r) \<Longrightarrow> length r < length s"
  "p_elems f s = Some (vs, r) \<Longrightarrow> length r < length s"
  "p_members f ps s = Some (ms, r) \<Longrightarrow> length r < length s"
proof (induction f s and f s and f ps s arbitrary: v r and vs r and ms r rule: p_value_p_elems_p_members.induct)
  case (2 f s)
  show ?case
  proof (cases "skip_ws s")
    case (Cons c cs)
    have s: "length cs < length s" using skip_ws_Cons [OF Cons] .
    have lit: "length (drop k (c # cs)) < length s" if "0 < k" for k using s that by simp
    have cs: "length (skip_ws cs) \<le> length cs" by (rule skip_ws_length)
    have "length r < length s" if "c = ch CHR ''{''" "skip_ws cs = d # ds" "d \<noteq> ch CHR ''}''" "p_members f [] (d # ds) = Some (ms, r)"
      for d ds ms using 2(1) [OF Cons that(1,2,3) that(4)] that(2) cs s by simp
    moreover have "length r < length s" if "c = ch CHR ''[''" "skip_ws cs = d # ds" "d \<noteq> ch CHR '']''" "p_elems f (d # ds) = Some (vs, r)"
      for d ds vs using 2(2) [OF Cons _ that(1,2,3) that(4)] that(1,2) cs s by simp
    moreover have "length r < length s" if "skip_ws cs = d # r" for d using that cs s by simp
    moreover note 2(3) s lit [of 4] lit [of 5] Cons
    ultimately show ?thesis
      by (auto split: list.splits if_splits dest!: p_chars_length p_number_length)
  qed (use 2 in simp)
next
  case (4 f s)
  obtain w q where v: "p_value f s = Some (w, q)" using 4(3) by (auto split: option.splits)
  from 4(1) [OF v] have q: "length (skip_ws q) < length s" using skip_ws_length [of q] by simp
  then have "length r < length s" if "skip_ws q = c # cs" "c = ch CHR '',''" "p_elems f cs = Some (us, r)" for c cs us
    using 4(2) [OF v refl that(1) _ that(2,3)] that(1,2) by simp
  moreover have "length r < length s" if "skip_ws q = c # r" for c using q that by simp
  ultimately show ?case using 4(3) v by (auto split: list.splits if_splits)
next
  case (6 f ps s)
  show ?case
  proof (cases "skip_ws s")
    case (Cons a qs)
    with 6(3) obtain k q where k: "a = 0x22" "p_chars qs = Some (k, q)" by (auto split: if_splits option.splits)
    with 6(3) Cons obtain cs where c: "skip_ws q = ch CHR '':'' # cs" by (auto split: if_splits list.splits)
    with 6(3) Cons k obtain w q' where v: "p_value f cs = Some (w, q')" by (auto split: option.splits)
    have cs: "length cs < length s"
      using skip_ws_Cons [OF Cons] p_chars_length [OF k(2)] skip_ws_Cons [OF c] by simp
    have q': "length q' < length cs" using 6(1) [OF Cons _ k(2) refl c _ v] k(1) by simp
    with 6(3) Cons k c v obtain d ds where d: "skip_ws q' = d # ds" by (auto split: list.splits)
    with q' skip_ws_Cons [OF d] cs have ds: "length ds < length s" by simp
    show ?thesis
    proof (cases "d = ch CHR ''}''")
      case True
      with 6(3) Cons k c v d ds show ?thesis by auto
    next
      case False
      with 6(3) Cons k c v d have "d = ch CHR '',''" "p_members f (obj_put k w ps) ds = Some (ms, r)"
        by (auto split: if_splits)
      with 6(2) [OF Cons _ k(2) refl c _ v refl d] False k(1) ds show ?thesis by simp
    qed
  qed (use 6 in simp)
qed simp_all

section \<open>Enough fuel\<close>

lemma p_fuel:
  "2 * length s + 1 \<le> f \<Longrightarrow> p_value (Suc f) s = p_value f s"
  "2 * length s + 2 \<le> f \<Longrightarrow> p_elems (Suc f) s = p_elems f s"
  "2 * length s + 2 \<le> f \<Longrightarrow> p_members (Suc f) ps s = p_members f ps s"
proof (induction f s and f s and f ps s rule: p_value_p_elems_p_members.induct)
  case (2 f s)
  show ?case
  proof (cases "skip_ws s")
    case (Cons c cs)
    have f: "2 * length (d # ds) + 2 \<le> f" if "skip_ws cs = d # ds" for d ds
      using 2(3) skip_ws_Cons [OF Cons] skip_ws_Cons [OF that] by simp
    have "p_members (Suc f) [] (d # ds) = p_members f [] (d # ds)"
      if "c = ch CHR ''{''" "skip_ws cs = d # ds" "d \<noteq> ch CHR ''}''" for d ds
      using 2(1) [OF Cons that f [OF that(2)]] .
    moreover have "p_elems (Suc f) (d # ds) = p_elems f (d # ds)"
      if "c = ch CHR ''[''" "skip_ws cs = d # ds" "d \<noteq> ch CHR '']''" for d ds
      using 2(2) [OF Cons _ that f [OF that(2)]] that(1) by simp
    ultimately show ?thesis unfolding p_value.simps Cons by (auto split: list.split)
  qed simp
next
  case (4 f s)
  have v: "p_value (Suc f) s = p_value f s" using 4 by simp
  have "p_elems (Suc f) cs = p_elems f cs"
    if w: "p_value f s = Some (w, r)" "skip_ws r = c # cs" "c = ch CHR '',''" for w r c cs
    using 4(2) [OF w(1) refl w(2) _ w(3)] 4(3) p_consumes(1) [OF w(1)] skip_ws_Cons [OF w(2)] w(3) by simp
  then show ?case unfolding p_elems.simps v by (auto split: list.split option.split)
next
  case (6 f ps s)
  have v: "p_value (Suc f) cs = p_value f cs \<and>
      (\<forall>w q' d ds. p_value f cs = Some (w, q') \<and> skip_ws q' = d # ds \<and> d = ch CHR '','' \<longrightarrow>
        p_members (Suc f) (obj_put k w ps) ds = p_members f (obj_put k w ps) ds)"
    if k: "skip_ws s = 0x22 # qs" "p_chars qs = Some (k, q)" "skip_ws q = ch CHR '':'' # cs" for qs k q cs
  proof -
    have cs: "length cs + 1 < length s"
      using skip_ws_Cons [OF k(1)] p_chars_length [OF k(2)] skip_ws_Cons [OF k(3)] by simp
    have "length ds < length cs" if "p_value f cs = Some (w, q')" "skip_ws q' = d # ds" for w q' d ds
      using p_consumes(1) [OF that(1)] skip_ws_Cons [OF that(2)] by simp
    then show ?thesis
      using 6(1) [OF k(1) _ k(2) refl k(3)] 6(2) [OF k(1) _ k(2) refl k(3) _ _ refl] 6(3) cs by fastforce
  qed
  show ?case unfolding p_members.simps using v by (auto split: list.split option.split)
qed simp_all

lemma p_value_fuel: "2 * length s + 1 \<le> f \<Longrightarrow> p_value f s = p_value (2 * length s + 1) s"
  by (induction rule: dec_induct) (simp_all add: p_fuel(1) del: p_value.simps)

text \<open>So \<open>JSON_parse\<close> is the parser with any amount of fuel from there on.\<close>

theorem JSON_parse_fuel:
  "2 * length s + 1 \<le> f \<Longrightarrow>
   JSON_parse s =
     (case p_value f s of
        Some (v, r) \<Rightarrow> if skip_ws r = [] then Some v else None
      | None \<Rightarrow> None)"
  using p_value_fuel [of s f] p_value_fuel [of s "2 * length s + 2"] by (simp add: JSON_parse_def del: p_value.simps)

end
