(* ===== verification/Sse.thy ===== *)
theory Sse
  imports Prelude
begin

text \<open>
  The server-sent-event reader of \<open>web/src/lib/api.ts\<close> (\<open>parseFrame\<close>, \<open>parseSSE\<close>) and the
  interface its caller relies on: a decoder that may be fed its input in any pieces. The lemmas
  give the exact decomposition of a buffer into frames, the independence of the pieces, and the
  round trip with the frames the API writes.
\<close>

section \<open>The interface: incremental decoders\<close>

text \<open>
  A decoder turns a buffer into the items complete so far and an unread rest; the caller appends
  the next piece to the rest and decodes again. \<open>feed\<close> is that loop, giving the items of each
  piece.
\<close>

primrec feed :: "('c list \<Rightarrow> 'e list \<times> 'c list) \<Rightarrow> 'c list \<Rightarrow> 'c list list \<Rightarrow> 'e list list \<times> 'c list" where
  "feed d buf [] = ([], buf)"
| "feed d buf (c # cs) =
     (let (es, r) = d (buf @ c); (ess, r') = feed d r cs in (es # ess, r'))"

locale incremental_decoder =
  fixes decode :: "'c list \<Rightarrow> 'e list \<times> 'c list"
  assumes decode_Nil: "decode [] = ([], [])"
    and decode_append:
      "decode (b @ c) =
         (fst (decode b) @ fst (decode (snd (decode b) @ c)), snd (decode (snd (decode b) @ c)))"
begin

lemma decode_rest: "decode (snd (decode b)) = ([], snd (decode b))"
  using decode_append [of b "[]"] by (metis append_self_conv fst_conv prod.collapse snd_conv append_Nil2)

lemma feed_decode:
  "decode buf = ([], buf) \<Longrightarrow>
   concat (fst (feed decode buf cs)) = fst (decode (buf @ concat cs)) \<and>
   snd (feed decode buf cs) = snd (decode (buf @ concat cs))"
proof (induction cs arbitrary: buf)
  case (Cons c cs)
  let ?r = "snd (decode (buf @ c))"
  have "decode ?r = ([], ?r)" by (rule decode_rest)
  from Cons.IH [OF this] show ?case
    using decode_append [of "buf @ c" "concat cs"] by (simp add: case_prod_beta Let_def)
qed simp

text \<open>Any two ways of cutting the same input give the same items and the same rest.\<close>

lemma feed_pieces:
  assumes "concat cs = concat ds"
  shows "concat (fst (feed decode [] cs)) = concat (fst (feed decode [] ds))"
    and "snd (feed decode [] cs) = snd (feed decode [] ds)"
  using feed_decode [OF decode_Nil, of cs] feed_decode [OF decode_Nil, of ds] assms by simp_all

end

section \<open>Frames\<close>

record SSEEvent =
  event :: jstring
  data :: jstring

abbreviation NL :: jschar where "NL \<equiv> 10"

text \<open>One line of a frame: the last \<open>event:\<close> and the last \<open>data:\<close> line win.\<close>

definition frame_line :: "jstring \<times> jstring \<Rightarrow> jstring \<Rightarrow> jstring \<times> jstring" where
  "frame_line st line =
     (if starts_with (js ''event:'') line then (trim (drop 6 line), snd st)
      else if starts_with (js ''data:'') line then (fst st, trim (drop 5 line))
      else st)"

definition parseFrame :: "jstring \<Rightarrow> SSEEvent option" where
  "parseFrame frame =
     (let (ev, d) = foldl frame_line ([], []) (split_on NL frame)
      in if ev = [] then None else Some \<lparr>event = ev, data = d\<rparr>)"

function parse_frames :: "SSEEvent list \<Rightarrow> jstring \<Rightarrow> SSEEvent list \<times> jstring" where
  "parse_frames events rest =
     (case index_of [NL, NL] rest of
        None \<Rightarrow> (events, rest)
      | Some idx \<Rightarrow>
          parse_frames
            (case parseFrame (take idx rest) of Some ev \<Rightarrow> events @ [ev] | None \<Rightarrow> events)
            (drop (idx + 2) rest))"
  by pat_completeness auto
termination
  by (relation "measure (length \<circ> snd)") (auto dest!: index_of_bound)

declare parse_frames.simps [simp del]

definition parseSSE :: "jstring \<Rightarrow> SSEEvent list \<times> jstring" where
  "parseSSE buffer = parse_frames [] buffer"

subsection \<open>What the loop computes\<close>

abbreviation opt_list :: "'a option \<Rightarrow> 'a list" where
  "opt_list x \<equiv> (case x of Some v \<Rightarrow> [v] | None \<Rightarrow> [])"

lemma parse_frames_acc:
  "parse_frames events rest = (events @ fst (parse_frames [] rest), snd (parse_frames [] rest))"
proof (induction rest arbitrary: events rule: length_induct)
  case (1 rest)
  show ?case
  proof (cases "index_of [NL, NL] rest")
    case None
    then show ?thesis by (simp add: parse_frames.simps)
  next
    case (Some idx)
    let ?f = "parseFrame (take idx rest)" and ?r = "drop (idx + 2) rest"
    have "length ?r < length rest" using index_of_bound [OF Some] by simp
    with 1 have IH: "parse_frames evs ?r = (evs @ fst (parse_frames [] ?r), snd (parse_frames [] ?r))" for evs
      by blast
    have "parse_frames evs rest = parse_frames (evs @ opt_list ?f) ?r" for evs
      using Some by (subst parse_frames.simps) (simp split: option.splits)
    then show ?thesis using IH [of "events @ opt_list ?f"] IH [of "opt_list ?f"] by simp
  qed
qed

lemma parseSSE_Nil [simp]: "parseSSE [] = ([], [])"
  by (simp add: parseSSE_def parse_frames.simps)

lemma parseSSE_None: "index_of [NL, NL] b = None \<Longrightarrow> parseSSE b = ([], b)"
  by (simp add: parseSSE_def parse_frames.simps)

lemma parseSSE_Some:
  assumes "index_of [NL, NL] b = Some i"
  shows "parseSSE b = (opt_list (parseFrame (take i b)) @ fst (parseSSE (drop (i + 2) b)),
                       snd (parseSSE (drop (i + 2) b)))"
  unfolding parseSSE_def
  by (subst parse_frames.simps, subst parse_frames_acc) (simp add: assms split: option.splits)

lemma parseSSE_induct [case_names partial frame]:
  assumes "\<And>b. index_of [NL, NL] b = None \<Longrightarrow> P b"
    and "\<And>b i. index_of [NL, NL] b = Some i \<Longrightarrow> P (drop (i + 2) b) \<Longrightarrow> P b"
  shows "P b"
proof (induction b rule: length_induct)
  case (1 b)
  show ?case
  proof (cases "index_of [NL, NL] b")
    case (Some i)
    with 1 index_of_bound [OF Some] have "P (drop (i + 2) b)" by auto
    with Some show ?thesis by (rule assms(2))
  qed (rule assms(1))
qed

lemma parseSSE_append:
  "parseSSE (b @ c) = (fst (parseSSE b) @ fst (parseSSE (snd (parseSSE b) @ c)),
                       snd (parseSSE (snd (parseSSE b) @ c)))"
proof (induction b rule: parseSSE_induct)
  case (partial b)
  then show ?case by (simp add: parseSSE_None)
next
  case (frame b i)
  have "i + 2 \<le> length b" using index_of_bound [OF frame(1)] by simp
  with frame show ?case
    using parseSSE_Some [OF frame(1)] parseSSE_Some [OF index_of_append [OF frame(1), of c]] by simp
qed

text \<open>\<open>parseSSE\<close> keeps the contract that the reading loop of \<open>sendMessage\<close> depends on.\<close>

interpretation sse: incremental_decoder parseSSE
  by unfold_locales (simp, rule parseSSE_append)

subsection \<open>The exact decomposition\<close>

text \<open>
  A frame body: no blank line inside it, and no newline at its end (the newline would take part
  in the separator).
\<close>

definition frame_body :: "jstring \<Rightarrow> bool" where
  "frame_body f \<longleftrightarrow> index_of [NL, NL] (f @ [NL]) = None"

definition frames_text :: "jstring list \<Rightarrow> jstring" where
  "frames_text fs = concat (map (\<lambda>f. f @ [NL, NL]) fs)"

lemma index_of_frame:
  "frame_body f \<Longrightarrow> index_of [NL, NL] (f @ NL # NL # t) = Some (length f)"
proof (induction f)
  case Nil
  then show ?case by (simp add: starts_with_def)
next
  case (Cons x f)
  then have nb: "\<not> starts_with [NL, NL] (x # f @ [NL])" and "frame_body f"
    by (auto simp: frame_body_def split: if_splits)
  with Cons.IH have "index_of [NL, NL] (f @ NL # NL # t) = Some (length f)" by blast
  moreover from nb have "\<not> starts_with [NL, NL] (x # f @ NL # NL # t)"
    by (cases f) (auto simp: starts_with_def)
  ultimately show ?case by simp
qed

lemma frame_body_take:
  assumes "index_of [NL, NL] b = Some i" shows "frame_body (take i b)"
proof -
  have "index_of [NL, NL] (take (Suc i) b) = None"
  proof (rule ccontr)
    assume "index_of [NL, NL] (take (Suc i) b) \<noteq> None"
    then obtain j where j: "index_of [NL, NL] (take (Suc i) b) = Some j" by auto
    then have "j + 2 \<le> Suc i" using index_of_bound [OF j] by simp
    moreover from j have "index_of [NL, NL] b = Some j"
      using index_of_append [OF j, of "drop (Suc i) b"] by simp
    ultimately show False using assms by simp
  qed
  moreover have "take (Suc i) b = take i b @ [NL]"
  proof -
    have "i < length b" using index_of_bound [OF assms] by simp
    moreover have "b ! i = NL"
    proof -
      have "b = take i b @ [NL, NL] @ drop (i + 2) b" using index_of_Some [OF assms] by simp
      then have "b ! i = (take i b @ [NL, NL] @ drop (i + 2) b) ! i" by simp
      then show ?thesis using \<open>i < length b\<close> by (simp add: nth_append)
    qed
    ultimately show ?thesis by (simp add: take_Suc_conv_app_nth)
  qed
  ultimately show ?thesis by (simp add: frame_body_def)
qed

lemma parseSSE_frames_text:
  assumes "list_all frame_body fs" and "index_of [NL, NL] r = None"
  shows "parseSSE (frames_text fs @ r) = (List.map_filter parseFrame fs, r)"
  using assms(1)
proof (induction fs)
  case Nil
  then show ?case using assms(2) by (simp add: frames_text_def parseSSE_None)
next
  case (Cons f fs)
  then have i: "index_of [NL, NL] (frames_text (f # fs) @ r) = Some (length f)"
    using index_of_frame [of f] by (simp add: frames_text_def)
  have "drop (length f + 2) (frames_text (f # fs) @ r) = frames_text fs @ r"
    by (simp add: frames_text_def)
  with parseSSE_Some [OF i] Cons show ?case
    by (auto simp: frames_text_def List.map_filter_simps split: option.splits)
qed

lemma frames_decomposition:
  "\<exists>fs. list_all frame_body fs \<and> index_of [NL, NL] (snd (parseSSE b)) = None \<and>
        b = frames_text fs @ snd (parseSSE b)"
proof (induction b rule: parseSSE_induct)
  case (partial b)
  then show ?case by (intro exI [of _ "[]"]) (simp add: parseSSE_None frames_text_def)
next
  case (frame b i)
  then obtain fs where fs: "list_all frame_body fs"
      "index_of [NL, NL] (snd (parseSSE (drop (i + 2) b))) = None"
      "drop (i + 2) b = frames_text fs @ snd (parseSSE (drop (i + 2) b))"
    by blast
  have "b = take i b @ [NL, NL] @ drop (i + 2) b" using index_of_Some [OF frame(1)] by simp
  then have "b = frames_text (take i b # fs) @ snd (parseSSE (drop (i + 2) b))"
    using fs(3) by (simp add: frames_text_def)
  with fs frame_body_take [OF frame(1)] parseSSE_Some [OF frame(1)] show ?case
    by (intro exI [of _ "take i b # fs"]) simp
qed

subsection \<open>The frames the API writes\<close>

text \<open>\<open>writeSSE\<close> of \<open>api/chat.go\<close>: \<open>event: <name>\<close>, \<open>data: <payload>\<close>, a blank line.\<close>

definition write_frame :: "SSEEvent \<Rightarrow> jstring" where
  "write_frame ev = js ''event: '' @ event ev @ [NL] @ js ''data: '' @ data ev"

text \<open>An event that survives the line format: one-line, trimmed fields and a name.\<close>

definition line_safe :: "SSEEvent \<Rightarrow> bool" where
  "line_safe ev \<longleftrightarrow> event ev \<noteq> [] \<and> NL \<notin> set (event ev) \<and> NL \<notin> set (data ev) \<and>
     trim (event ev) = event ev \<and> trim (data ev) = data ev"

lemma NL_js [simp]: "NL \<notin> set (js ''event: '')" "NL \<notin> set (js ''data: '')"
  by (simp_all add: js_text)

lemma trim_space: "trim (0x20 # s) = trim s"
  by (rule trim_ws_Cons) (simp add: is_ws_def)

lemma frame_line_write:
  "frame_line st (js ''event: '' @ s) = (trim s, snd st)"
  "frame_line st (js ''data: '' @ s) = (fst st, trim s)"
  by (simp_all add: frame_line_def js_text starts_with_def trim_space)

lemma parseFrame_write: "line_safe ev \<Longrightarrow> parseFrame (write_frame ev) = Some ev"
  using split_on_append [of NL "js ''event: '' @ event ev" "js ''data: '' @ data ev"]
    split_on_single [of NL "js ''data: '' @ data ev"]
  by (simp add: parseFrame_def write_frame_def line_safe_def frame_line_write)

lemma index_of_line: "NL \<notin> set a \<Longrightarrow> index_of [NL, NL] (a @ s) = None \<longleftrightarrow> index_of [NL, NL] s = None"
  by (induction a) (auto simp: starts_with_def)

lemma frame_body_write: "line_safe ev \<Longrightarrow> frame_body (write_frame ev)"
proof -
  assume "line_safe ev"
  then have nl: "NL \<notin> set (js ''event: '' @ event ev)" "NL \<notin> set (js ''data: '' @ data ev)"
    by (auto simp: line_safe_def)
  have "index_of [NL, NL] ((js ''data: '' @ data ev) @ [NL]) = None"
    unfolding index_of_line [OF nl(2)] by (simp add: starts_with_def)
  then have "index_of [NL, NL] (NL # (js ''data: '' @ data ev) @ [NL]) = None"
    by (simp add: starts_with_def js_text)
  then have "index_of [NL, NL] ((js ''event: '' @ event ev) @ NL # (js ''data: '' @ data ev) @ [NL]) = None"
    unfolding index_of_line [OF nl(1)] .
  then show ?thesis by (simp add: frame_body_def write_frame_def)
qed

lemma parseSSE_write:
  "list_all line_safe evs \<Longrightarrow> parseSSE (frames_text (map write_frame evs)) = (evs, [])"
proof -
  assume evs: "list_all line_safe evs"
  then have "list_all frame_body (map write_frame evs)"
    by (auto simp: list_all_iff frame_body_write)
  then have "parseSSE (frames_text (map write_frame evs) @ []) =
      (List.map_filter parseFrame (map write_frame evs), [])"
    by (rule parseSSE_frames_text) simp
  moreover have "List.map_filter parseFrame (map write_frame evs) = evs"
    using evs by (induction evs) (auto simp: List.map_filter_simps parseFrame_write)
  ultimately show ?thesis by simp
qed

text \<open>
  C25: For every buffer, \<open>parseSSE\<close> gives the events of the complete frames in order and leaves the
  rest unread: the buffer is exactly its frames, each with the blank line that ends it, and a rest
  without a blank line. Nothing is lost, repeated or read early.
\<close>

theorem parseSSE_exact:
  "\<exists>fs. list_all frame_body fs \<and> b = frames_text fs @ snd (parseSSE b) \<and>
     fst (parseSSE b) = List.map_filter parseFrame fs \<and> index_of [NL, NL] (snd (parseSSE b)) = None"
proof -
  from frames_decomposition [of b] obtain fs where fs: "list_all frame_body fs"
      "index_of [NL, NL] (snd (parseSSE b)) = None" "b = frames_text fs @ snd (parseSSE b)" by blast
  from parseSSE_frames_text [OF fs(1,2)] have "fst (parseSSE b) = List.map_filter parseFrame fs"
    unfolding fs(3) [symmetric] by (metis fst_conv)
  with fs show ?thesis by blast
qed

end
