(* ===== verification/RunLog.thy ===== *)
theory RunLog
  imports JsonRoundTrip "HOL-Library.Multiset"
begin

text \<open>
  Run nodes (\<open>RunNode\<close> of \<open>web/src/lib/api.ts\<close>) and everything \<open>web/src/lib/run-log.ts\<close>
  derives from a node list: the tree for the timeline, the answer text, tool labels and input
  digests, and the plan. \<open>buildTree\<close> works on shared mutable objects, so its model links indices
  in an explicit heap of children lists and reads the forest off that heap.
\<close>

section \<open>Run nodes\<close>

text \<open>The declared union of node types; the renderer also meets types outside it.\<close>

datatype node_kind = Reasoning | TextKind | Tool | Compaction | OtherKind jstring

record RunNode =
  node_id :: jstring
  parent_id :: "jstring option"
  node_type :: node_kind
  node_text :: "jstring option"
  node_name :: "jstring option"
  node_input :: jsval
  node_output :: jsval

text \<open>\<open>n.parent_id\<close> as a condition: neither \<open>null\<close> nor the empty string.\<close>

definition has_parent_id :: "RunNode \<Rightarrow> bool" where
  "has_parent_id n \<longleftrightarrow> parent_id n \<noteq> None \<and> parent_id n \<noteq> Some []"

section \<open>buildTree\<close>

datatype 'a tree = TreeNode (node: 'a) (children: "'a tree list")

text \<open>\<open>new Map(wrapped.map((n) => [n.id, n]))\<close>: a later node with the same id replaces an earlier one.\<close>

definition by_id :: "RunNode list \<Rightarrow> jstring \<rightharpoonup> nat" where
  "by_id nodes = foldl (\<lambda>m i. m(node_id (nodes ! i) \<mapsto> i)) Map.empty [0..<length nodes]"

definition parent_of :: "RunNode list \<Rightarrow> nat \<Rightarrow> nat option" where
  "parent_of nodes i =
     (case parent_id (nodes ! i) of
        None \<Rightarrow> None
      | Some p \<Rightarrow> if p = [] then None else by_id nodes p)"

text \<open>The loop: push a node on its parent's children, or on the roots.\<close>

definition link_node ::
  "RunNode list \<Rightarrow> (nat \<Rightarrow> nat list) \<times> nat list \<Rightarrow> nat \<Rightarrow> (nat \<Rightarrow> nat list) \<times> nat list" where
  "link_node nodes st i =
     (case parent_of nodes i of
        Some p \<Rightarrow> ((fst st)(p := fst st p @ [i]), snd st)
      | None \<Rightarrow> (fst st, snd st @ [i]))"

definition link_nodes :: "RunNode list \<Rightarrow> (nat \<Rightarrow> nat list) \<times> nat list" where
  "link_nodes nodes = foldl (link_node nodes) (\<lambda>_. [], []) [0..<length nodes]"

text \<open>
  Reading an object graph as a tree follows the children pointers; \<open>None\<close> is a graph too deep
  for the fuel (a cycle is too deep for any).
\<close>

fun reify :: "nat \<Rightarrow> (nat \<Rightarrow> nat list) \<Rightarrow> nat \<Rightarrow> nat tree option" where
  "reify 0 kids i = None"
| "reify (Suc f) kids i =
     (case those (map (reify f kids) (kids i)) of None \<Rightarrow> None | Some ts \<Rightarrow> Some (TreeNode i ts))"

definition index_forest :: "RunNode list \<Rightarrow> nat tree list option" where
  "index_forest nodes =
     (let (kids, roots) = link_nodes nodes in those (map (reify (length nodes) kids) roots))"

definition buildTree :: "RunNode list \<Rightarrow> RunNode tree list option" where
  "buildTree nodes = map_option (map (map_tree (\<lambda>i. nodes ! i))) (index_forest nodes)"

fun preorder :: "'a tree \<Rightarrow> 'a list" where
  "preorder (TreeNode x ts) = x # concat (map preorder ts)"

section \<open>The answer text\<close>

definition answerText :: "RunNode list \<Rightarrow> jstring" where
  "answerText nodes =
     join [0xA, 0xA]
       (filter (\<lambda>s. s \<noteq> [])
         (map (\<lambda>n. trim (case node_text n of Some t \<Rightarrow> t | None \<Rightarrow> []))
           (filter (\<lambda>n. node_type n = TextKind \<and> \<not> has_parent_id n) nodes)))"

section \<open>Labels and digests\<close>

text \<open>
  \<open>TOOL_LABELS[name] ?? name\<close>. The table is an ordinary object, so a name of an
  \<open>Object.prototype\<close> member finds that member (a function or an object), not \<open>undefined\<close>.
\<close>

datatype label = Label jstring | PrototypeMember jstring

definition TOOL_LABELS :: "(string \<times> string) list" where
  "TOOL_LABELS = [(''run_subagent'', ''subagent''), (''internet_search'', ''search''), (''set_todos'', ''plan'')]"

definition object_prototype :: "string list" where
  "object_prototype = [''constructor'', ''__defineGetter__'', ''__defineSetter__'',
     ''hasOwnProperty'', ''__lookupGetter__'', ''__lookupSetter__'', ''isPrototypeOf'',
     ''propertyIsEnumerable'', ''toString'', ''valueOf'', ''__proto__'', ''toLocaleString'']"

definition toolLabel :: "jstring \<Rightarrow> label" where
  "toolLabel name =
     (case map_of (map (\<lambda>(k, v). (js k, js v)) TOOL_LABELS) name of
        Some l \<Rightarrow> Label l
      | None \<Rightarrow> if name \<in> js ` set object_prototype then PrototypeMember name else Label name)"

definition inputDetail :: "jsval \<Rightarrow> jstring" where
  "inputDetail v =
     (case v of
        Undefined \<Rightarrow> []
      | Json input \<Rightarrow>
          if input = JNull \<or> \<not> typeof_object v then []
          else (case object_values input of
                  [] \<Rightarrow> []
                | [x] \<Rightarrow> if \<not> typeof_object (Json x) then js_string x else JSON_stringify input
                | _ \<Rightarrow> JSON_stringify input))"

section \<open>The plan\<close>

datatype PlanProgress = Completed | InProgress | Outstanding

record PlanTodo =
  description :: jstring
  progress :: PlanProgress

definition PROGRESS :: "(jstring \<times> PlanProgress) list" where
  "PROGRESS = [(js ''completed'', Completed), (js ''in progress'', InProgress), (js ''outstanding'', Outstanding)]"

definition coerceTodo :: "json \<Rightarrow> PlanTodo option" where
  "coerceTodo raw =
     (if \<not> truthy (Json raw) \<or> \<not> typeof_object (Json raw) then None
      else case (get_prop (js ''description'') (Json raw), get_prop (js ''progress'') (Json raw)) of
             (Some (Json (JStr d)), Some (Json (JStr p))) \<Rightarrow>
               (case map_of PROGRESS p of Some pr \<Rightarrow> Some \<lparr>description = d, progress = pr\<rparr> | None \<Rightarrow> None)
           | _ \<Rightarrow> None)"

definition coercePlan :: "jsval \<Rightarrow> PlanTodo list option" where
  "coercePlan payload =
     (if \<not> truthy payload \<or> \<not> typeof_object payload then None
      else case get_prop (js ''todos'') payload of
             Some (Json (JArr raw)) \<Rightarrow>
               (let todos = List.map_filter coerceTodo raw in if todos = [] then None else Some todos)
           | _ \<Rightarrow> None)"

definition planFromNode :: "RunNode \<Rightarrow> PlanTodo list option" where
  "planFromNode n =
     (case coercePlan (node_input n) of
        Some plan \<Rightarrow> Some plan
      | None \<Rightarrow>
          (case node_output n of
             Json (JStr s) \<Rightarrow> (case JSON_parse s of Some v \<Rightarrow> coercePlan (Json v) | None \<Rightarrow> None)
           | _ \<Rightarrow> None))"

definition latestPlan :: "RunNode list \<Rightarrow> PlanTodo list option" where
  "latestPlan nodes =
     foldl (\<lambda>plan n. if node_name n \<noteq> Some (js ''set_todos'') then plan
                     else case planFromNode n of Some next \<Rightarrow> Some next | None \<Rightarrow> plan)
       None nodes"

section \<open>The heap of children lists\<close>

lemma link_upto:
  "foldl (link_node nodes) (\<lambda>_. [], []) [0..<n] =
     ((\<lambda>p. filter (\<lambda>i. parent_of nodes i = Some p) [0..<n]),
      filter (\<lambda>i. parent_of nodes i = None) [0..<n])"
  by (induction n) (auto simp: link_node_def split: option.splits)

lemma link_nodes_eq:
  "link_nodes nodes =
     ((\<lambda>p. filter (\<lambda>i. parent_of nodes i = Some p) [0..<length nodes]),
      filter (\<lambda>i. parent_of nodes i = None) [0..<length nodes])"
  by (simp add: link_nodes_def link_upto)

lemma by_id_upto:
  "foldl (\<lambda>m i. m(node_id (nodes ! i) \<mapsto> i)) Map.empty [0..<n] k = Some i \<Longrightarrow>
   i < n \<and> node_id (nodes ! i) = k \<and> (\<forall>j. i < j \<and> j < n \<longrightarrow> node_id (nodes ! j) \<noteq> k)"
  by (induction n) (auto split: if_splits simp: less_Suc_eq)

lemma by_id_SomeD:
  "by_id nodes k = Some i \<Longrightarrow> i < length nodes \<and> node_id (nodes ! i) = k"
  unfolding by_id_def using by_id_upto by blast

lemma by_id_upto_None:
  "foldl (\<lambda>m i. m(node_id (nodes ! i) \<mapsto> i)) Map.empty [0..<n] k = None \<longleftrightarrow> (\<forall>i < n. node_id (nodes ! i) \<noteq> k)"
  by (induction n) (auto simp: less_Suc_eq)

lemma by_id_None: "by_id nodes k = None \<longleftrightarrow> k \<notin> node_id ` set nodes"
  unfolding by_id_def by_id_upto_None by (metis image_iff in_set_conv_nth)

lemma parent_of_SomeD:
  "parent_of nodes i = Some p \<Longrightarrow> p < length nodes \<and> parent_id (nodes ! i) = Some (node_id (nodes ! p))"
  by (auto simp: parent_of_def dest: by_id_SomeD split: option.splits if_splits)

section \<open>Depths\<close>

text \<open>The distance of a node from a root along parent links; a node on or below a cycle has none.\<close>

inductive at_depth :: "RunNode list \<Rightarrow> nat \<Rightarrow> nat \<Rightarrow> bool" for nodes where
  root: "parent_of nodes i = None \<Longrightarrow> at_depth nodes i 0"
| child: "parent_of nodes i = Some p \<Longrightarrow> at_depth nodes p d \<Longrightarrow> at_depth nodes i (Suc d)"

inductive_cases at_depth_0: "at_depth nodes i 0"
inductive_cases at_depth_Suc: "at_depth nodes i (Suc d)"

lemma at_depth_unique: "at_depth nodes i d \<Longrightarrow> at_depth nodes i e \<Longrightarrow> d = e"
proof (induction arbitrary: e rule: at_depth.induct)
  case (root i)
  then show ?case by (auto elim: at_depth.cases)
next
  case (child i p d)
  from child.prems child.hyps(1) obtain e' where "e = Suc e'" "at_depth nodes p e'"
    by (auto elim: at_depth.cases)
  with child.IH show ?case by simp
qed

text \<open>The ancestors of a node of depth \<open>d\<close> are \<open>d + 1\<close> different nodes, so \<open>d\<close> is below the length.\<close>

lemma at_depth_path:
  "at_depth nodes i d \<Longrightarrow> i < length nodes \<Longrightarrow>
   \<exists>is. distinct is \<and> length is = Suc d \<and> set is \<subseteq> {..<length nodes} \<and> (\<forall>j \<in> set is. \<exists>e \<le> d. at_depth nodes j e)"
proof (induction rule: at_depth.induct)
  case (root i)
  then show ?case by (intro exI [of _ "[i]"]) (auto intro: at_depth.root)
next
  case (child i p d)
  then obtain "is" where path: "distinct is" "length is = Suc d" "set is \<subseteq> {..<length nodes}"
      "\<forall>j \<in> set is. \<exists>e \<le> d. at_depth nodes j e"
    using parent_of_SomeD by blast
  have i: "at_depth nodes i (Suc d)" using child.hyps by (rule at_depth.child)
  then have "i \<notin> set is" using path(4) at_depth_unique by fastforce
  moreover have "\<exists>e \<le> Suc d. at_depth nodes j e" if "j \<in> set (i # is)" for j
  proof (cases "j = i")
    case True
    with i show ?thesis by blast
  next
    case False
    with that path(4) obtain e where "e \<le> d" "at_depth nodes j e" by auto
    then show ?thesis by (blast intro: le_SucI)
  qed
  ultimately show ?case using path(1-3) child.prems by (intro exI [of _ "i # is"]) simp
qed

lemma at_depth_less:
  assumes "at_depth nodes i d" "i < length nodes" shows "d < length nodes"
proof -
  obtain "is" where "distinct is" "length is = Suc d" "set is \<subseteq> {..<length nodes}"
    using at_depth_path [OF assms] by blast
  then have "Suc d \<le> card {..<length nodes}" using card_mono [of "{..<length nodes}" "set is"]
    by (simp add: distinct_card)
  then show ?thesis by simp
qed

section \<open>Reading the forest\<close>

lemma those_Some: "those xs = Some ys \<longleftrightarrow> xs = map Some ys"
  by (induction xs arbitrary: ys; case_tac ys) (auto split: option.splits)

lemma those_total: "(\<And>x. x \<in> set xs \<Longrightarrow> x \<noteq> None) \<Longrightarrow> \<exists>ys. those xs = Some ys"
  by (induction xs) (auto split: option.splits)

definition kids_of :: "RunNode list \<Rightarrow> nat \<Rightarrow> nat list" where
  "kids_of nodes p = filter (\<lambda>i. parent_of nodes i = Some p) [0..<length nodes]"

definition roots_of :: "RunNode list \<Rightarrow> nat list" where
  "roots_of nodes = filter (\<lambda>i. parent_of nodes i = None) [0..<length nodes]"

lemma index_forest_eq:
  "index_forest nodes = those (map (reify (length nodes) (kids_of nodes)) (roots_of nodes))"
  by (simp add: index_forest_def link_nodes_eq kids_of_def [abs_def] roots_of_def)

lemma reify_total:
  "at_depth nodes i d \<Longrightarrow> i < length nodes \<Longrightarrow> length nodes \<le> f + d \<Longrightarrow> reify f (kids_of nodes) i \<noteq> None"
proof (induction f arbitrary: i d)
  case 0
  then show ?case using at_depth_less by fastforce
next
  case (Suc f)
  have "reify f (kids_of nodes) c \<noteq> None" if "c \<in> set (kids_of nodes i)" for c
  proof (rule Suc.IH)
    show "at_depth nodes c (Suc d)" using that Suc.prems(1) by (auto simp: kids_of_def intro: at_depth.child)
  qed (use that Suc.prems in \<open>auto simp: kids_of_def\<close>)
  then obtain ts where "those (map (reify f (kids_of nodes)) (kids_of nodes i)) = Some ts"
    using those_total [of "map (reify f (kids_of nodes)) (kids_of nodes i)"] by force
  then show ?case by simp
qed

lemma index_forest_total: "\<exists>ts. index_forest nodes = Some ts"
  unfolding index_forest_eq
proof (rule those_total)
  fix x assume "x \<in> set (map (reify (length nodes) (kids_of nodes)) (roots_of nodes))"
  then obtain r where "x = reify (length nodes) (kids_of nodes) r" "r < length nodes" "parent_of nodes r = None"
    by (auto simp: roots_of_def)
  then show "x \<noteq> None" using reify_total [of nodes r 0 "length nodes"] by (auto intro: at_depth.root)
qed

text \<open>\<open>below nodes i j\<close>: \<open>j\<close> is \<open>i\<close> or a descendant of it.\<close>

inductive below :: "RunNode list \<Rightarrow> nat \<Rightarrow> nat \<Rightarrow> bool" for nodes i where
  self: "below nodes i i"
| step: "parent_of nodes j = Some p \<Longrightarrow> below nodes i p \<Longrightarrow> below nodes i j"

lemma below_child: "parent_of nodes c = Some i \<Longrightarrow> below nodes c j \<Longrightarrow> below nodes i j"
  by (rotate_tac, induction rule: below.induct) (auto intro: below.intros)

lemma below_cases_child:
  "below nodes i j \<Longrightarrow> j = i \<or> (\<exists>c. parent_of nodes c = Some i \<and> below nodes c j)"
  by (induction rule: below.induct) (auto intro: below.intros)

lemma below_depth: "below nodes i j \<Longrightarrow> at_depth nodes i d \<Longrightarrow> \<exists>e. at_depth nodes j (d + e)"
proof (induction rule: below.induct)
  case self
  then show ?case by (intro exI [of _ 0]) simp
next
  case (step j p)
  then obtain e where "at_depth nodes p (d + e)" by blast
  with step.hyps(1) have "at_depth nodes j (d + Suc e)" using at_depth.child by fastforce
  then show ?case ..
qed

text \<open>A node is below at most one node of each depth.\<close>

lemma below_unique:
  "below nodes a j \<Longrightarrow> below nodes b j \<Longrightarrow> at_depth nodes a d \<Longrightarrow> at_depth nodes b d \<Longrightarrow> a = b"
proof (induction arbitrary: b rule: below.induct)
  case self
  from self(1) show ?case
  proof (cases rule: below.cases)
    case (step p)
    obtain e where "at_depth nodes p (d + e)" using below_depth [OF step(2) self(3)] by blast
    with step(1) have "at_depth nodes a (Suc (d + e))" by (rule at_depth.child)
    from at_depth_unique [OF this self(2)] show ?thesis by simp
  qed simp
next
  case (step j p)
  note outer = step
  from step.prems(1) show ?case
  proof (cases rule: below.cases)
    case self
    obtain e where "at_depth nodes p (d + e)" using below_depth [OF step.hyps(2) step.prems(2)] by blast
    with step.hyps(1) have "at_depth nodes j (Suc (d + e))" by (rule at_depth.child)
    from at_depth_unique [OF this, of d] step.prems(3) self show ?thesis by simp
  next
    case (step q)
    with outer(1) have "below nodes b p" by simp
    from outer(3) [OF this outer(5,6)] show ?thesis .
  qed
qed

lemma below_less: "below nodes i j \<Longrightarrow> j < length nodes \<Longrightarrow> i < length nodes"
  by (induction rule: below.induct) (auto dest: parent_of_SomeD)

lemma concat_preorder:
  assumes "list_all2 (\<lambda>c t. distinct (preorder t) \<and> set (preorder t) = S c) cs ts"
    and "distinct cs" and "\<And>c c'. c \<in> set cs \<Longrightarrow> c' \<in> set cs \<Longrightarrow> c \<noteq> c' \<Longrightarrow> S c \<inter> S c' = {}"
  shows "distinct (concat (map preorder ts)) \<and> set (concat (map preorder ts)) = (\<Union>c \<in> set cs. S c)"
  using assms
proof (induction rule: list_all2_induct)
  case (Cons c cs t ts)
  then have IH: "distinct (concat (map preorder ts))" "set (concat (map preorder ts)) = (\<Union>c \<in> set cs. S c)"
    by auto
  have "S c \<inter> S c' = {}" if "c' \<in> set cs" for c' using Cons.prems that by auto
  then have "set (preorder t) \<inter> set (concat (map preorder ts)) = {}" using Cons.hyps IH(2) by auto
  with Cons.hyps IH show ?case by simp
qed simp

definition subtree_ixs :: "RunNode list \<Rightarrow> nat \<Rightarrow> nat set" where
  "subtree_ixs nodes i = {j. j < length nodes \<and> below nodes i j}"

lemma those_reify:
  "those (map (reify f kids) cs) = Some ts \<Longrightarrow>
   (\<And>c t. c \<in> set cs \<Longrightarrow> reify f kids c = Some t \<Longrightarrow> P c t) \<Longrightarrow> list_all2 P cs ts"
  unfolding those_Some by (induction cs arbitrary: ts) (auto simp: Cons_eq_map_conv)

lemma subtree_ixs_unfold:
  assumes "i < length nodes"
  shows "subtree_ixs nodes i = insert i (\<Union>c \<in> set (kids_of nodes i). subtree_ixs nodes c)"
proof
  show "subtree_ixs nodes i \<subseteq> insert i (\<Union>c \<in> set (kids_of nodes i). subtree_ixs nodes c)"
  proof
    fix j assume "j \<in> subtree_ixs nodes i"
    then have j: "j < length nodes" "below nodes i j" by (auto simp: subtree_ixs_def)
    from below_cases_child [OF j(2)] show "j \<in> insert i (\<Union>c \<in> set (kids_of nodes i). subtree_ixs nodes c)"
    proof
      assume "\<exists>c. parent_of nodes c = Some i \<and> below nodes c j"
      then obtain c where c: "parent_of nodes c = Some i" "below nodes c j" by blast
      from c(2) j(1) have "c < length nodes" by (rule below_less)
      with c j show ?thesis by (auto simp: kids_of_def subtree_ixs_def)
    qed simp
  qed
  show "insert i (\<Union>c \<in> set (kids_of nodes i). subtree_ixs nodes c) \<subseteq> subtree_ixs nodes i"
    using assms by (auto simp: kids_of_def subtree_ixs_def intro: below.self below_child)
qed

lemma reify_preorder:
  "reify f (kids_of nodes) i = Some t \<Longrightarrow> at_depth nodes i d \<Longrightarrow> i < length nodes \<Longrightarrow>
   distinct (preorder t) \<and> set (preorder t) = subtree_ixs nodes i"
proof (induction f arbitrary: i t d)
  case (Suc f)
  let ?cs = "kids_of nodes i"
  from Suc.prems(1) obtain ts where t: "t = TreeNode i ts" "those (map (reify f (kids_of nodes)) ?cs) = Some ts"
    by (auto split: option.splits)
  have d: "at_depth nodes c (Suc d)" if "c \<in> set ?cs" for c
    using that Suc.prems(2) by (auto simp: kids_of_def intro: at_depth.child)
  have kids_less: "c < length nodes" if "c \<in> set ?cs" for c
    using that by (simp add: kids_of_def)
  have "list_all2 (\<lambda>c t. distinct (preorder t) \<and> set (preorder t) = subtree_ixs nodes c) ?cs ts"
  proof (rule those_reify [OF t(2)])
    fix c u assume "c \<in> set ?cs" "reify f (kids_of nodes) c = Some u"
    then show "distinct (preorder u) \<and> set (preorder u) = subtree_ixs nodes c"
      using Suc.IH [of c u "Suc d"] d kids_less by blast
  qed
  moreover have "distinct ?cs" by (simp add: kids_of_def)
  moreover have "subtree_ixs nodes c \<inter> subtree_ixs nodes c' = {}"
    if "c \<in> set ?cs" "c' \<in> set ?cs" "c \<noteq> c'" for c c'
    using that below_unique d by (fastforce simp: subtree_ixs_def)
  ultimately have cs: "distinct (concat (map preorder ts))"
      "set (concat (map preorder ts)) = (\<Union>c \<in> set ?cs. subtree_ixs nodes c)"
    using concat_preorder [of "subtree_ixs nodes" ?cs ts] by blast+
  have "i \<notin> subtree_ixs nodes c" if "c \<in> set ?cs" for c
  proof
    assume "i \<in> subtree_ixs nodes c"
    then have "below nodes c i" by (simp add: subtree_ixs_def)
    from below_depth [OF this d [OF that]] obtain e where "at_depth nodes i (Suc d + e)" by blast
    from at_depth_unique [OF this Suc.prems(2)] show False by simp
  qed
  moreover note subtree_ixs_unfold [OF Suc.prems(3)]
  ultimately show ?case using cs t(1) by auto
qed simp

text \<open>The nodes that hang off a root: exactly those that have a depth.\<close>

definition rooted :: "RunNode list \<Rightarrow> nat \<Rightarrow> bool" where
  "rooted nodes i \<longleftrightarrow> (\<exists>d. at_depth nodes i d)"

lemma rooted_below:
  "at_depth nodes j d \<Longrightarrow> j < length nodes \<Longrightarrow> \<exists>r \<in> set (roots_of nodes). below nodes r j"
proof (induction rule: at_depth.induct)
  case (root i)
  then show ?case by (auto simp: roots_of_def intro: below.self)
next
  case (child i p d)
  with parent_of_SomeD [OF child.hyps(1)] obtain r where "r \<in> set (roots_of nodes)" "below nodes r p"
    by auto
  with child.hyps(1) show ?case by (blast intro: below.step)
qed

lemma index_forest_preorder:
  assumes "index_forest nodes = Some ts"
  shows "distinct (concat (map preorder ts)) \<and>
    set (concat (map preorder ts)) = {i. i < length nodes \<and> rooted nodes i}"
proof -
  let ?rs = "roots_of nodes"
  have r0: "r < length nodes" "at_depth nodes r 0" if "r \<in> set ?rs" for r
    using that by (auto simp: roots_of_def intro: at_depth.root)
  have "list_all2 (\<lambda>c t. distinct (preorder t) \<and> set (preorder t) = subtree_ixs nodes c) ?rs ts"
    using assms unfolding index_forest_eq by (rule those_reify) (use reify_preorder r0 in blast)
  moreover have "distinct ?rs" by (simp add: roots_of_def)
  moreover have "subtree_ixs nodes c \<inter> subtree_ixs nodes c' = {}"
    if "c \<in> set ?rs" "c' \<in> set ?rs" "c \<noteq> c'" for c c'
    using that below_unique r0 by (fastforce simp: subtree_ixs_def)
  ultimately have "distinct (concat (map preorder ts)) \<and>
      set (concat (map preorder ts)) = (\<Union>r \<in> set ?rs. subtree_ixs nodes r)"
    by (rule concat_preorder)
  moreover have "(\<Union>r \<in> set ?rs. subtree_ixs nodes r) = {i. i < length nodes \<and> rooted nodes i}"
    using rooted_below below_depth r0 by (fastforce simp: subtree_ixs_def rooted_def)
  ultimately show ?thesis by simp
qed

text \<open>A log in arrival order: a parent that is in the log comes before its children.\<close>

definition parents_first :: "RunNode list \<Rightarrow> bool" where
  "parents_first nodes \<longleftrightarrow>
     list_all (\<lambda>i. case parent_of nodes i of None \<Rightarrow> True | Some p \<Rightarrow> p < i) [0..<length nodes]"

lemma parents_first_rooted: "parents_first nodes \<Longrightarrow> i < length nodes \<Longrightarrow> rooted nodes i"
proof (induction i rule: less_induct)
  case (less i)
  show ?case
  proof (cases "parent_of nodes i")
    case None
    then show ?thesis using at_depth.root by (auto simp: rooted_def)
  next
    case (Some p)
    with less.prems have "p < i" by (auto simp: parents_first_def list_all_iff dest: bspec [of _ _ i])
    with less Some show ?thesis by (auto simp: rooted_def intro: at_depth.child)
  qed
qed

lemma preorder_map_tree: "preorder (map_tree f t) = map f (preorder t)"
  by (induction t) (simp add: map_concat comp_def cong: map_cong)

lemma buildTree_preorder:
  assumes "index_forest nodes = Some is" "buildTree nodes = Some ts"
  shows "concat (map preorder ts) = map (\<lambda>i. nodes ! i) (concat (map preorder is))"
  using assms by (auto simp: buildTree_def map_concat comp_def preorder_map_tree)

lemma buildTree_total: "\<exists>ts. buildTree nodes = Some ts"
  using index_forest_total [of nodes] by (auto simp: buildTree_def)

lemma buildTree_mset:
  assumes "buildTree nodes = Some ts"
  shows "mset (concat (map preorder ts)) = mset (map (\<lambda>i. nodes ! i) (filter (rooted nodes) [0..<length nodes]))"
proof -
  obtain "is" where ixs: "index_forest nodes = Some is" using index_forest_total by blast
  let ?l = "concat (map preorder is)" and ?r = "filter (rooted nodes) [0..<length nodes]"
  from index_forest_preorder [OF ixs] have "distinct ?l" "set ?l = set ?r" by auto
  then have "mset ?l = mset ?r" by (subst set_eq_iff_mset_eq_distinct [symmetric]) simp_all
  then have "mset (map (\<lambda>i. nodes ! i) ?l) = mset (map (\<lambda>i. nodes ! i) ?r)" by (metis mset_map)
  then show ?thesis using buildTree_preorder [OF ixs assms] by simp
qed

text \<open>Every child hangs under the node its \<open>parent_id\<close> names, and siblings keep the log's order.\<close>

fun well_nested :: "RunNode list \<Rightarrow> RunNode tree \<Rightarrow> bool" where
  "well_nested nodes (TreeNode n ts) \<longleftrightarrow>
     subseq (map node ts) nodes \<and>
     list_all (\<lambda>t. parent_id (node t) = Some (node_id n) \<and> well_nested nodes t) ts"

lemma node_reify: "reify f kids i = Some t \<Longrightarrow> node t = i"
  by (cases f) (auto split: option.splits)

lemma node_those: "those (map (reify f kids) cs) = Some ts \<Longrightarrow> map node ts = cs"
  unfolding those_Some
  by (induction cs arbitrary: ts) (auto simp: Cons_eq_map_conv dest: node_reify [OF sym] node_reify)

lemma node_map_tree [simp]: "node (map_tree g t) = g (node t)"
  by (cases t) simp

lemma subseq_filter_nth: "subseq (map (\<lambda>i. xs ! i) (filter P [0..<length xs])) xs"
  using subseq_map [OF subseq_filter_left [of P "[0..<length xs]"], of "\<lambda>i. xs ! i"] by (simp add: map_nth)

lemma reify_well_nested:
  "reify f (kids_of nodes) i = Some t \<Longrightarrow> well_nested nodes (map_tree (\<lambda>i. nodes ! i) t)"
proof (induction f arbitrary: i t)
  case (Suc f)
  let ?g = "\<lambda>i. nodes ! i"
  from Suc.prems obtain ts where t: "t = TreeNode i ts"
      and ts: "those (map (reify f (kids_of nodes)) (kids_of nodes i)) = Some ts"
    by (auto split: option.splits)
  have "map node (map (map_tree ?g) ts) = map ?g (kids_of nodes i)"
    by (simp add: comp_def flip: node_those [OF ts])
  then have "subseq (map node (map (map_tree ?g) ts)) nodes"
    using subseq_filter_nth [of nodes "\<lambda>c. parent_of nodes c = Some i"] by (simp add: kids_of_def)
  moreover have "list_all2 (\<lambda>c u. parent_id (nodes ! node u) = Some (node_id (nodes ! i)) \<and>
      well_nested nodes (map_tree ?g u)) (kids_of nodes i) ts"
    using ts by (rule those_reify) (auto simp: kids_of_def dest: parent_of_SomeD node_reify intro: Suc.IH)
  then have "list_all (\<lambda>u. parent_id (nodes ! node u) = Some (node_id (nodes ! i)) \<and>
      well_nested nodes (map_tree ?g u)) ts"
    by (induction rule: list_all2_induct) auto
  ultimately show ?case using t by (simp add: list_all_iff)
qed simp

lemma buildTree_nested:
  assumes "buildTree nodes = Some ts"
  shows "list_all (well_nested nodes) ts \<and> map node ts = map (\<lambda>i. nodes ! i) (roots_of nodes)"
proof -
  obtain "is" where ixs: "index_forest nodes = Some is" using index_forest_total by blast
  then have ts: "ts = map (map_tree (\<lambda>i. nodes ! i)) is" using assms by (simp add: buildTree_def)
  from ixs have those: "those (map (reify (length nodes) (kids_of nodes)) (roots_of nodes)) = Some is"
    by (simp add: index_forest_eq)
  have "list_all2 (\<lambda>c u. well_nested nodes (map_tree (\<lambda>i. nodes ! i) u)) (roots_of nodes) is"
    using those by (rule those_reify) (rule reify_well_nested)
  then have "list_all (\<lambda>u. well_nested nodes (map_tree (\<lambda>i. nodes ! i) u)) is"
    by (induction rule: list_all2_induct) auto
  then show ?thesis using ts by (simp add: list_all_iff comp_def flip: node_those [OF those])
qed

lemma buildTree_complete:
  assumes "parents_first nodes" "buildTree nodes = Some ts"
  shows "mset (concat (map preorder ts)) = mset nodes"
proof -
  have "filter (rooted nodes) [0..<length nodes] = [0..<length nodes]"
    using parents_first_rooted [OF assms(1)] by (simp add: filter_id_conv)
  then show ?thesis using buildTree_mset [OF assms(2)] by (simp add: map_nth)
qed

section \<open>The answer text\<close>

definition answer_blocks :: "RunNode list \<Rightarrow> jstring list" where
  "answer_blocks nodes =
     filter (\<lambda>s. s \<noteq> [])
       (map (\<lambda>n. trim (case node_text n of Some t \<Rightarrow> t | None \<Rightarrow> []))
         (filter (\<lambda>n. node_type n = TextKind \<and> \<not> has_parent_id n) nodes))"

lemma answerText_blocks: "answerText nodes = join [0xA, 0xA] (answer_blocks nodes)"
  by (simp add: answerText_def answer_blocks_def)

lemma answer_blocks_trimmed: "s \<in> set (answer_blocks nodes) \<Longrightarrow> s \<noteq> [] \<and> trim s = s"
  by (auto simp: answer_blocks_def)

lemma join_trimmed:
  "ss \<noteq> [] \<Longrightarrow> (\<And>s. s \<in> set ss \<Longrightarrow> s \<noteq> [] \<and> trim s = s) \<Longrightarrow>
   join sep ss \<noteq> [] \<and> \<not> is_ws (hd (join sep ss)) \<and> \<not> is_ws (last (join sep ss))"
proof (induction sep ss rule: join.induct)
  case (2 sep s)
  then show ?case using hd_trim [of s] last_trim [of s] by simp
next
  case (3 sep s t ts)
  then have "s \<noteq> []" "trim s = s" by auto
  with 3 show ?case using hd_trim [of s] by auto
qed simp

lemma answer_blocks_append:
  "answer_blocks (xs @ ys) = answer_blocks xs @ answer_blocks ys"
  by (simp add: answer_blocks_def)

lemma join_append: "xs \<noteq> [] \<Longrightarrow> ys \<noteq> [] \<Longrightarrow> join sep (xs @ ys) = join sep xs @ sep @ join sep ys"
  by (induction sep xs rule: join.induct) (auto simp: join_Cons)

lemma answerText_eq_Nil: "answerText nodes = [] \<longleftrightarrow> answer_blocks nodes = []"
  using join_trimmed [of "answer_blocks nodes" "[0xA, 0xA]"] answer_blocks_trimmed [of _ nodes]
  by (auto simp: answerText_blocks)

lemma answerText_trimmed: "trim (answerText nodes) = answerText nodes"
  using join_trimmed [of "answer_blocks nodes" "[0xA, 0xA]"] answer_blocks_trimmed [of _ nodes]
  by (cases "answer_blocks nodes = []") (auto simp: answerText_blocks intro: trim_id)

lemma answerText_append:
  "answerText (xs @ ys) =
     (if answerText xs = [] then answerText ys
      else if answerText ys = [] then answerText xs
      else answerText xs @ [0xA, 0xA] @ answerText ys)"
  by (simp add: answerText_eq_Nil) (simp add: answerText_blocks answer_blocks_append join_append)

section \<open>The plan\<close>

definition plans :: "RunNode list \<Rightarrow> PlanTodo list list" where
  "plans nodes = List.map_filter planFromNode (filter (\<lambda>n. node_name n = Some (js ''set_todos'')) nodes)"

lemma latestPlan_snoc:
  "latestPlan (nodes @ [n]) =
     (if node_name n \<noteq> Some (js ''set_todos'') then latestPlan nodes
      else case planFromNode n of Some next \<Rightarrow> Some next | None \<Rightarrow> latestPlan nodes)"
  by (simp add: latestPlan_def split: option.splits)

lemma latestPlan_plans: "latestPlan nodes = (if plans nodes = [] then None else Some (last (plans nodes)))"
proof (induction nodes rule: rev_induct)
  case Nil
  then show ?case by (simp add: latestPlan_def plans_def List.map_filter_simps)
next
  case (snoc n nodes)
  have "plans (nodes @ [n]) = plans nodes @
      (if node_name n = Some (js ''set_todos'') then (case planFromNode n of Some p \<Rightarrow> [p] | None \<Rightarrow> []) else [])"
    by (simp add: plans_def List.map_filter_def split: option.splits)
  with snoc show ?case by (simp add: latestPlan_snoc split: option.splits)
qed

lemma coercePlan_nonempty: "coercePlan v = Some plan \<Longrightarrow> plan \<noteq> []"
  by (auto simp: coercePlan_def Let_def split: if_splits option.splits jsval.splits json.splits)

lemma planFromNode_nonempty: "planFromNode n = Some plan \<Longrightarrow> plan \<noteq> []"
  by (auto simp: planFromNode_def dest: coercePlan_nonempty split: option.splits jsval.splits json.splits)

lemma latestPlan_nonempty: "latestPlan nodes = Some plan \<Longrightarrow> plan \<noteq> []"
proof (induction nodes arbitrary: plan rule: rev_induct)
  case Nil
  then show ?case by (simp add: latestPlan_def)
next
  case (snoc n nodes)
  then show ?case by (auto simp: latestPlan_snoc dest: planFromNode_nonempty split: if_splits option.splits)
qed

text \<open>The JSON of a plan, as the agent's \<open>set_todos\<close> tool carries it in its input and output.\<close>

fun progress_text :: "PlanProgress \<Rightarrow> jstring" where
  "progress_text Completed = js ''completed''"
| "progress_text InProgress = js ''in progress''"
| "progress_text Outstanding = js ''outstanding''"

definition todo_json :: "PlanTodo \<Rightarrow> json" where
  "todo_json t = JObj [(js ''description'', JStr (description t)), (js ''progress'', JStr (progress_text (progress t)))]"

definition plan_json :: "PlanTodo list \<Rightarrow> json" where
  "plan_json plan = JObj [(js ''todos'', JArr (map todo_json plan))]"

lemma PROGRESS_text: "map_of PROGRESS (progress_text p) = Some p"
  by (cases p) (simp_all add: PROGRESS_def)

lemma coerceTodo_json: "coerceTodo (todo_json t) = Some t"
  by (simp add: coerceTodo_def todo_json_def PROGRESS_text)

lemma coercePlan_json: "plan \<noteq> [] \<Longrightarrow> coercePlan (Json (plan_json plan)) = Some plan"
  by (simp add: coercePlan_def plan_json_def List.map_filter_def coerceTodo_json comp_def)

lemma key_index_names [simp]:
  "key_index (js ''description'') = None" "key_index (js ''progress'') = None" "key_index (js ''todos'') = None"
  by (simp_all add: key_index_def js_text is_digit_def)

lemma canonical_todo: "canonical (todo_json t)"
  by (simp add: todo_json_def obj_put_def)

lemma canonical_plan: "canonical (plan_json plan)"
  by (simp add: plan_json_def obj_put_def list_all_iff canonical_todo)

lemma planFromNode_output:
  "coercePlan (node_input n) = None \<Longrightarrow> node_output n = Json (JStr (JSON_stringify (plan_json plan))) \<Longrightarrow>
   plan \<noteq> [] \<Longrightarrow> planFromNode n = Some plan"
  by (simp add: planFromNode_def JSON_parse_stringify canonical_plan coercePlan_json)


section \<open>Properties\<close>

text \<open>
  C26: \<open>buildTree\<close> returns for every node list. The forest holds each node whose parent chain
  ends exactly once and no other node (a node on a parent cycle, or below one, is dropped); every
  child hangs under the node its \<open>parent_id\<close> names; roots and siblings keep the array order.
\<close>

theorem buildTree_forest:
  "\<exists>ts. buildTree nodes = Some ts \<and>
     mset (concat (map preorder ts)) = mset (map (\<lambda>i. nodes ! i) (filter (rooted nodes) [0..<length nodes])) \<and>
     list_all (well_nested nodes) ts \<and>
     map node ts = map (\<lambda>i. nodes ! i) (filter (\<lambda>i. parent_of nodes i = None) [0..<length nodes])"
proof -
  obtain ts where "buildTree nodes = Some ts" using buildTree_total by blast
  with buildTree_mset [OF this] buildTree_nested [OF this] show ?thesis by (simp add: roots_of_def)
qed

text \<open>
  On a log in arrival order (a parent that is in the log precedes its children, as the
  stream delivers them) the timeline loses no node and shows none twice.
\<close>

theorem buildTree_lossless:
  assumes "parents_first nodes"
  shows "\<exists>ts. buildTree nodes = Some ts \<and> mset (concat (map preorder ts)) = mset nodes"
  using buildTree_total [of nodes] buildTree_complete [OF assms] by blast

definition demo_node :: "string \<Rightarrow> string option \<Rightarrow> node_kind \<Rightarrow> RunNode" where
  "demo_node i p k = \<lparr>node_id = js i, parent_id = map_option js p, node_type = k, node_text = Some (js i),
     node_name = None, node_input = Undefined, node_output = Undefined\<rparr>"

definition demo_log :: "RunNode list" where
  "demo_log = [demo_node ''r1'' None Reasoning, demo_node ''SA'' None Tool,
     demo_node ''s1'' (Some ''SA'') Tool, demo_node ''t'' None TextKind]"

lemma parents_first_demo: "parents_first demo_log"
  by code_simp

theorem buildTree_lossless_witness:
  "\<exists>ts. buildTree demo_log = Some ts \<and> mset (concat (map preorder ts)) = mset demo_log"
  by (rule buildTree_lossless [OF parents_first_demo])

text \<open>
  The answer text of a log is the answer texts of its parts with a blank line between them,
  empty parts left out, and it never starts or ends with white space.
\<close>

theorem answerText_concat:
  "answerText (xs @ ys) =
     (if answerText xs = [] then answerText ys
      else if answerText ys = [] then answerText xs
      else answerText xs @ [0xA, 0xA] @ answerText ys) \<and>
   trim (answerText xs) = answerText xs"
  using answerText_append answerText_trimmed by blast

text \<open>
  \<open>latestPlan\<close> is the last valid, non-empty plan among the \<open>set_todos\<close> nodes, or null when
  there is none: a later malformed node never clobbers an earlier valid plan.
\<close>

theorem latestPlan_last:
  "latestPlan nodes = (if plans nodes = [] then None else Some (last (plans nodes))) \<and>
   (\<exists>plan. latestPlan nodes = Some plan \<and> plan \<noteq> []) = (plans nodes \<noteq> [])"
  using latestPlan_plans [of nodes] latestPlan_nonempty [of nodes] by auto

text \<open>
  A \<open>set_todos\<close> node without a readable input, whose output is the JSON text of a plan, gives
  back exactly that plan.
\<close>

theorem latestPlan_output_roundtrip:
  assumes "node_name n = Some (js ''set_todos'')" and "coercePlan (node_input n) = None"
    and "node_output n = Json (JStr (JSON_stringify (plan_json plan)))" and "plan \<noteq> []"
  shows "latestPlan (nodes @ [n]) = Some plan"
  using assms planFromNode_output by (simp add: latestPlan_snoc)

definition demo_plan :: "PlanTodo list" where
  "demo_plan = [\<lparr>description = js ''x'', progress = Outstanding\<rparr>]"

definition demo_plan_node :: RunNode where
  "demo_plan_node = (demo_node ''p'' None Tool)\<lparr>node_name := Some (js ''set_todos''),
     node_output := Json (JStr (JSON_stringify (plan_json demo_plan)))\<rparr>"

theorem latestPlan_output_roundtrip_witness: "latestPlan (demo_log @ [demo_plan_node]) = Some demo_plan"
  by (rule latestPlan_output_roundtrip)
    (simp_all add: demo_plan_node_def demo_node_def demo_plan_def coercePlan_def)

text \<open>
  The one-line digest of a tool input with several fields is its JSON text, from which the
  input can be read back unchanged.
\<close>

theorem inputDetail_roundtrip:
  assumes "canonical v" and "1 < length (object_values v)"
  shows "JSON_parse (inputDetail (Json v)) = Some v"
proof -
  from assms(2) obtain x y zs where "object_values v = x # y # zs"
    by (cases "object_values v" rule: remdups_adj.cases) auto
  moreover from this have "v \<noteq> JNull" "typeof_object (Json v)" by (cases v; simp)+
  ultimately have "inputDetail (Json v) = JSON_stringify v" by (simp add: inputDetail_def)
  then show ?thesis using JSON_parse_stringify [OF assms(1)] by simp
qed

theorem inputDetail_roundtrip_witness:
  "JSON_parse (inputDetail (Json (JArr [JStr (js ''a''), JNum (Fin 2)]))) = Some (JArr [JStr (js ''a''), JNum (Fin 2)])"
  by (rule inputDetail_roundtrip) simp_all

text \<open>
  A tool label is a string unless the tool's name is that of an \<open>Object.prototype\<close> member,
  for which the table lookup finds the inherited member and the fallback to the raw name is lost.
\<close>

theorem toolLabel_string_iff: "(\<exists>l. toolLabel name = Label l) \<longleftrightarrow> name \<notin> js ` set object_prototype"
proof -
  have "map_of (map (\<lambda>(k, v). (js k, js v)) TOOL_LABELS) name = None"
    if "name \<in> js ` set object_prototype"
    using that by (auto simp: TOOL_LABELS_def object_prototype_def)
  then show ?thesis by (auto simp: toolLabel_def split: option.splits)
qed

end
