(* ===== verification/SendMessage.thy ===== *)
theory SendMessage
  imports Api Sse RunLog
begin

text \<open>
  \<open>sendMessage\<close> of \<open>web/src/lib/api.ts\<close>: the POST, the reading loop over the response body
  (\<open>TextDecoder\<close>, buffer, \<open>parseSSE\<close>, \<open>JSON.parse\<close>) and the calls of the six handlers, as a list
  of calls in order and the exception the promise rejects with, if any. The lemmas show that the
  calls depend on the bytes of the stream only, not on how the network cuts them, and that the
  frames the API writes arrive as the calls they stand for.
\<close>

section \<open>Dispatching an event\<close>

text \<open>A handler call with the values read off the payload (which the source casts, unchecked).\<close>

datatype handler_call =
    OnNode jsval
  | OnDelta jsval jsval
  | OnNodeEnd jsval jsval
  | OnDone jsval
  | OnTitle jsval
  | OnError jsval

text \<open>\<open>ev.data ? JSON.parse(ev.data) : {}\<close>.\<close>

definition payload_of :: "SSEEvent \<Rightarrow> exn + jsval" where
  "payload_of ev =
     (if data ev = [] then Inr (Json (JObj []))
      else case JSON_parse (data ev) of None \<Rightarrow> Inl SyntaxError | Some v \<Rightarrow> Inr (Json v))"

text \<open>One property of the payload, or two in order; \<open>null\<close> has none.\<close>

definition read1 :: "(jsval \<Rightarrow> handler_call) \<Rightarrow> string \<Rightarrow> jsval \<Rightarrow> exn + handler_call list" where
  "read1 h k p = (case get_prop (js k) p of None \<Rightarrow> Inl TypeError | Some v \<Rightarrow> Inr [h v])"

definition read2 :: "(jsval \<Rightarrow> jsval \<Rightarrow> handler_call) \<Rightarrow> string \<Rightarrow> string \<Rightarrow> jsval \<Rightarrow> exn + handler_call list" where
  "read2 h k l p =
     (case get_prop (js k) p of
        None \<Rightarrow> Inl TypeError
      | Some v \<Rightarrow> (case get_prop (js l) p of None \<Rightarrow> Inl TypeError | Some w \<Rightarrow> Inr [h v w]))"

definition dispatch :: "SSEEvent \<Rightarrow> exn + handler_call list" where
  "dispatch ev =
     (case payload_of ev of
        Inl e \<Rightarrow> Inl e
      | Inr payload \<Rightarrow>
          if event ev = js ''node'' then Inr [OnNode payload]
          else if event ev = js ''delta'' then read2 OnDelta ''id'' ''text'' payload
          else if event ev = js ''node_end'' then read2 OnNodeEnd ''id'' ''output'' payload
          else if event ev = js ''done'' then read1 OnDone ''message_id'' payload
          else if event ev = js ''title'' then read1 OnTitle ''title'' payload
          else if event ev = js ''error'' then read1 OnError ''error'' payload
          else Inr [])"

section \<open>The reading loop\<close>

text \<open>Handler calls made before the first exception, and the exception.\<close>

type_synonym outcome = "handler_call list \<times> exn option"

definition and_then :: "outcome \<Rightarrow> outcome \<Rightarrow> outcome" where
  "and_then a b = (case snd a of Some e \<Rightarrow> a | None \<Rightarrow> (fst a @ fst b, snd b))"

fun run_events :: "SSEEvent list \<Rightarrow> outcome" where
  "run_events [] = ([], None)"
| "run_events (ev # evs) =
     (case dispatch ev of Inl e \<Rightarrow> ([], Some e) | Inr calls \<Rightarrow> and_then (calls, None) (run_events evs))"

text \<open>\<open>for (;;)\<close> over \<open>reader.read()\<close>: the end of the list is \<open>done\<close>.\<close>

fun read_loop :: "utf8_state \<Rightarrow> jstring \<Rightarrow> chunk list \<Rightarrow> outcome" where
  "read_loop decoder buffer [] = ([], None)"
| "read_loop decoder buffer (ReadError e # cs) = ([], Some e)"
| "read_loop decoder buffer (Chunk value # cs) =
     (let (text, decoder') = decode decoder value;
          (events, rest) = parseSSE (buffer @ text)
      in and_then (run_events events) (read_loop decoder' rest cs))"

definition sendMessage_request :: "jstring \<Rightarrow> RequestInit" where
  "sendMessage_request content =
     \<lparr>init_method = js ''POST'', init_headers = [js ''Content-Type'' \<mapsto> js ''application/json''],
      init_body = Some (JSON_stringify (JObj [(js ''content'', JStr content)]))\<rparr>"

text \<open>The catch: an abort is not a failure.\<close>

definition swallow_abort :: "outcome \<Rightarrow> outcome" where
  "swallow_abort r = (if snd r = Some AbortError then (fst r, None) else r)"

definition sendMessage :: "env \<Rightarrow> int \<Rightarrow> jstring \<Rightarrow> client \<Rightarrow> outcome \<times> client" where
  "sendMessage E i content st =
     (let (r, st1) = authFetch E (conversation_path i @ js ''/messages'') (sendMessage_request content) st
      in (swallow_abort
            (case r of
               Inl e \<Rightarrow> ([], Some e)
             | Inr res \<Rightarrow>
                 (case stream res of
                    None \<Rightarrow> ([OnError (errorMessage res)], None)
                  | Some pieces \<Rightarrow>
                      if \<not> ok res then ([OnError (errorMessage res)], None)
                      else read_loop utf8_init [] pieces)),
          st1))"

section \<open>Independence of the chunks\<close>

lemma and_then_simps [simp]:
  "and_then ([], None) b = b" "and_then a ([], None) = a"
  "and_then (calls, Some e) b = (calls, Some e)"
  "and_then (and_then a b) c = and_then a (and_then b c)"
  by (auto simp: and_then_def prod_eq_iff split: option.splits)

lemma run_events_append: "run_events (xs @ ys) = and_then (run_events xs) (run_events ys)"
  by (induction xs) (auto split: sum.splits)

text \<open>All text of a list of byte pieces, decoded as one stream.\<close>

abbreviation texts :: "utf8_state \<Rightarrow> byte list list \<Rightarrow> jstring" where
  "texts d cs \<equiv> fst (decode d (concat cs))"

lemma read_loop_chunks:
  "parseSSE buf = ([], buf) \<Longrightarrow>
   read_loop d buf (map Chunk cs @ tail) =
     and_then (run_events (fst (parseSSE (buf @ texts d cs))))
       (read_loop (snd (decode d (concat cs))) (snd (parseSSE (buf @ texts d cs))) tail)"
proof (induction cs arbitrary: d buf)
  case Nil
  then show ?case by simp
next
  case (Cons c cs)
  let ?t = "fst (decode d c)" and ?d = "snd (decode d c)"
  let ?evs = "fst (parseSSE (buf @ ?t))" and ?r = "snd (parseSSE (buf @ ?t))"
  have "parseSSE ?r = ([], ?r)" by (rule sse.decode_rest)
  from Cons.IH [OF this, of ?d] show ?case
    using parseSSE_append [of "buf @ ?t" "texts ?d cs"]
    by (simp add: decode_append case_prod_beta Let_def run_events_append)
qed

text \<open>The whole stream at once: what the loop computes.\<close>

lemma read_loop_whole:
  "read_loop utf8_init [] (map Chunk cs) = run_events (fst (parseSSE (texts utf8_init cs)))"
  using read_loop_chunks [of "[]" utf8_init cs "[]"] by simp

lemma read_loop_failed:
  "read_loop utf8_init [] (map Chunk cs @ ReadError e # rest) =
     and_then (run_events (fst (parseSSE (texts utf8_init cs)))) ([], Some e)"
  using read_loop_chunks [of "[]" utf8_init cs "ReadError e # rest"] by simp

text \<open>
  C5: The handler calls, their order and the exception of a turn depend on the bytes received,
  not on where the network cut them: not inside a character, not inside a frame, not at a blank
  line. This also holds when the connection fails after the same bytes.
\<close>

theorem read_loop_cut_independent:
  assumes "concat cs = concat ds"
  shows "read_loop utf8_init [] (map Chunk cs) = read_loop utf8_init [] (map Chunk ds) \<and>
     read_loop utf8_init [] (map Chunk cs @ [ReadError e]) = read_loop utf8_init [] (map Chunk ds @ [ReadError e])"
  by (simp add: read_loop_whole read_loop_failed assms)

theorem read_loop_cut_independent_witness:
  "let bytes = map byte_of [101, 118, 101, 110, 116, 58, 32, 120, 10, 10] in
   read_loop utf8_init [] [Chunk (take 9 bytes), Chunk (drop 9 bytes)] = read_loop utf8_init [] [Chunk bytes]"
  using read_loop_cut_independent [of "[take 9 (map byte_of [101, 118, 101, 110, 116, 58, 32, 120, 10, 10]),
      drop 9 (map byte_of [101, 118, 101, 110, 116, 58, 32, 120, 10, 10])]"
      "[map byte_of [101, 118, 101, 110, 116, 58, 32, 120, 10, 10]]"]
  by simp

section \<open>The turn the server describes\<close>

text \<open>The events of a turn as the type declarations describe them.\<close>

datatype turn_event =
    Node RunNode
  | Delta jstring jstring
  | NodeEnd jstring jsval
  | Done int
  | Title jstring
  | Error jstring

fun kind_name :: "node_kind \<Rightarrow> jstring" where
  "kind_name Reasoning = js ''reasoning''"
| "kind_name TextKind = js ''text''"
| "kind_name Tool = js ''tool''"
| "kind_name Compaction = js ''compaction''"
| "kind_name (OtherKind s) = s"

definition kind_of :: "jstring \<Rightarrow> node_kind" where
  "kind_of s =
     (if s = js ''reasoning'' then Reasoning else if s = js ''text'' then TextKind
      else if s = js ''tool'' then Tool else if s = js ''compaction'' then Compaction else OtherKind s)"

definition member :: "string \<Rightarrow> jsval \<Rightarrow> (jstring \<times> json) list" where
  "member k v = (case v of Undefined \<Rightarrow> [] | Json x \<Rightarrow> [(js k, x)])"

definition optional :: "string \<Rightarrow> jstring option \<Rightarrow> (jstring \<times> json) list" where
  "optional k s = (case s of None \<Rightarrow> [] | Some t \<Rightarrow> [(js k, JStr t)])"

definition node_json :: "RunNode \<Rightarrow> json" where
  "node_json n =
     JObj ([(js ''id'', JStr (node_id n)),
            (js ''parent_id'', case parent_id n of None \<Rightarrow> JNull | Some p \<Rightarrow> JStr p),
            (js ''type'', JStr (kind_name (node_type n)))] @
           optional ''text'' (node_text n) @ optional ''name'' (node_name n) @
           member ''input'' (node_input n) @ member ''output'' (node_output n))"

fun event_name :: "turn_event \<Rightarrow> jstring" where
  "event_name (Node _) = js ''node''"
| "event_name (Delta _ _) = js ''delta''"
| "event_name (NodeEnd _ _) = js ''node_end''"
| "event_name (Done _) = js ''done''"
| "event_name (Title _) = js ''title''"
| "event_name (Error _) = js ''error''"

fun event_payload :: "turn_event \<Rightarrow> json" where
  "event_payload (Node n) = node_json n"
| "event_payload (Delta i t) = JObj [(js ''id'', JStr i), (js ''text'', JStr t)]"
| "event_payload (NodeEnd i out) = JObj ((js ''id'', JStr i) # member ''output'' out)"
| "event_payload (Done m) = JObj [(js ''message_id'', JNum (Fin (of_int m)))]"
| "event_payload (Title t) = JObj [(js ''title'', JStr t)]"
| "event_payload (Error m) = JObj [(js ''error'', JStr m)]"

text \<open>
  A frame that stands for the event: its data is one trimmed line of JSON with the event's
  payload, in any encoder's spelling.
\<close>

definition stands_for :: "SSEEvent \<Rightarrow> turn_event \<Rightarrow> bool" where
  "stands_for ev te \<longleftrightarrow>
     event ev = event_name te \<and> NL \<notin> set (data ev) \<and> trim (data ev) = data ev \<and>
     JSON_parse (data ev) = Some (event_payload te)"

fun call_of :: "turn_event \<Rightarrow> handler_call" where
  "call_of (Node n) = OnNode (Json (node_json n))"
| "call_of (Delta i t) = OnDelta (Json (JStr i)) (Json (JStr t))"
| "call_of (NodeEnd i out) = OnNodeEnd (Json (JStr i)) out"
| "call_of (Done m) = OnDone (Json (JNum (Fin (of_int m))))"
| "call_of (Title t) = OnTitle (Json (JStr t))"
| "call_of (Error m) = OnError (Json (JStr m))"

lemma JSON_parse_Nil [simp]: "JSON_parse [] = None"
  by (simp add: JSON_parse_def skip_ws_def)

lemma dispatch_stands_for: "stands_for ev te \<Longrightarrow> dispatch ev = Inr [call_of te]"
proof -
  assume *: "stands_for ev te"
  then have "data ev \<noteq> []" by (auto simp: stands_for_def)
  with * show ?thesis
    by (cases te)
      (auto simp: stands_for_def dispatch_def payload_of_def read1_def read2_def member_def split: jsval.splits)
qed

lemma run_events_stands_for:
  "list_all2 stands_for evs tes \<Longrightarrow> run_events evs = (map call_of tes, None)"
  by (induction rule: list_all2_induct) (simp_all add: dispatch_stands_for and_then_def)

lemma event_name_safe:
  "event_name te \<noteq> []" "NL \<notin> set (event_name te)" "trim (event_name te) = event_name te"
proof -
  show "event_name te \<noteq> []" "NL \<notin> set (event_name te)" by (cases te; simp add: js_text)+
  show "trim (event_name te) = event_name te"
    by (rule trim_id) (cases te; simp add: js_text is_ws_def)
qed

lemma stands_for_line_safe: "stands_for ev te \<Longrightarrow> line_safe ev"
  by (simp add: stands_for_def line_safe_def event_name_safe)

lemma utf16_BOM: "utf16 0xFEFF = [0xFEFF]"
  by (simp add: utf16_def)

lemma utf16_not_Nil [simp]: "utf16 cp \<noteq> []"
  by (simp add: utf16_def)

lemma stream_delivers:
  assumes frames: "list_all2 stands_for evs tes"
    and units: "concat (map utf16 cps) = frames_text (map write_frame evs)" and "list_all scalar cps"
    and bytes: "concat cs = concat (map utf8_encode cps)"
  shows "read_loop utf8_init [] (map Chunk cs) = (map call_of tes, None)"
proof -
  have "cps = [] \<or> hd cps \<noteq> 0xFEFF"
  proof (cases cps)
    case (Cons cp rest)
    then obtain ev evs' where "evs = ev # evs'" using units by (cases evs) (auto simp: frames_text_def)
    then have "hd (concat (map utf16 cps)) = 0x65"
      by (simp add: units frames_text_def write_frame_def js_text)
    with Cons show ?thesis by (auto simp: utf16_BOM)
  qed simp
  with assms have "texts utf8_init cs = frames_text (map write_frame evs)"
    using decode_encode [of cps] by simp
  moreover have "list_all line_safe evs"
    using frames by (induction rule: list_all2_induct) (simp_all add: stands_for_line_safe)
  ultimately show ?thesis
    by (simp add: read_loop_whole parseSSE_write run_events_stands_for [OF frames])
qed

text \<open>
  C21: A stream whose bytes are the UTF-8 form of the frames of a turn, cut in any way, makes
  exactly the handler calls of the turn's events, in order, each with the event's fields, and
  the loop ends without an exception.
\<close>

theorem stream_delivers_turn:
  assumes frames: "list_all2 stands_for evs tes"
    and units: "concat (map utf16 cps) = frames_text (map write_frame evs)" and "list_all scalar cps"
    and bytes: "concat cs = concat (map utf8_encode cps)"
  shows "read_loop utf8_init [] (map Chunk cs) = (map call_of tes, None)"
  using assms by (rule stream_delivers)

text \<open>A turn with one title event, received byte by byte.\<close>

definition demo_event :: SSEEvent where
  "demo_event = \<lparr>event = js ''title'', data = JSON_stringify (JObj [(js ''title'', JStr (js ''Hi''))])\<rparr>"

definition demo_text :: jstring where
  "demo_text = frames_text (map write_frame [demo_event])"

lemma demo_data: "data demo_event = js (''{'' @ [CHR 0x22] @ ''title'' @ [CHR 0x22] @ '':'' @ [CHR 0x22] @ ''Hi'' @ [CHR 0x22] @ ''}'')"
  by (simp add: demo_event_def JSON_stringify_def quote_def escape_unit_def js_text is_high_def is_low_def)

lemma demo_stands_for: "stands_for demo_event (Title (js ''Hi''))"
proof -
  have "canonical (JObj [(js ''title'', JStr (js ''Hi''))])" by (simp add: obj_put_def key_index_def js_text)
  then have "JSON_parse (data demo_event) = Some (event_payload (Title (js ''Hi'')))"
    by (simp add: demo_event_def JSON_parse_stringify)
  moreover have "trim (data demo_event) = data demo_event"
    by (rule trim_id) (simp add: demo_data js_text is_ws_def)
  moreover have "NL \<notin> set (data demo_event)" by (simp add: demo_data js_text)
  ultimately show ?thesis by (simp add: stands_for_def) (simp add: demo_event_def)
qed

lemma utf16_uint: "concat (map utf16 (map uint s)) = (s :: jstring)"
proof (induction s)
  case (Cons c s)
  have "uint c < 0x10000" using uint_lt2p [of c] by simp
  with Cons show ?case by (simp add: utf16_def)
qed simp

theorem stream_delivers_turn_witness:
  "read_loop utf8_init [] (map Chunk (map (\<lambda>b. [b]) (concat (map utf8_encode (map uint demo_text))))) =
   ([OnTitle (Json (JStr (js ''Hi'')))], None)"
proof -
  have 1: "list_all2 stands_for [demo_event] [Title (js ''Hi'')]" using demo_stands_for by simp
  have 2: "concat (map utf16 (map uint demo_text)) = frames_text (map write_frame [demo_event])"
    by (simp only: utf16_uint demo_text_def)
  have "list_all (\<lambda>c. scalar (uint c)) demo_text"
    by (simp add: demo_text_def frames_text_def write_frame_def demo_data js_text scalar_def)
      (simp add: demo_event_def js_text)
  then have 3: "list_all scalar (map uint demo_text)" by (simp add: list_all_iff)
  have 4: "concat (map (\<lambda>b. [b]) (concat (map utf8_encode (map uint demo_text)))) =
      concat (map utf8_encode (map uint demo_text))"
    by (induction "concat (map utf8_encode (map uint demo_text))") simp_all
  from stream_delivers_turn [OF 1 2 3 4] show ?thesis by simp
qed

section \<open>The casts\<close>

text \<open>\<open>payload as RunNode\<close> and the typed parameters: the typed value where the payload has it.\<close>

fun string_field :: "jsval option \<Rightarrow> jstring option" where
  "string_field (Some (Json (JStr s))) = Some s"
| "string_field _ = None"

definition node_of_json :: "json \<Rightarrow> RunNode option" where
  "node_of_json v =
     (let get = (\<lambda>k. get_prop (js k) (Json v)) in
      case (string_field (get ''id''), string_field (get ''type''), get ''input'', get ''output'') of
        (Some i, Some k, Some inp, Some out) \<Rightarrow>
          Some \<lparr>node_id = i, parent_id = string_field (get ''parent_id''), node_type = kind_of k,
                node_text = string_field (get ''text''), node_name = string_field (get ''name''),
                node_input = inp, node_output = out\<rparr>
      | _ \<Rightarrow> None)"

fun cast_call :: "handler_call \<Rightarrow> turn_event option" where
  "cast_call (OnNode (Json v)) = map_option Node (node_of_json v)"
| "cast_call (OnDelta (Json (JStr i)) (Json (JStr t))) = Some (Delta i t)"
| "cast_call (OnNodeEnd (Json (JStr i)) out) = Some (NodeEnd i out)"
| "cast_call (OnDone (Json (JNum (Fin m)))) = (if of_int \<lfloor>m\<rfloor> = m then Some (Done \<lfloor>m\<rfloor>) else None)"
| "cast_call (OnTitle (Json (JStr t))) = Some (Title t)"
| "cast_call (OnError (Json (JStr m))) = Some (Error m)"
| "cast_call _ = None"

text \<open>A kind is written as its own name; \<open>OtherKind\<close> is for the names the union does not have.\<close>

definition declared_kind :: "node_kind \<Rightarrow> bool" where
  "declared_kind k \<longleftrightarrow> (case k of OtherKind s \<Rightarrow> kind_of s = k | _ \<Rightarrow> True)"

fun declared :: "turn_event \<Rightarrow> bool" where
  "declared (Node n) \<longleftrightarrow> declared_kind (node_type n)"
| "declared _ \<longleftrightarrow> True"

lemma kind_of_name: "declared_kind k \<Longrightarrow> kind_of (kind_name k) = k"
  by (cases k) (simp_all add: kind_of_def declared_kind_def)

lemma declared_kind_of [simp]: "declared_kind (kind_of s)"
  by (simp add: kind_of_def declared_kind_def)

lemma map_of_members [simp]:
  "map_of (member k v) x = (if x = js k then (case v of Undefined \<Rightarrow> None | Json w \<Rightarrow> Some w) else None)"
  "map_of (optional k s) x = (if x = js k then map_option JStr s else None)"
  by (auto simp: member_def optional_def split: jsval.splits option.splits)

lemma node_fields:
  "get_prop (js ''id'') (Json (node_json n)) = Some (Json (JStr (node_id n)))"
  "string_field (get_prop (js ''parent_id'') (Json (node_json n))) = parent_id n"
  "get_prop (js ''type'') (Json (node_json n)) = Some (Json (JStr (kind_name (node_type n))))"
  "string_field (get_prop (js ''text'') (Json (node_json n))) = node_text n"
  "string_field (get_prop (js ''name'') (Json (node_json n))) = node_name n"
  "get_prop (js ''input'') (Json (node_json n)) = Some (node_input n)"
  "get_prop (js ''output'') (Json (node_json n)) = Some (node_output n)"
  unfolding node_json_def
  by (simp_all add: map_add_def split: option.split jsval.split)

lemma node_of_node_json: "declared_kind (node_type n) \<Longrightarrow> node_of_json (node_json n) = Some n"
  by (simp add: node_of_json_def node_fields kind_of_name)

lemma cast_call_of: "declared te \<Longrightarrow> cast_call (call_of te) = Some te"
  by (cases te) (simp_all add: node_of_node_json)

section \<open>Endings\<close>

text \<open>
  A stopped turn is not a failure: the promise of \<open>sendMessage\<close> is never rejected with the
  abort, whether the abort hits the request, its retry or a read.
\<close>

theorem sendMessage_swallows_abort: "snd (fst (sendMessage E i content st)) \<noteq> Some AbortError"
  by (simp add: sendMessage_def swallow_abort_def case_prod_beta Let_def)

text \<open>
  A refused turn (a status outside 2xx, or a response without a body) makes exactly one
  handler call, \<open>onError\<close> with a message that is not empty, and does not reject.
\<close>

theorem sendMessage_refused:
  assumes "fst (authFetch E (conversation_path i @ js ''/messages'') (sendMessage_request content) st) = Inr res"
    and "\<not> ok res \<or> stream res = None"
  shows "\<exists>m. fst (sendMessage E i content st) = ([OnError m], None) \<and> truthy m"
proof -
  have "truthy (errorMessage res)"
    by (auto simp: errorMessage_def Let_def split: sum.splits option.splits)
  then show ?thesis
    using assms by (auto simp: sendMessage_def swallow_abort_def case_prod_beta Let_def split: option.splits)
qed

theorem sendMessage_refused_witness:
  "\<exists>m. fst (sendMessage (scripted [answer 500 '''']) 3 (js ''hi'') signed_in) = ([OnError m], None) \<and> truthy m"
proof -
  have "fst (authFetch (scripted [answer 500 '''']) (conversation_path 3 @ js ''/messages'')
      (sendMessage_request (js ''hi'')) signed_in) = Inr \<lparr>status = 500, body_text = Inr [], stream = None\<rparr>"
    by (simp add: authFetch_def fetch_def scripted_def answer_def signed_in_def Let_def)
  from sendMessage_refused [OF this] show ?thesis by (simp add: ok_def)
qed

end
