(* ===== verification/MessagesStore.thy ===== *)
theory MessagesStore
  imports SendMessage
begin

text \<open>
  \<open>MessagesProvider\<close> of \<open>web/src/lib/messages-context.tsx\<close>: the state of every open
  conversation, the refs (\<open>controllers\<close>, \<open>loaded\<close>, \<open>tempId\<close>) and every operation that changes
  them, as total functions; one \<open>op\<close> is one stretch of code between suspension points. Handler
  calls come with the typed values of \<open>turn_event\<close>.
\<close>

section \<open>State\<close>

record RunTrace =
  version :: int
  trace_nodes :: "RunNode list"

text \<open>A message; an absent \<open>streaming\<close> is \<open>False\<close>.\<close>

record ChatMessage =
  msg_id :: int
  role :: jstring
  content :: jstring
  created_at :: jstring
  trace :: "RunTrace option"
  feedback :: "int option"
  streaming :: bool
  nodes :: "RunNode list option"

record ConvState =
  messages :: "ChatMessage list"
  loading :: bool
  conv_error :: "jstring option"
  notFound :: bool
  sending :: bool

definition LOADING :: ConvState where
  "LOADING = \<lparr>messages = [], loading = True, conv_error = None, notFound = False, sending = False\<rparr>"

definition hydrate :: "ChatMessage \<Rightarrow> ChatMessage" where
  "hydrate m =
     (case trace m of
        Some t \<Rightarrow> if version t = 2 then m\<lparr>nodes := Some (trace_nodes t)\<rparr> else m
      | None \<Rightarrow> m)"

text \<open>
  A call of \<open>send\<close>: its conversation, the id of its placeholder, and whether its
  \<open>AbortController\<close> was aborted. An aborted \<open>fetch\<close> makes no further handler call. What the
  provider does outside its own state is recorded in \<open>effects\<close>.
\<close>

record turn =
  turn_conv :: int
  assistantId :: int
  aborted :: bool

datatype effect = PatchTitle int jstring | RefreshUsage

record store =
  byId :: "int \<rightharpoonup> ConvState"
  controllers :: "int \<rightharpoonup> nat"
  loaded :: "int set"
  tempId :: int
  turns :: "turn list"
  getting :: "int set"
  effects :: "effect list"

definition empty_store :: store where
  "empty_store = \<lparr>byId = Map.empty, controllers = Map.empty, loaded = {}, tempId = 0, turns = [],
     getting = {}, effects = []\<rparr>"

section \<open>Operations\<close>

definition conv_state :: "store \<Rightarrow> int \<Rightarrow> ConvState" where
  "conv_state st i = (case byId st i of Some s \<Rightarrow> s | None \<Rightarrow> LOADING)"

definition patch :: "int \<Rightarrow> (ConvState \<Rightarrow> ConvState) \<Rightarrow> store \<Rightarrow> store" where
  "patch i fn st = st\<lparr>byId := (byId st)(i \<mapsto> fn (conv_state st i))\<rparr>"

text \<open>\<open>load\<close> up to \<open>getMessages\<close>, and its two continuations.\<close>

definition load :: "int \<Rightarrow> store \<Rightarrow> store" where
  "load i st =
     (if i \<in> loaded st then st
      else st\<lparr>loaded := insert i (loaded st), byId := (byId st)(i \<mapsto> conv_state st i),
              getting := insert i (getting st)\<rparr>)"

definition load_ok :: "int \<Rightarrow> ChatMessage list \<Rightarrow> store \<Rightarrow> store" where
  "load_ok i m st =
     patch i (\<lambda>_. \<lparr>messages = map hydrate m, loading = False, conv_error = None, notFound = False,
                  sending = False\<rparr>)
       (st\<lparr>getting := getting st - {i}\<rparr>)"

definition is_404 :: "exn \<Rightarrow> bool" where
  "is_404 e \<longleftrightarrow> (case e of ApiError s _ \<Rightarrow> s = 404 | _ \<Rightarrow> False)"

definition load_failed :: "int \<Rightarrow> exn \<Rightarrow> store \<Rightarrow> store" where
  "load_failed i e st =
     patch i (\<lambda>s. s\<lparr>loading := False,
                    conv_error := (if is_404 e then None
                              else Some (js ''Couldn'' @ [0x2019] @ js ''t load messages'')),
                    notFound := is_404 e\<rparr>)
       (st\<lparr>loaded := loaded st - {i}, getting := getting st - {i}\<rparr>)"

definition user_message :: "int \<Rightarrow> jstring \<Rightarrow> ChatMessage" where
  "user_message i c = \<lparr>msg_id = i, role = js ''user'', content = c, created_at = [], trace = None,
     feedback = None, streaming = False, nodes = None\<rparr>"

definition placeholder :: "int \<Rightarrow> ChatMessage" where
  "placeholder i = \<lparr>msg_id = i, role = js ''assistant'', content = [], created_at = [], trace = None,
     feedback = None, streaming = True, nodes = None\<rparr>"

text \<open>\<open>send\<close> up to \<open>sendMessage\<close>: its turn is the last of \<open>turns\<close>.\<close>

definition send :: "int \<Rightarrow> jstring \<Rightarrow> store \<Rightarrow> store" where
  "send i c st =
     (let userId = tempId st - 1; assistant = userId - 1;
          st1 = patch i (\<lambda>s. s\<lparr>conv_error := None, sending := True,
                  messages := messages s @ [user_message userId c, placeholder assistant]\<rparr>) st
      in st1\<lparr>tempId := assistant, controllers := (controllers st1)(i \<mapsto> length (turns st)),
             turns := turns st @ [\<lparr>turn_conv = i, assistantId = assistant, aborted = False\<rparr>]\<rparr>)"

definition map_message :: "int \<Rightarrow> (ChatMessage \<Rightarrow> ChatMessage) \<Rightarrow> ConvState \<Rightarrow> ConvState" where
  "map_message a f s = s\<lparr>messages := patch_by msg_id a f (messages s)\<rparr>"

definition update_message_nodes :: "(RunNode list \<Rightarrow> RunNode list) \<Rightarrow> ChatMessage \<Rightarrow> ChatMessage" where
  "update_message_nodes fn m = m\<lparr>nodes := Some (fn (case nodes m of Some ns \<Rightarrow> ns | None \<Rightarrow> []))\<rparr>"

definition updateNodes :: "int \<Rightarrow> int \<Rightarrow> (RunNode list \<Rightarrow> RunNode list) \<Rightarrow> store \<Rightarrow> store" where
  "updateNodes i a fn = patch i (map_message a (update_message_nodes fn))"

definition onNode :: "RunNode \<Rightarrow> RunNode list \<Rightarrow> RunNode list" where
  "onNode n ns = ns @ [n]"

definition onDelta :: "jstring \<Rightarrow> jstring \<Rightarrow> RunNode list \<Rightarrow> RunNode list" where
  "onDelta nodeId t =
     patch_by node_id nodeId (\<lambda>n. n\<lparr>node_text := Some ((case node_text n of Some u \<Rightarrow> u | None \<Rightarrow> []) @ t)\<rparr>)"

definition onNodeEnd :: "jstring \<Rightarrow> jsval \<Rightarrow> RunNode list \<Rightarrow> RunNode list" where
  "onNodeEnd nodeId out = patch_by node_id nodeId (\<lambda>n. n\<lparr>node_output := out\<rparr>)"

definition drop_controller :: "int \<Rightarrow> store \<Rightarrow> store" where
  "drop_controller i st = st\<lparr>controllers := (controllers st)(i := None)\<rparr>"

definition add_effect :: "effect \<Rightarrow> store \<Rightarrow> store" where
  "add_effect e st = st\<lparr>effects := effects st @ [e]\<rparr>"

definition onDone :: "int \<Rightarrow> int \<Rightarrow> int \<Rightarrow> store \<Rightarrow> store" where
  "onDone i a messageId st =
     add_effect RefreshUsage
       (drop_controller i
         (patch i (\<lambda>s. map_message a (\<lambda>m. m\<lparr>msg_id := messageId, streaming := False\<rparr>) (s\<lparr>sending := False\<rparr>)) st))"

definition onError :: "int \<Rightarrow> int \<Rightarrow> jstring \<Rightarrow> store \<Rightarrow> store" where
  "onError i a message st =
     drop_controller i
       (patch i (\<lambda>s. s\<lparr>sending := False, conv_error := Some message,
                       messages := remove_by msg_id a (messages s)\<rparr>) st)"

definition onTitle :: "int \<Rightarrow> jstring \<Rightarrow> store \<Rightarrow> store" where
  "onTitle i title = add_effect (PatchTitle i title)"

text \<open>The handlers object of one turn.\<close>

fun handle :: "turn \<Rightarrow> turn_event \<Rightarrow> store \<Rightarrow> store" where
  "handle t (Node n) st = updateNodes (turn_conv t) (assistantId t) (onNode n) st"
| "handle t (Delta nodeId txt) st = updateNodes (turn_conv t) (assistantId t) (onDelta nodeId txt) st"
| "handle t (NodeEnd nodeId out) st = updateNodes (turn_conv t) (assistantId t) (onNodeEnd nodeId out) st"
| "handle t (Done m) st = onDone (turn_conv t) (assistantId t) m st"
| "handle t (Title title) st = onTitle (turn_conv t) title st"
| "handle t (Error m) st = onError (turn_conv t) (assistantId t) m st"

text \<open>\<open>sendNew\<close> once \<open>create\<close> has given the conversation.\<close>

definition sendNew :: "int \<Rightarrow> jstring \<Rightarrow> store \<Rightarrow> store" where
  "sendNew i c st =
     send i c (st\<lparr>loaded := insert i (loaded st),
       byId := (byId st)(i \<mapsto> \<lparr>messages = [], loading = False, conv_error = None, notFound = False, sending = False\<rparr>)\<rparr>)"

definition abort_turn :: "nat \<Rightarrow> store \<Rightarrow> store" where
  "abort_turn k st = st\<lparr>turns := (turns st)[k := (turns st ! k)\<lparr>aborted := True\<rparr>]\<rparr>"

definition stop :: "int \<Rightarrow> store \<Rightarrow> store" where
  "stop i st =
     patch i (\<lambda>s. s\<lparr>sending := False, messages := filter (\<lambda>m. \<not> streaming m) (messages s)\<rparr>)
       (drop_controller i (case controllers st i of Some k \<Rightarrow> abort_turn k st | None \<Rightarrow> st))"

definition setFeedback :: "int \<Rightarrow> int \<Rightarrow> int option \<Rightarrow> store \<Rightarrow> store" where
  "setFeedback convId messageId rating =
     patch convId (map_message messageId (\<lambda>m. m\<lparr>feedback := rating\<rparr>))"

section \<open>Runs\<close>

text \<open>
  What can happen, with the conversation it happens to. An answer of \<open>getMessages\<close> is for a call
  under way; a handler call \<open>Handle i k te\<close> is for turn \<open>k\<close>, of conversation \<open>i\<close>, not aborted.
\<close>

datatype op =
    Load int
  | LoadOk int "ChatMessage list"
  | LoadFailed int exn
  | Send int jstring
  | SendNew int jstring
  | Handle int nat turn_event
  | Stop int
  | SetFeedback int int "int option"

fun op_conv :: "op \<Rightarrow> int" where
  "op_conv (Load i) = i"
| "op_conv (LoadOk i _) = i"
| "op_conv (LoadFailed i _) = i"
| "op_conv (Send i _) = i"
| "op_conv (SendNew i _) = i"
| "op_conv (Handle i _ _) = i"
| "op_conv (Stop i) = i"
| "op_conv (SetFeedback i _ _) = i"

definition live :: "store \<Rightarrow> int \<Rightarrow> nat \<Rightarrow> bool" where
  "live st i k \<longleftrightarrow> k < length (turns st) \<and> turn_conv (turns st ! k) = i \<and> \<not> aborted (turns st ! k)"

fun step :: "store \<Rightarrow> op \<Rightarrow> store" where
  "step st (Load i) = load i st"
| "step st (LoadOk i m) = (if i \<in> getting st then load_ok i m st else st)"
| "step st (LoadFailed i e) = (if i \<in> getting st then load_failed i e st else st)"
| "step st (Send i c) = send i c st"
| "step st (SendNew i c) = sendNew i c st"
| "step st (Handle i k te) = (if live st i k then handle (turns st ! k) te st else st)"
| "step st (Stop i) = stop i st"
| "step st (SetFeedback i m r) = setFeedback i m r st"

abbreviation run :: "store \<Rightarrow> op list \<Rightarrow> store" where
  "run \<equiv> foldl step"

section \<open>Frames\<close>

lemma conv_state_patch [simp]:
  "conv_state (patch i fn st) j = (if j = i then fn (conv_state st i) else conv_state st j)"
  by (simp add: conv_state_def patch_def)

lemma patch_other [simp]:
  "controllers (patch i fn st) = controllers st" "loaded (patch i fn st) = loaded st"
  "tempId (patch i fn st) = tempId st" "turns (patch i fn st) = turns st"
  "getting (patch i fn st) = getting st" "effects (patch i fn st) = effects st"
  by (simp_all add: patch_def)

lemma byId_patch: "byId (patch i fn st) = (byId st)(i \<mapsto> fn (conv_state st i))"
  by (simp add: patch_def)

lemma conv_state_cong: "byId st i = byId st' i \<Longrightarrow> conv_state st i = conv_state st' i"
  by (simp add: conv_state_def)

lemma drop_controller_simps [simp]:
  "byId (drop_controller i st) = byId st" "loaded (drop_controller i st) = loaded st"
  "tempId (drop_controller i st) = tempId st" "turns (drop_controller i st) = turns st"
  "getting (drop_controller i st) = getting st" "effects (drop_controller i st) = effects st"
  "conv_state (drop_controller i st) j = conv_state st j"
  "controllers (drop_controller i st) = (controllers st)(i := None)"
  by (simp_all add: drop_controller_def conv_state_def)

lemma add_effect_simps [simp]:
  "byId (add_effect e st) = byId st" "loaded (add_effect e st) = loaded st"
  "tempId (add_effect e st) = tempId st" "turns (add_effect e st) = turns st"
  "getting (add_effect e st) = getting st" "controllers (add_effect e st) = controllers st"
  "conv_state (add_effect e st) j = conv_state st j" "effects (add_effect e st) = effects st @ [e]"
  by (simp_all add: add_effect_def conv_state_def)

lemma abort_turn_simps [simp]:
  "byId (abort_turn k st) = byId st" "loaded (abort_turn k st) = loaded st"
  "tempId (abort_turn k st) = tempId st" "length (turns (abort_turn k st)) = length (turns st)"
  "getting (abort_turn k st) = getting st" "effects (abort_turn k st) = effects st"
  "conv_state (abort_turn k st) j = conv_state st j"
  "controllers (abort_turn k st) = controllers st"
  by (simp_all add: abort_turn_def conv_state_def)

lemmas op_defs = load_def load_ok_def load_failed_def send_def sendNew_def stop_def setFeedback_def
  updateNodes_def onDone_def onError_def onTitle_def

lemma handle_frame:
  "byId (handle t te st) j = (if j = turn_conv t then byId (handle t te st) j else byId st j)"
  by (cases te) (simp_all add: op_defs byId_patch)

lemma handle_keeps [simp]:
  "turns (handle t te st) = turns st" "tempId (handle t te st) = tempId st"
  "loaded (handle t te st) = loaded st" "getting (handle t te st) = getting st"
  by (cases te; simp add: op_defs)+

lemma step_frame: "op_conv e \<noteq> j \<Longrightarrow> byId (step st e) j = byId st j"
proof (cases e)
  case (Handle i k te)
  moreover assume "op_conv e \<noteq> j"
  ultimately show ?thesis using handle_frame [of "turns st ! k" te st j] by (auto simp: live_def)
qed (auto simp: op_defs byId_patch Let_def split: option.splits)

lemma nth_update_self: "xs[i := f (xs ! i)] ! k = (if k = i \<and> k < length xs then f (xs ! k) else xs ! k)"
  by (cases "i < length xs") (auto simp: nth_list_update list_update_beyond)

lemma turns_abort_turn:
  "turns (abort_turn i st) ! k =
     (if k = i \<and> k < length (turns st) then (turns st ! k)\<lparr>aborted := True\<rparr> else turns st ! k)"
  using nth_update_self [of "turns st" i "\<lambda>t. t\<lparr>aborted := True\<rparr>" k] by (simp add: abort_turn_def)

text \<open>A turn keeps its number, its conversation and its placeholder id, and stays aborted.\<close>

lemma step_turns:
  assumes "k < length (turns st)"
  shows "k < length (turns (step st e))"
    and "turn_conv (turns (step st e) ! k) = turn_conv (turns st ! k)"
    and "assistantId (turns (step st e) ! k) = assistantId (turns st ! k)"
    and "aborted (turns st ! k) \<Longrightarrow> aborted (turns (step st e) ! k)"
  using assms
  by (cases e; simp add: op_defs turns_abort_turn nth_append Let_def split: option.splits)+

section \<open>The refs\<close>

text \<open>
  A controller is that of a turn of its conversation, and every \<open>getMessages\<close> call under way is
  for a conversation marked as loaded.
\<close>

definition refs_ok :: "store \<Rightarrow> bool" where
  "refs_ok st \<longleftrightarrow>
     (\<forall>i k. controllers st i = Some k \<longrightarrow> k < length (turns st) \<and> turn_conv (turns st ! k) = i) \<and>
     getting st \<subseteq> loaded st"

lemma controllers_step:
  "controllers (step st e) i = Some k \<Longrightarrow>
   controllers st i = Some k \<or>
   (k = length (turns st) \<and> k < length (turns (step st e)) \<and> turn_conv (turns (step st e) ! k) = i)"
proof (cases e)
  case (Handle j n te)
  moreover assume "controllers (step st e) i = Some k"
  ultimately show ?thesis
    by (cases te) (auto simp: op_defs split: if_splits)
qed (auto simp: op_defs Let_def split: if_splits option.splits)

lemma refs_ok_step: "refs_ok st \<Longrightarrow> refs_ok (step st e)"
proof -
  assume *: "refs_ok st"
  have "getting (step st e) \<subseteq> loaded (step st e)"
    using * by (cases e) (auto simp: refs_ok_def op_defs Let_def split: option.splits)
  with * show ?thesis
    unfolding refs_ok_def using controllers_step [of st e] step_turns(1,2) [of _ st e] by blast
qed

interpretation refs: machine_invariant step refs_ok
  by unfold_locales (rule refs_ok_step)

lemma refs_ok_empty: "refs_ok empty_store"
  by (simp add: refs_ok_def empty_store_def)

section \<open>One turn\<close>

text \<open>The node list the events of a turn build.\<close>

fun add_event :: "RunNode list \<Rightarrow> turn_event \<Rightarrow> RunNode list" where
  "add_event ns (Node n) = onNode n ns"
| "add_event ns (Delta i t) = onDelta i t ns"
| "add_event ns (NodeEnd i out) = onNodeEnd i out ns"
| "add_event ns _ = ns"

definition turn_nodes :: "turn_event list \<Rightarrow> RunNode list" where
  "turn_nodes tes = foldl add_event [] tes"

definition shown_nodes :: "ChatMessage \<Rightarrow> RunNode list" where
  "shown_nodes m = (case nodes m of Some ns \<Rightarrow> ns | None \<Rightarrow> [])"

text \<open>An event that does not end the turn.\<close>

fun progress_event :: "turn_event \<Rightarrow> bool" where
  "progress_event (Done _) \<longleftrightarrow> False"
| "progress_event (Error _) \<longleftrightarrow> False"
| "progress_event _ \<longleftrightarrow> True"

text \<open>
  Turn \<open>k\<close> of conversation \<open>i\<close> is under way: the messages before it, the user's message, the
  placeholder with the nodes so far.
\<close>

definition under_way :: "int \<Rightarrow> nat \<Rightarrow> ChatMessage list \<Rightarrow> int \<Rightarrow> jstring \<Rightarrow> RunNode list \<Rightarrow> store \<Rightarrow> bool" where
  "under_way i k old a c ns st \<longleftrightarrow>
     live st i k \<and> controllers st i = Some k \<and>
     assistantId (turns st ! k) = a \<and> a \<notin> msg_id ` set old \<and>
     (\<exists>p. messages (conv_state st i) = old @ [user_message (a + 1) c, p] \<and>
          p = (placeholder a)\<lparr>nodes := nodes p\<rparr> \<and> shown_nodes p = ns) \<and>
     sending (conv_state st i) \<and> conv_error (conv_state st i) = None"

lemma under_way_start:
  assumes "tempId st - 2 \<notin> msg_id ` set (messages (conv_state st i))"
  shows "under_way i (length (turns st)) (messages (conv_state st i)) (tempId st - 2) c [] (send i c st)"
  using assms
  by (auto simp: under_way_def live_def send_def Let_def patch_def conv_state_def shown_nodes_def placeholder_def
      split: option.splits)

lemma live_step:
  assumes "live st i k" and "refs_ok st" and "op_conv e \<noteq> i"
  shows "live (step st e) i k"
proof -
  have "aborted (turns (step st e) ! k) = aborted (turns st ! k)"
  proof (cases e)
    case (Stop j)
    with assms show ?thesis
      by (auto simp: stop_def turns_abort_turn refs_ok_def live_def split: option.splits)
  next
    case (Handle j n te)
    then show ?thesis by simp
  qed (use assms in \<open>auto simp: op_defs Let_def nth_append live_def\<close>)
  with assms step_turns(1,2) [of k st e] show ?thesis by (simp add: live_def)
qed

lemma controllers_frame: "op_conv e \<noteq> i \<Longrightarrow> controllers (step st e) i = controllers st i"
proof (cases e)
  case (Handle j n te)
  moreover assume "op_conv e \<noteq> i"
  ultimately show ?thesis by (cases te) (auto simp: op_defs live_def)
qed (auto simp: op_defs Let_def split: option.splits)

lemma under_way_elsewhere:
  assumes "under_way i k old a c ns st" and "refs_ok st" and "op_conv e \<noteq> i"
  shows "under_way i k old a c ns (step st e)"
proof -
  have "conv_state (step st e) i = conv_state st i"
    by (rule conv_state_cong) (rule step_frame [OF assms(3)])
  moreover have "live (step st e) i k" using assms live_step by (auto simp: under_way_def)
  moreover have "controllers (step st e) i = controllers st i" using assms(3) by (rule controllers_frame)
  moreover have "assistantId (turns (step st e) ! k) = assistantId (turns st ! k)"
    using assms(1) by (intro step_turns(3)) (auto simp: under_way_def live_def)
  ultimately show ?thesis using assms(1) by (simp add: under_way_def)
qed

lemma map_message_last:
  assumes "a \<notin> msg_id ` set old" "msg_id p = a"
  shows "patch_by msg_id a f (old @ [user_message (a + 1) c, p]) = old @ [user_message (a + 1) c, f p]"
  using assms by (simp add: user_message_def)

lemma under_way_nodes:
  assumes "under_way i k old a c ns st"
  shows "under_way i k old a c (fn ns) (updateNodes i a fn st)"
proof -
  from assms obtain p where p: "messages (conv_state st i) = old @ [user_message (a + 1) c, p]"
      "p = (placeholder a)\<lparr>nodes := nodes p\<rparr>" "shown_nodes p = ns" "a \<notin> msg_id ` set old"
    by (auto simp: under_way_def)
  let ?p = "update_message_nodes fn p"
  have "msg_id p = a" by (subst p(2)) (simp add: placeholder_def)
  then have "messages (conv_state (updateNodes i a fn st) i) = old @ [user_message (a + 1) c, ?p]"
    using p map_message_last [of a old p "update_message_nodes fn" c] by (simp add: updateNodes_def map_message_def)
  moreover have "?p = (placeholder a)\<lparr>nodes := nodes ?p\<rparr>"
    by (subst p(2)) (simp add: update_message_nodes_def)
  moreover have "shown_nodes ?p = fn ns"
    using p(3) by (simp add: shown_nodes_def update_message_nodes_def)
  ultimately show ?thesis
    using assms unfolding under_way_def live_def by (auto simp: updateNodes_def map_message_def)
qed

lemma under_way_event:
  assumes "under_way i k old a c ns st" and "progress_event te"
  shows "under_way i k old a c (add_event ns te) (step st (Handle i k te))"
proof -
  have "live st i k" "turn_conv (turns st ! k) = i" "assistantId (turns st ! k) = a"
    using assms(1) by (auto simp: under_way_def live_def)
  with assms show ?thesis
    by (cases te)
      (auto simp: under_way_nodes onTitle_def, auto simp: under_way_def live_def)
qed

text \<open>The events of turn \<open>k\<close> of conversation \<open>i\<close> in a run.\<close>

definition events_of :: "int \<Rightarrow> nat \<Rightarrow> op list \<Rightarrow> turn_event list" where
  "events_of i k es =
     List.map_filter (\<lambda>e. case e of Handle j n te \<Rightarrow> if j = i \<and> n = k then Some te else None | _ \<Rightarrow> None) es"

text \<open>In conversation \<open>i\<close> nothing happens but events that do not end turn \<open>k\<close>; elsewhere, anything.\<close>

definition only_turn :: "int \<Rightarrow> nat \<Rightarrow> op list \<Rightarrow> bool" where
  "only_turn i k es \<longleftrightarrow>
     (\<forall>e \<in> set es. op_conv e = i \<longrightarrow> (case e of Handle j n te \<Rightarrow> n = k \<and> progress_event te | _ \<Rightarrow> False))"

lemma under_way_run:
  "under_way i k old a c ns st \<Longrightarrow> refs_ok st \<Longrightarrow> only_turn i k es \<Longrightarrow>
   under_way i k old a c (foldl add_event ns (events_of i k es)) (run st es)"
proof (induction es arbitrary: ns st)
  case Nil
  then show ?case by (simp add: events_of_def List.map_filter_simps)
next
  case (Cons e es)
  have rest: "only_turn i k es" and ok: "refs_ok (step st e)"
    using Cons.prems refs_ok_step by (auto simp: only_turn_def)
  show ?case
  proof (cases "op_conv e = i")
    case False
    then have "events_of i k (e # es) = events_of i k es"
      by (cases e) (auto simp: events_of_def List.map_filter_simps)
    with Cons.IH [OF under_way_elsewhere ok rest] Cons.prems False show ?thesis by simp
  next
    case True
    with Cons.prems(3) obtain te where te: "e = Handle i k te" "progress_event te"
      by (cases e) (auto simp: only_turn_def)
    then have "events_of i k (e # es) = te # events_of i k es"
      by (simp add: events_of_def List.map_filter_simps)
    with Cons.IH [OF under_way_event [OF Cons.prems(1) te(2)] _ rest] ok te show ?thesis by simp
  qed
qed

section \<open>Ids\<close>

text \<open>
  Ids given by the API are positive, temporary ids are negative and not below \<open>tempId\<close>. Within a
  conversation ids are distinct, streaming messages are temporary, and a message with the id of a
  turn's placeholder is an assistant message of that turn's conversation.
\<close>

definition messages_ok :: "turn list \<Rightarrow> int \<Rightarrow> int \<Rightarrow> ChatMessage list \<Rightarrow> bool" where
  "messages_ok ts t i ms \<longleftrightarrow>
     distinct (map msg_id ms) \<and>
     (\<forall>m \<in> set ms. (0 < msg_id m \<or> (t \<le> msg_id m \<and> msg_id m < 0)) \<and> (streaming m \<longrightarrow> msg_id m < 0) \<and>
        (\<forall>u \<in> set ts. assistantId u = msg_id m \<longrightarrow> turn_conv u = i \<and> role m = js ''assistant''))"

definition turns_ok :: "turn list \<Rightarrow> int \<Rightarrow> bool" where
  "turns_ok ts t \<longleftrightarrow>
     t \<le> 0 \<and> distinct (map assistantId ts) \<and> (\<forall>u \<in> set ts. t \<le> assistantId u \<and> assistantId u < 0)"

definition ids_ok :: "store \<Rightarrow> bool" where
  "ids_ok st \<longleftrightarrow>
     turns_ok (turns st) (tempId st) \<and>
     (\<forall>i. messages_ok (turns st) (tempId st) i (messages (conv_state st i)))"

text \<open>What the API guarantees: its ids are positive and not used twice in a conversation.\<close>

fun admissible :: "store \<Rightarrow> op \<Rightarrow> bool" where
  "admissible st (LoadOk i ms) \<longleftrightarrow>
     distinct (map msg_id ms) \<and> (\<forall>m \<in> set ms. 0 < msg_id m \<and> \<not> streaming m)"
| "admissible st (Handle i k (Done m)) \<longleftrightarrow> 0 < m \<and> m \<notin> msg_id ` set (messages (conv_state st i))"
| "admissible st _ \<longleftrightarrow> True"

lemma messages_ok_patch:
  assumes "messages_ok ts t i ms"
    and "\<And>m. msg_id (f m) = msg_id m \<and> role (f m) = role m \<and> streaming (f m) = streaming m"
  shows "messages_ok ts t i (patch_by msg_id a f ms)"
proof -
  have "map msg_id (patch_by msg_id a f ms) = map msg_id ms" using assms(2) by (simp add: map_key_patch_by)
  moreover have "m \<in> set ms \<or> (\<exists>n \<in> set ms. m = f n)" if "m \<in> set (patch_by msg_id a f ms)" for m
    using that by (auto simp: patch_by_def)
  ultimately show ?thesis using assms unfolding messages_ok_def by metis
qed

lemma messages_ok_subset:
  "messages_ok ts t i ms \<Longrightarrow> messages_ok ts t i (filter P ms)"
  by (auto simp: messages_ok_def distinct_map_filter)

lemma messages_ok_remove: "messages_ok ts t i ms \<Longrightarrow> messages_ok ts t i (remove_by msg_id a ms)"
  unfolding remove_by_def by (rule messages_ok_subset)

lemma distinct_rename:
  "distinct (map msg_id ms) \<Longrightarrow> x \<notin> msg_id ` set ms \<Longrightarrow>
   distinct (map msg_id (patch_by msg_id a (\<lambda>m. m\<lparr>msg_id := x, streaming := False\<rparr>) ms))"
proof -
  assume d: "distinct (map msg_id ms)" and x: "x \<notin> msg_id ` set ms"
  have "map msg_id (patch_by msg_id a (\<lambda>m. m\<lparr>msg_id := x, streaming := False\<rparr>) ms) =
      map (\<lambda>j. if j = a then x else j) (map msg_id ms)"
    by (auto simp: patch_by_def)
  moreover have "inj_on (\<lambda>j. if j = a then x else j) (set (map msg_id ms))"
    using x by (auto simp: inj_on_def)
  ultimately show ?thesis using d by (metis distinct_map list.set_map)
qed

lemma messages_ok_done:
  assumes "messages_ok ts t i ms" "0 < x" "x \<notin> msg_id ` set ms" "turns_ok ts t"
  shows "messages_ok ts t i (patch_by msg_id a (\<lambda>m. m\<lparr>msg_id := x, streaming := False\<rparr>) ms)"
  using assms distinct_rename [of ms x a]
  by (auto simp: messages_ok_def turns_ok_def patch_by_def)

lemma messages_ok_hydrate:
  assumes "distinct (map msg_id ms)" "\<forall>m \<in> set ms. 0 < msg_id m \<and> \<not> streaming m" "turns_ok ts t"
  shows "messages_ok ts t i (map hydrate ms)"
proof -
  have h: "msg_id (hydrate m) = msg_id m" "streaming (hydrate m) = streaming m" for m
    by (simp_all add: hydrate_def split: option.split)
  then have "map msg_id (map hydrate ms) = map msg_id ms" by simp
  with assms show ?thesis by (fastforce simp: messages_ok_def turns_ok_def h comp_def)
qed

lemma turns_ok_send:
  "turns_ok ts t \<Longrightarrow> turns_ok (ts @ [\<lparr>turn_conv = i, assistantId = t - 2, aborted = False\<rparr>]) (t - 2)"
  by (auto simp: turns_ok_def)

lemma messages_ok_later:
  assumes "messages_ok ts t j ms" "t \<le> 0"
  shows "messages_ok (ts @ [\<lparr>turn_conv = i, assistantId = t - 2, aborted = False\<rparr>]) (t - 2) j ms"
  using assms by (force simp: messages_ok_def)

lemma messages_ok_send:
  assumes "messages_ok ts t i ms" "turns_ok ts t"
  shows "messages_ok (ts @ [\<lparr>turn_conv = i, assistantId = t - 2, aborted = False\<rparr>]) (t - 2) i
     (ms @ [user_message (t - 1) c, placeholder (t - 2)])"
proof -
  have "t \<le> 0" using assms(2) by (simp add: turns_ok_def)
  moreover have "assistantId u \<noteq> t - 1" "assistantId u \<noteq> t - 2" if "u \<in> set ts" for u
    using assms(2) that by (auto simp: turns_ok_def)
  moreover have "x \<notin> msg_id ` set ms" if "x < t" for x using assms(1) that \<open>t \<le> 0\<close> by (force simp: messages_ok_def)
  ultimately show ?thesis
    using messages_ok_later [OF assms(1) \<open>t \<le> 0\<close>, of i]
    by (auto simp: messages_ok_def user_message_def placeholder_def)
qed

lemma messages_ok_same_turns:
  assumes "map (\<lambda>u. (turn_conv u, assistantId u)) ts' = map (\<lambda>u. (turn_conv u, assistantId u)) ts"
  shows "messages_ok ts' t i ms = messages_ok ts t i ms" and "turns_ok ts' t = turns_ok ts t"
proof -
  have pairs: "(\<lambda>u. (turn_conv u, assistantId u)) ` set ts' = (\<lambda>u. (turn_conv u, assistantId u)) ` set ts"
    using arg_cong [OF assms, of set] by simp
  have all: "(\<forall>u \<in> set us. P (turn_conv u) (assistantId u)) \<longleftrightarrow>
      (\<forall>(c, a) \<in> (\<lambda>u. (turn_conv u, assistantId u)) ` set us. P c a)" for us and P :: "int \<Rightarrow> int \<Rightarrow> bool"
    by auto
  have swap: "(\<forall>u \<in> set ts'. P (turn_conv u) (assistantId u)) \<longleftrightarrow> (\<forall>u \<in> set ts. P (turn_conv u) (assistantId u))"
    for P unfolding all [of ts'] all [of ts] pairs ..
  have ids: "map assistantId ts' = map assistantId ts"
    using arg_cong [OF assms, of "map snd"] by (simp add: comp_def)
  show "messages_ok ts' t i ms = messages_ok ts t i ms"
  proof -
    have "(\<forall>u \<in> set ts'. assistantId u = x \<longrightarrow> turn_conv u = i \<and> Q) \<longleftrightarrow>
        (\<forall>u \<in> set ts. assistantId u = x \<longrightarrow> turn_conv u = i \<and> Q)" for x Q
      using swap [of "\<lambda>c a. a = x \<longrightarrow> c = i \<and> Q"] .
    then show ?thesis by (simp only: messages_ok_def)
  qed
  show "turns_ok ts' t = turns_ok ts t"
    unfolding turns_ok_def ids using swap [of "\<lambda>c a. t \<le> a \<and> a < 0"] by simp
qed

lemma ids_ok_patch:
  assumes "ids_ok st"
    and "messages_ok (turns st) (tempId st) i (messages (conv_state st i)) \<Longrightarrow>
         messages_ok (turns st) (tempId st) i (messages (fn (conv_state st i)))"
  shows "ids_ok (patch i fn st)"
  using assms by (simp add: ids_ok_def)

lemma ids_ok_cong:
  assumes "ids_ok st" and "tempId st' = tempId st"
    and "map (\<lambda>u. (turn_conv u, assistantId u)) (turns st') = map (\<lambda>u. (turn_conv u, assistantId u)) (turns st)"
    and "\<And>i. messages (conv_state st' i) = messages (conv_state st i)"
  shows "ids_ok st'"
  using assms messages_ok_same_turns [OF assms(3)] by (simp add: ids_ok_def)

lemma map_abort_turn:
  "map (\<lambda>u. (turn_conv u, assistantId u)) (turns (abort_turn k st)) = map (\<lambda>u. (turn_conv u, assistantId u)) (turns st)"
  by (rule nth_equalityI) (simp_all add: turns_abort_turn)

lemma ids_ok_send: "ids_ok st \<Longrightarrow> ids_ok (send i c st)"
proof -
  assume *: "ids_ok st"
  have conv: "messages (conv_state (send i c st) j) =
      (if j = i then messages (conv_state st i) @ [user_message (tempId st - 1) c, placeholder (tempId st - 2)]
       else messages (conv_state st j))" for j
    by (simp add: send_def Let_def conv_state_def patch_def)
  have "turns (send i c st) = turns st @ [\<lparr>turn_conv = i, assistantId = tempId st - 2, aborted = False\<rparr>]"
    "tempId (send i c st) = tempId st - 2"
    by (simp_all add: send_def Let_def)
  moreover have "turns_ok (turns st) (tempId st)" "tempId st \<le> 0" using * by (auto simp: ids_ok_def turns_ok_def)
  ultimately show ?thesis
    using * unfolding ids_ok_def
    by (simp add: conv messages_ok_send turns_ok_send messages_ok_later)
qed

lemma ids_ok_handle:
  assumes "ids_ok st" and "admissible st (Handle (turn_conv t) k te)"
  shows "ids_ok (handle t te st)"
proof (cases te)
  case (Done m)
  with assms show ?thesis
    by (auto simp: onDone_def ids_ok_def map_message_def messages_ok_done)
next
  case (Error m)
  with assms show ?thesis by (auto simp: onError_def ids_ok_def messages_ok_remove)
next
  case (Title x)
  with assms show ?thesis by (simp add: onTitle_def ids_ok_def)
qed (use assms in \<open>simp_all add: updateNodes_def ids_ok_patch map_message_def messages_ok_patch update_message_nodes_def\<close>)

lemma ids_ok_step:
  assumes ok: "ids_ok st" and adm: "admissible st e"
  shows "ids_ok (step st e)"
proof (cases e)
  case (Load i)
  have "messages (conv_state (load i st) j) = messages (conv_state st j)" for j
    by (simp add: load_def conv_state_def)
  then show ?thesis using Load by (auto intro!: ids_ok_cong [OF ok] simp: load_def)
next
  case (LoadOk i m)
  have "ids_ok (st\<lparr>getting := getting st - {i}\<rparr>)"
    by (rule ids_ok_cong [OF ok]) (simp_all add: conv_state_def)
  then have "ids_ok (load_ok i m st)"
    using adm LoadOk unfolding load_ok_def
    by (intro ids_ok_patch) (auto simp: messages_ok_hydrate ids_ok_def)
  with ok LoadOk show ?thesis by simp
next
  case (LoadFailed i x)
  have "ids_ok (st\<lparr>loaded := loaded st - {i}, getting := getting st - {i}\<rparr>)"
    by (rule ids_ok_cong [OF ok]) (simp_all add: conv_state_def)
  then have "ids_ok (load_failed i x st)" unfolding load_failed_def by (rule ids_ok_patch) simp
  with ok LoadFailed show ?thesis by simp
next
  case (Send i c)
  with ok show ?thesis by (simp add: ids_ok_send)
next
  case (SendNew i c)
  have "ids_ok (st\<lparr>loaded := insert i (loaded st), byId := (byId st)(i \<mapsto>
      \<lparr>messages = [], loading = False, conv_error = None, notFound = False, sending = False\<rparr>)\<rparr>)"
    using ok by (auto simp: ids_ok_def conv_state_def messages_ok_def)
  with SendNew show ?thesis by (simp add: sendNew_def ids_ok_send)
next
  case (Handle i k te)
  with ok adm show ?thesis by (auto simp: live_def ids_ok_handle)
next
  case (Stop i)
  let ?st = "drop_controller i (case controllers st i of Some k \<Rightarrow> abort_turn k st | None \<Rightarrow> st)"
  have "ids_ok ?st"
    by (rule ids_ok_cong [OF ok]) (auto simp: map_abort_turn split: option.split)
  then have "ids_ok (stop i st)"
    unfolding stop_def by (rule ids_ok_patch) (simp add: messages_ok_subset)
  with Stop show ?thesis by simp
next
  case (SetFeedback i m r)
  with ok show ?thesis by (simp add: setFeedback_def ids_ok_patch map_message_def messages_ok_patch)
qed

definition store_step :: "store \<Rightarrow> store \<Rightarrow> bool" where
  "store_step st st' \<longleftrightarrow> (\<exists>e. admissible st e \<and> st' = step st e)"

abbreviation store_reachable :: "store \<Rightarrow> bool" where
  "store_reachable st \<equiv> store_step\<^sup>*\<^sup>* empty_store st"

interpretation ids: transition_invariant empty_store store_step "\<lambda>st. ids_ok st \<and> refs_ok st"
proof unfold_locales
  have "ids_ok empty_store"
    by (simp add: ids_ok_def turns_ok_def messages_ok_def empty_store_def conv_state_def LOADING_def)
  then show "ids_ok empty_store \<and> refs_ok empty_store" by (simp add: refs_ok_empty)
qed (auto simp: store_step_def ids_ok_step refs_ok_step)

section \<open>Properties\<close>

subsection \<open>The nodes of a turn\<close>

text \<open>Each node event with the events after it; the text and output those give the node.\<close>

fun node_suffixes :: "turn_event list \<Rightarrow> (RunNode \<times> turn_event list) list" where
  "node_suffixes [] = []"
| "node_suffixes (Node n # tes) = (n, tes) # node_suffixes tes"
| "node_suffixes (_ # tes) = node_suffixes tes"

definition deltas_for :: "jstring \<Rightarrow> turn_event list \<Rightarrow> jstring list" where
  "deltas_for i tes = List.map_filter (\<lambda>te. case te of Delta j t \<Rightarrow> if j = i then Some t else None | _ \<Rightarrow> None) tes"

definition outputs_for :: "jstring \<Rightarrow> turn_event list \<Rightarrow> jsval list" where
  "outputs_for i tes = List.map_filter (\<lambda>te. case te of NodeEnd j out \<Rightarrow> if j = i then Some out else None | _ \<Rightarrow> None) tes"

definition complete_node :: "RunNode \<times> turn_event list \<Rightarrow> RunNode" where
  "complete_node p =
     (let n = fst p; ts = deltas_for (node_id n) (snd p); os = outputs_for (node_id n) (snd p)
      in n\<lparr>node_text := (if ts = [] then node_text n
                         else Some ((case node_text n of Some u \<Rightarrow> u | None \<Rightarrow> []) @ concat ts)),
           node_output := (if os = [] then node_output n else last os)\<rparr>)"

lemma node_suffixes_snoc:
  "node_suffixes (tes @ [te]) =
     map (\<lambda>(n, later). (n, later @ [te])) (node_suffixes tes) @ (case te of Node n \<Rightarrow> [(n, [])] | _ \<Rightarrow> [])"
  by (induction tes rule: node_suffixes.induct) (auto split: turn_event.split)

lemma map_filter_snoc: "List.map_filter f (xs @ [x]) = List.map_filter f xs @ (case f x of Some y \<Rightarrow> [y] | None \<Rightarrow> [])"
  by (induction xs) (auto simp: List.map_filter_simps split: option.splits)

lemma complete_snoc:
  "complete_node (n, later @ [te]) =
     (case te of
        Delta i t \<Rightarrow> if node_id n = i
          then (complete_node (n, later))\<lparr>node_text :=
                 Some ((case node_text (complete_node (n, later)) of Some u \<Rightarrow> u | None \<Rightarrow> []) @ t)\<rparr>
          else complete_node (n, later)
      | NodeEnd i out \<Rightarrow> if node_id n = i then (complete_node (n, later))\<lparr>node_output := out\<rparr>
          else complete_node (n, later)
      | _ \<Rightarrow> complete_node (n, later))"
  by (cases te) (auto simp: complete_node_def deltas_for_def outputs_for_def map_filter_snoc Let_def)

lemma complete_alone: "complete_node (n, []) = n"
  by (simp add: complete_node_def deltas_for_def outputs_for_def List.map_filter_simps)

lemma node_id_complete [simp]: "node_id (complete_node p) = node_id (fst p)"
  by (simp add: complete_node_def Let_def)

text \<open>
  C17: The node list a turn shows is, for every sequence of events, the announced nodes in order,
  each with the text of its own deltas appended in order and with its last reported output;
  deltas and outputs for other or unknown ids change nothing.
\<close>

theorem turn_nodes_exact: "turn_nodes tes = map complete_node (node_suffixes tes)"
proof (induction tes rule: rev_induct)
  case Nil
  show ?case by (simp add: turn_nodes_def)
next
  case (snoc te tes)
  then have "turn_nodes (tes @ [te]) = add_event (map complete_node (node_suffixes tes)) te"
    by (simp add: turn_nodes_def)
  also have "\<dots> = map complete_node (node_suffixes (tes @ [te]))"
    by (cases te)
      (auto simp: node_suffixes_snoc complete_snoc complete_alone onNode_def onDelta_def onNodeEnd_def patch_by_def)
  finally show ?case .
qed

subsection \<open>How a turn ends\<close>

lemma reachable_fresh:
  assumes "store_reachable st"
  shows "tempId st - 2 \<notin> msg_id ` set (messages (conv_state st i))" and "refs_ok st"
proof -
  have inv: "ids_ok st \<and> refs_ok st" using ids.inv_reachable [OF assms] .
  then have "messages_ok (turns st) (tempId st) i (messages (conv_state st i))" "tempId st \<le> 0"
    by (auto simp: ids_ok_def turns_ok_def)
  then show "tempId st - 2 \<notin> msg_id ` set (messages (conv_state st i))" by (force simp: messages_ok_def)
  show "refs_ok st" using inv ..
qed

lemma turn_running:
  assumes "store_reachable st" and "only_turn i (length (turns st)) es"
  shows "under_way i (length (turns st)) (messages (conv_state st i)) (tempId st - 2) c
     (turn_nodes (events_of i (length (turns st)) es)) (run st (Send i c # es))"
proof -
  have "refs_ok (step st (Send i c))" using reachable_fresh(2) [OF assms(1)] by (rule refs_ok_step)
  with under_way_run [OF under_way_start [OF reachable_fresh(1) [OF assms(1)]] _ assms(2)]
  show ?thesis by (simp add: turn_nodes_def)
qed

lemma under_way_msgs:
  assumes "under_way i k old a c ns st"
  obtains p where "messages (conv_state st i) = old @ [user_message (a + 1) c, p]" "msg_id p = a"
    "p = (placeholder a)\<lparr>nodes := nodes p\<rparr>" "shown_nodes p = ns" "a \<notin> msg_id ` set old"
    "turn_conv (turns st ! k) = i" "assistantId (turns st ! k) = a" "live st i k"
    "controllers st i = Some k"
proof -
  from assms obtain p where p: "messages (conv_state st i) = old @ [user_message (a + 1) c, p]"
      "p = (placeholder a)\<lparr>nodes := nodes p\<rparr>" "shown_nodes p = ns"
    by (auto simp: under_way_def)
  moreover have "msg_id p = a" by (subst p(2)) (simp add: placeholder_def)
  ultimately show thesis using assms that by (auto simp: under_way_def live_def)
qed

lemma turn_done:
  assumes "store_reachable st" and "only_turn i (length (turns st)) es"
  shows "let k = length (turns st); fin = run st (Send i c # es @ [Handle i k (Done m)]) in
     (\<exists>p. messages (conv_state fin i) = messages (conv_state st i) @ [user_message (tempId st - 1) c, p] \<and>
          p = (placeholder m)\<lparr>streaming := False, nodes := nodes p\<rparr> \<and>
          shown_nodes p = turn_nodes (events_of i k es)) \<and>
     \<not> sending (conv_state fin i) \<and> conv_error (conv_state fin i) = None \<and>
     controllers fin i = None \<and> last (effects fin) = RefreshUsage"
proof -
  let ?k = "length (turns st)" and ?a = "tempId st - 2"
  let ?s = "run st (Send i c # es)" and ?old = "messages (conv_state st i)"
  note u = turn_running [OF assms, of c]
  from u obtain p where p: "messages (conv_state ?s i) = ?old @ [user_message (?a + 1) c, p]" "msg_id p = ?a"
      "p = (placeholder ?a)\<lparr>nodes := nodes p\<rparr>" "shown_nodes p = turn_nodes (events_of i ?k es)" "?a \<notin> msg_id ` set ?old"
      "turn_conv (turns ?s ! ?k) = i" "assistantId (turns ?s ! ?k) = ?a" "live ?s i ?k"
    by (rule under_way_msgs)
  let ?p = "p\<lparr>msg_id := m, streaming := False\<rparr>"
  have fin: "run st (Send i c # es @ [Handle i ?k (Done m)]) = onDone i ?a m ?s" using p(6-8) by simp
  have msgs: "messages (conv_state (onDone i ?a m ?s) i) = ?old @ [user_message (tempId st - 1) c, ?p]"
    using map_message_last [OF p(5) p(2), of "\<lambda>m'. m'\<lparr>msg_id := m, streaming := False\<rparr>" c] p(1)
    by (simp add: onDone_def map_message_def)
  have shape: "?p = (placeholder m)\<lparr>streaming := False, nodes := nodes ?p\<rparr>"
    by (subst p(3)) (simp add: placeholder_def)
  have shown: "shown_nodes ?p = turn_nodes (events_of i ?k es)" using p(4) by (simp add: shown_nodes_def)
  have "conv_error (conv_state ?s i) = None" using u by (simp add: under_way_def)
  then show ?thesis
    unfolding Let_def fin using msgs shape shown by (auto simp: onDone_def map_message_def)
qed

lemma turn_failed:
  assumes "store_reachable st" and "only_turn i (length (turns st)) es"
  shows "let fin = run st (Send i c # es @ [Handle i (length (turns st)) (Error e)]) in
     messages (conv_state fin i) = messages (conv_state st i) @ [user_message (tempId st - 1) c] \<and>
     \<not> sending (conv_state fin i) \<and> conv_error (conv_state fin i) = Some e \<and> controllers fin i = None"
proof -
  let ?k = "length (turns st)" and ?a = "tempId st - 2"
  let ?s = "run st (Send i c # es)" and ?old = "messages (conv_state st i)"
  from turn_running [OF assms, of c] obtain p where p: "messages (conv_state ?s i) = ?old @ [user_message (?a + 1) c, p]"
      "msg_id p = ?a" "?a \<notin> msg_id ` set ?old"
      "turn_conv (turns ?s ! ?k) = i" "assistantId (turns ?s ! ?k) = ?a" "live ?s i ?k"
    by (rule under_way_msgs)
  have "run st (Send i c # es @ [Handle i ?k (Error e)]) = onError i ?a e ?s" using p(4-6) by simp
  then show ?thesis
    using p(1-3) by (simp add: Let_def onError_def user_message_def)
qed

text \<open>
  C6: A turn that completes: whatever happens in other conversations meanwhile, after \<open>done\<close> the
  conversation has its old messages, then the user's message, then one assistant message with the
  id of the API and exactly the nodes of the turn's events; it is no longer sending, its error is
  cleared, and the usage is refreshed.
\<close>

theorem turn_completes:
  assumes "store_reachable st" and "only_turn i (length (turns st)) es"
  shows "let k = length (turns st); fin = run st (Send i c # es @ [Handle i k (Done m)]) in
     (\<exists>p. messages (conv_state fin i) = messages (conv_state st i) @ [user_message (tempId st - 1) c, p] \<and>
          p = (placeholder m)\<lparr>streaming := False, nodes := nodes p\<rparr> \<and>
          shown_nodes p = turn_nodes (events_of i k es)) \<and>
     \<not> sending (conv_state fin i) \<and> conv_error (conv_state fin i) = None \<and>
     controllers fin i = None \<and> last (effects fin) = RefreshUsage"
  using assms by (rule turn_done)

text \<open>
  C18: A turn that fails: the placeholder is gone, the user's message stays, the error is shown and
  the conversation is no longer sending; other conversations are not involved.
\<close>

theorem turn_fails:
  assumes "store_reachable st" and "only_turn i (length (turns st)) es"
  shows "let fin = run st (Send i c # es @ [Handle i (length (turns st)) (Error e)]) in
     messages (conv_state fin i) = messages (conv_state st i) @ [user_message (tempId st - 1) c] \<and>
     \<not> sending (conv_state fin i) \<and> conv_error (conv_state fin i) = Some e \<and> controllers fin i = None"
  using assms by (rule turn_failed)

lemma aborted_run:
  "k < length (turns st) \<and> aborted (turns st ! k) \<Longrightarrow> aborted (turns (run st es) ! k)"
proof (induction es arbitrary: st)
  case (Cons e es)
  then show ?case using step_turns(1,4) [of k st e] by simp
qed simp


definition demo_events :: "op list" where
  "demo_events = [Handle 1 0 (Node (demo_node ''a'' None TextKind)), Load 2, Handle 1 0 (Delta (js ''a'') (js ''Hi''))]"

lemma demo_only: "only_turn 1 (length (turns empty_store)) demo_events"
  by (simp add: only_turn_def demo_events_def empty_store_def)

lemma demo_turn_nodes:
  "turn_nodes (events_of 1 0 demo_events) =
   [(demo_node ''a'' None TextKind)\<lparr>node_text := Some (js ''aHi'')\<rparr>]"
  by (simp add: demo_events_def events_of_def empty_store_def List.map_filter_simps turn_nodes_def onNode_def
      onDelta_def demo_node_def js_Cons)

lemma demo_start: "messages (conv_state empty_store 1) = []" "tempId empty_store = 0" "turns empty_store = []"
  by (simp_all add: empty_store_def conv_state_def LOADING_def)

theorem turn_completes_witness:
  "let fin = run empty_store (Send 1 (js ''hey'') # demo_events @ [Handle 1 0 (Done 9)]) in
   (\<exists>p. messages (conv_state fin 1) = [user_message (- 1) (js ''hey''), p] \<and> msg_id p = 9 \<and> \<not> streaming p \<and>
      shown_nodes p = [(demo_node ''a'' None TextKind)\<lparr>node_text := Some (js ''aHi'')\<rparr>]) \<and>
   \<not> sending (conv_state fin 1)"
proof -
  have msg: "msg_id p = 9 \<and> \<not> streaming p" if "p = (placeholder 9)\<lparr>streaming := False, nodes := nodes p\<rparr>" for p
    by (subst (1 2) that) (simp add: placeholder_def)
  define fin where "fin = run empty_store (Send 1 (js ''hey'') # demo_events @ [Handle 1 0 (Done 9)])"
  from turn_completes [OF rtranclp.rtrancl_refl demo_only, of "js ''hey''" 9]
  have "(\<exists>p. messages (conv_state fin 1) = [] @ [user_message (0 - 1) (js ''hey''), p] \<and>
      p = (placeholder 9)\<lparr>streaming := False, nodes := nodes p\<rparr> \<and>
      shown_nodes p = [(demo_node ''a'' None TextKind)\<lparr>node_text := Some (js ''aHi'')\<rparr>]) \<and>
    \<not> sending (conv_state fin 1)"
    unfolding Let_def demo_start list.size(3) fin_def demo_turn_nodes by (elim conjE) (intro conjI)
  then obtain p where p: "messages (conv_state fin 1) = [] @ [user_message (0 - 1) (js ''hey''), p]"
      "shown_nodes p = [(demo_node ''a'' None TextKind)\<lparr>node_text := Some (js ''aHi'')\<rparr>]"
      "msg_id p = 9 \<and> \<not> streaming p" "\<not> sending (conv_state fin 1)"
    using msg by (elim conjE exE) (rule that)
  then show ?thesis unfolding Let_def fin_def [symmetric] by simp
qed

theorem turn_fails_witness:
  "let fin = run empty_store (Send 1 (js ''hey'') # demo_events @ [Handle 1 0 (Error (js ''no''))]) in
   messages (conv_state fin 1) = [user_message (- 1) (js ''hey'')] \<and> conv_error (conv_state fin 1) = Some (js ''no'')"
  using turn_fails [OF rtranclp.rtrancl_refl demo_only, of "js ''hey''" "js ''no''"]
  unfolding demo_start Let_def by simp


subsection \<open>What stays\<close>

text \<open>
  C20: Within a conversation no two messages share an id, streaming messages have temporary ids,
  and the placeholder id of a turn belongs to at most one message: an assistant message of the
  turn's conversation. So a handler call never touches another message.
\<close>

theorem store_ids_distinct:
  assumes "store_reachable st"
  shows "distinct (map msg_id (messages (conv_state st i))) \<and>
     (\<forall>m \<in> set (messages (conv_state st i)). streaming m \<longrightarrow> tempId st \<le> msg_id m \<and> msg_id m < 0) \<and>
     (\<forall>m \<in> set (messages (conv_state st i)). \<forall>t \<in> set (turns st).
        assistantId t = msg_id m \<longrightarrow> turn_conv t = i \<and> role m = js ''assistant'')"
  using ids.inv_reachable [OF assms] by (force simp: ids_ok_def messages_ok_def)

lemma store_reachable_step: "store_reachable st \<Longrightarrow> admissible st e \<Longrightarrow> store_reachable (step st e)"
  by (erule rtranclp.rtrancl_into_rtrancl) (auto simp: store_step_def)

theorem store_ids_distinct_witness:
  "distinct (map msg_id (messages (conv_state (run empty_store [Send 1 [], Send 2 [], Handle 1 0 (Done 7)]) 1))) \<and>
   messages (conv_state (run empty_store [Send 1 [], Send 2 [], Handle 1 0 (Done 7)]) 1) \<noteq> []"
proof -
  let ?st = "run empty_store [Send 1 [], Send 2 [], Handle 1 0 (Done 7)]"
  let ?st2 = "step (step empty_store (Send 1 [])) (Send 2 [])"
  have "store_reachable ?st2"
    by (intro store_reachable_step rtranclp.rtrancl_refl) (simp_all del: step.simps)
  moreover have msgs: "messages (conv_state ?st2 1) = [user_message (- 1) [], placeholder (- 2)]"
    by (simp add: send_def Let_def patch_def conv_state_def empty_store_def LOADING_def)
  moreover have "admissible ?st2 (Handle 1 0 (Done 7))"
    by (simp add: msgs user_message_def placeholder_def del: step.simps)
  ultimately have "store_reachable (step ?st2 (Handle 1 0 (Done 7)))" by (blast intro: store_reachable_step)
  then have "store_reachable ?st" by simp
  moreover have "messages (conv_state ?st 1) \<noteq> []"
    by (simp add: send_def Let_def patch_def conv_state_def empty_store_def LOADING_def live_def onDone_def
        drop_controller_def add_effect_def map_message_def)
  ultimately show ?thesis using store_ids_distinct [of ?st 1] by blast
qed

text \<open>A run of admissible operations.\<close>

fun admissible_run :: "store \<Rightarrow> op list \<Rightarrow> bool" where
  "admissible_run st [] \<longleftrightarrow> True"
| "admissible_run st (e # es) \<longleftrightarrow> admissible st e \<and> admissible_run (step st e) es"

text \<open>A conversation that has been loaded (or opened by \<open>sendNew\<close>) is not fetched again.\<close>

definition in_cache :: "int \<Rightarrow> store \<Rightarrow> bool" where
  "in_cache i st \<longleftrightarrow> i \<in> loaded st \<and> i \<notin> getting st"

lemma in_cache_step: "in_cache i st \<Longrightarrow> in_cache i (step st e)"
  by (cases e) (auto simp: in_cache_def op_defs Let_def split: option.splits)

interpretation cached: machine_invariant step "in_cache i" for i
  by unfold_locales (rule in_cache_step)

text \<open>
  A conversation opened by \<open>sendNew\<close> is never fetched over: whatever happens afterwards, a
  visit of its page changes nothing and no answer of \<open>getMessages\<close> for it is under way.
\<close>

theorem sendNew_not_refetched:
  assumes "i \<notin> getting st"
  shows "step (run (step st (SendNew i c)) es) (Load i) = run (step st (SendNew i c)) es \<and>
     step (run (step st (SendNew i c)) es) (LoadOk i ms) = run (step st (SendNew i c)) es"
proof -
  have "in_cache i (step st (SendNew i c))" using assms by (simp add: in_cache_def op_defs Let_def)
  from cached.inv_run [OF this, of es] show ?thesis by (simp add: in_cache_def load_def)
qed

theorem sendNew_not_refetched_witness:
  "step (run empty_store [SendNew 5 (js ''hey'')]) (Load 5) = run empty_store [SendNew 5 (js ''hey'')]"
  using sendNew_not_refetched [of 5 empty_store "js ''hey''" "[]"] by (simp add: empty_store_def del: step.simps)

text \<open>Operations that may replace message \<open>x\<close> of a cached conversation \<open>i\<close>.\<close>

fun replaces :: "int \<Rightarrow> int \<Rightarrow> op \<Rightarrow> bool" where
  "replaces i x (SendNew j _) \<longleftrightarrow> j = i"
| "replaces i x (SetFeedback j y _) \<longleftrightarrow> j = i \<and> y = x"
| "replaces i x _ \<longleftrightarrow> False"

lemma patch_by_keeps: "m \<in> set xs \<Longrightarrow> key m \<noteq> k \<Longrightarrow> m \<in> set (patch_by key k f xs)"
  by (force simp: patch_by_def)

lemma handle_keeps_message:
  assumes "m \<in> set (messages (conv_state st i))" and "msg_id m \<noteq> assistantId t"
  shows "m \<in> set (messages (conv_state (handle t te st) i))"
  using assms
  by (cases te)
    (auto simp: updateNodes_def onDone_def onError_def onTitle_def map_message_def intro: patch_by_keeps)

lemma settled_step:
  assumes "ids_ok st" and "in_cache i st" and m: "m \<in> set (messages (conv_state st i))" "0 < msg_id m"
    and "\<not> replaces i (msg_id m) e"
  shows "m \<in> set (messages (conv_state (step st e) i))"
proof (cases "op_conv e = i")
  case False
  then show ?thesis using m conv_state_cong [OF step_frame] by metis
next
  case True
  show ?thesis
  proof (cases e)
    case (Handle j k te)
    have "msg_id m \<noteq> assistantId (turns st ! k)" if "live st j k"
    proof -
      have "turns st ! k \<in> set (turns st)" using that by (simp add: live_def)
      then show ?thesis using assms(1) m(2) by (auto simp: ids_ok_def turns_ok_def)
    qed
    with Handle m(1) handle_keeps_message show ?thesis by auto
  next
    case (Stop j)
    have "\<not> streaming m" using assms(1) m by (force simp: ids_ok_def messages_ok_def)
    with Stop m show ?thesis by (auto simp: stop_def split: option.split)
  next
    case (SetFeedback j x r)
    then show ?thesis using True assms(5) m by (auto simp: setFeedback_def map_message_def intro: patch_by_keeps)
  next
    case (Send j c)
    with True m show ?thesis by (simp add: send_def Let_def conv_state_def patch_def)
  next
    case (SendNew j c)
    with True assms(5) show ?thesis by simp
  qed (use True m assms(2) in \<open>auto simp: in_cache_def load_def conv_state_def\<close>)
qed

lemma settled_run:
  assumes "store_reachable st" and "in_cache i st" and "m \<in> set (messages (conv_state st i))" and "0 < msg_id m"
    and "admissible_run st es" and "\<forall>e \<in> set es. \<not> replaces i (msg_id m) e"
  shows "m \<in> set (messages (conv_state (run st es) i))"
  using assms
proof (induction es arbitrary: st)
  case (Cons e es)
  have "ids_ok st" using ids.inv_reachable [OF Cons.prems(1)] ..
  with Cons.prems have "m \<in> set (messages (conv_state (step st e) i))" by (intro settled_step) auto
  moreover have "store_reachable (step st e)" "in_cache i (step st e)"
    using Cons.prems by (simp_all add: store_reachable_step in_cache_step)
  ultimately show ?case using Cons.prems Cons.IH by simp
qed simp

text \<open>
  C28: A message that has an id of the API, in a conversation that is in the cache, stays as it is:
  turns that run, end, fail or are stopped, other feedback, visits and everything that happens in
  other conversations leave it and its nodes alone.
\<close>

theorem settled_messages_stable:
  assumes "store_reachable st" and "in_cache i st" and "m \<in> set (messages (conv_state st i))" and "0 < msg_id m"
    and "admissible_run st es" and "\<forall>e \<in> set es. \<not> replaces i (msg_id m) e"
  shows "m \<in> set (messages (conv_state (run st es) i))"
  using assms by (rule settled_run)

definition old_message :: ChatMessage where
  "old_message = (placeholder 4)\<lparr>content := js ''hello'', streaming := False\<rparr>"

lemma demo_message: "msg_id old_message = 4" "\<not> streaming old_message" "trace old_message = None"
  by (simp_all add: old_message_def placeholder_def)

lemma demo_loaded:
  "store_reachable (run empty_store [Load 1, LoadOk 1 [old_message]])"
  "in_cache 1 (run empty_store [Load 1, LoadOk 1 [old_message]])"
  "old_message \<in> set (messages (conv_state (run empty_store [Load 1, LoadOk 1 [old_message]]) 1))"
proof -
  have "store_reachable (step (step empty_store (Load 1)) (LoadOk 1 [old_message]))"
    by (intro store_reachable_step rtranclp.rtrancl_refl) (simp_all add: demo_message del: step.simps)
  then show "store_reachable (run empty_store [Load 1, LoadOk 1 [old_message]])" by simp
  show "in_cache 1 (run empty_store [Load 1, LoadOk 1 [old_message]])"
    "old_message \<in> set (messages (conv_state (run empty_store [Load 1, LoadOk 1 [old_message]]) 1))"
    using demo_message by (simp_all add: in_cache_def load_def load_ok_def empty_store_def hydrate_def)
qed

theorem settled_messages_stable_witness:
  "old_message \<in> set (messages (conv_state
     (run (run empty_store [Load 1, LoadOk 1 [old_message]]) [Send 1 (js ''hey''), Stop 1, Load 1]) 1))"
  using settled_messages_stable [OF demo_loaded, of "[Send 1 (js ''hey''), Stop 1, Load 1]"] demo_message by simp

text \<open>
  A vote is stored on its message and survives: after \<open>setFeedback\<close> the message has the
  rating and keeps it, with all its other fields, through everything that does not replace it.
\<close>

theorem feedback_survives:
  assumes "store_reachable st" and "in_cache i st" and "m \<in> set (messages (conv_state st i))" and "0 < msg_id m"
    and "admissible_run (step st (SetFeedback i (msg_id m) r)) es" and "\<forall>e \<in> set es. \<not> replaces i (msg_id m) e"
  shows "m\<lparr>feedback := r\<rparr> \<in> set (messages (conv_state (run st (SetFeedback i (msg_id m) r # es)) i))"
proof -
  let ?st = "step st (SetFeedback i (msg_id m) r)"
  have "m\<lparr>feedback := r\<rparr> \<in> set (messages (conv_state ?st i))"
    using assms(3) by (force simp: setFeedback_def map_message_def patch_by_def)
  moreover have "store_reachable ?st" "in_cache i ?st"
    using assms(1,2) by (auto intro: store_reachable_step in_cache_step simp del: step.simps)
  ultimately show ?thesis
    using settled_run [of ?st i "m\<lparr>feedback := r\<rparr>" es] assms(4-6) by simp
qed

theorem feedback_survives_witness:
  "old_message\<lparr>feedback := Some 1\<rparr> \<in> set (messages (conv_state
     (run (run empty_store [Load 1, LoadOk 1 [old_message]]) [SetFeedback 1 4 (Some 1), Send 1 (js ''hey''), Stop 1]) 1))"
  using feedback_survives [OF demo_loaded, of "Some 1" "[Send 1 (js ''hey''), Stop 1]"] demo_message by simp


subsection \<open>Where the code falls short\<close>

text \<open>
  The messages of a conversation may arrive after a turn was sent in it (the composer is enabled
  while they load): the answer then replaces the list, so the user's message and the placeholder
  are gone, \<open>sending\<close> is reset, and the events of the turn, which is still running, find no
  message to go to.
\<close>

theorem load_wipes_turn:
  "let st = run empty_store [Load 1, Send 1 c, LoadOk 1 old] in
   messages (conv_state st 1) = map hydrate old \<and> \<not> sending (conv_state st 1) \<and> live st 1 0 \<and>
   length (messages (conv_state (run st [Handle 1 0 (Node n), Handle 1 0 (Done d)]) 1)) = length old"
  by (simp add: Let_def load_def load_ok_def send_def empty_store_def live_def updateNodes_def onDone_def
      map_message_def)

text \<open>
  \<open>send\<close> does not handle a rejection of \<open>sendMessage\<close>: when the network fails, no handler is
  called and the turn stays as it started, sending and with its streaming placeholder.
\<close>

theorem failed_request_leaves_turn:
  assumes "store_reachable st"
    and "first_answer E (conversation_path i @ js ''/messages'') (sendMessage_request c) cl = Inl TypeError"
  shows "fst (sendMessage E i c cl) = ([], Some TypeError) \<and>
     sending (conv_state (step st (Send i c)) i) \<and>
     streaming (last (messages (conv_state (step st (Send i c)) i)))"
proof -
  have "fst (sendMessage E i c cl) = ([], Some TypeError)"
    using assms(2)
    by (simp add: sendMessage_def authFetch_not_401 unauthorized_def swallow_abort_def case_prod_beta Let_def)
  moreover have "sending (conv_state (send i c st) i) \<and> streaming (last (messages (conv_state (send i c st) i)))"
    by (simp add: send_def Let_def conv_state_def patch_def placeholder_def)
  ultimately show ?thesis by simp
qed

end
