(* ===== verification/Conversations.thy ===== *)
theory Conversations
  imports MessagesStore
begin

text \<open>
  \<open>ConversationsProvider\<close> of \<open>web/src/lib/conversations-context.tsx\<close>: the list behind the
  sidebar. Every asynchronous operation is given the result of its API call. The contract other
  components rely on (find a conversation by id after an update) is the locale \<open>directory\<close>; its
  client here is the stream of titles that \<open>MessagesProvider\<close> sends on.
\<close>

section \<open>State and operations\<close>

record Conversation =
  conv_id :: int
  title :: jstring
  conv_created_at :: jstring
  updated_at :: jstring

text \<open>\<open>ignore\<close> is the flag of the mount effect, set by its cleanup.\<close>

record sidebar =
  conversations :: "Conversation list"
  list_loading :: bool
  list_error :: "jstring option"
  ignore :: bool

definition mounted :: sidebar where
  "mounted = \<lparr>conversations = [], list_loading = True, list_error = None, ignore = False\<rparr>"

text \<open>The effect's promise chain: \<open>then\<close>, \<open>catch\<close>, \<open>finally\<close>.\<close>

definition listed :: "exn + Conversation list \<Rightarrow> sidebar \<Rightarrow> sidebar" where
  "listed r s =
     (if ignore s then s
      else (case r of
              Inr list \<Rightarrow> s\<lparr>conversations := list\<rparr>
            | Inl _ \<Rightarrow> s\<lparr>list_error := Some (js ''Couldn'' @ [0x2019] @ js ''t load conversations'')\<rparr>)
           \<lparr>list_loading := False\<rparr>)"

definition unmount :: "sidebar \<Rightarrow> sidebar" where
  "unmount s = s\<lparr>ignore := True\<rparr>"

definition create :: "exn + Conversation \<Rightarrow> sidebar \<Rightarrow> (exn + Conversation) \<times> sidebar" where
  "create r s =
     (r, case r of Inr convo \<Rightarrow> s\<lparr>conversations := convo # conversations s\<rparr> | Inl _ \<Rightarrow> s)"

definition rename :: "int \<Rightarrow> jstring \<Rightarrow> exn + unit \<Rightarrow> sidebar \<Rightarrow> (exn + unit) \<times> sidebar" where
  "rename i t r s =
     (r, case r of
           Inr _ \<Rightarrow> s\<lparr>conversations := patch_by conv_id i (\<lambda>c. c\<lparr>title := t\<rparr>) (conversations s)\<rparr>
         | Inl _ \<Rightarrow> s)"

definition remove :: "int \<Rightarrow> exn + unit \<Rightarrow> sidebar \<Rightarrow> (exn + unit) \<times> sidebar" where
  "remove i r s =
     (r, case r of Inr _ \<Rightarrow> s\<lparr>conversations := remove_by conv_id i (conversations s)\<rparr> | Inl _ \<Rightarrow> s)"

text \<open>\<open>Partial<Conversation>\<close>: the fields present replace those of the row.\<close>

record fields =
  field_id :: "int option"
  field_title :: "jstring option"
  field_created_at :: "jstring option"
  field_updated_at :: "jstring option"

definition pick :: "'a option \<Rightarrow> 'a \<Rightarrow> 'a" where
  "pick f x = (case f of Some y \<Rightarrow> y | None \<Rightarrow> x)"

definition merge_fields :: "fields \<Rightarrow> Conversation \<Rightarrow> Conversation" where
  "merge_fields f c =
     \<lparr>conv_id = pick (field_id f) (conv_id c), title = pick (field_title f) (title c),
      conv_created_at = pick (field_created_at f) (conv_created_at c),
      updated_at = pick (field_updated_at f) (updated_at c)\<rparr>"

definition patchConversation :: "int \<Rightarrow> fields \<Rightarrow> sidebar \<Rightarrow> sidebar" where
  "patchConversation i f s = s\<lparr>conversations := patch_by conv_id i (merge_fields f) (conversations s)\<rparr>"

text \<open>\<open>patchConversation(id, { title })\<close>, the only call.\<close>

definition retitle :: "int \<Rightarrow> jstring \<Rightarrow> sidebar \<Rightarrow> sidebar" where
  "retitle i t =
     patchConversation i \<lparr>field_id = None, field_title = Some t, field_created_at = None, field_updated_at = None\<rparr>"

section \<open>The contract\<close>

definition find_conv :: "sidebar \<Rightarrow> int \<Rightarrow> Conversation option" where
  "find_conv s i = find (\<lambda>c. conv_id c = i) (conversations s)"

text \<open>
  What a client may rely on: titles are found where they were put, and putting one touches
  nothing else. \<open>show\<close> folds the titles a stream reports into the directory.
\<close>

locale directory =
  fixes lookup_title :: "'s \<Rightarrow> int \<Rightarrow> jstring option"
    and put_title :: "int \<Rightarrow> jstring \<Rightarrow> 's \<Rightarrow> 's"
  assumes put_same: "lookup_title (put_title i t s) i = map_option (\<lambda>_. t) (lookup_title s i)"
    and put_other: "j \<noteq> i \<Longrightarrow> lookup_title (put_title i t s) j = lookup_title s j"
begin

lemma put_all:
  "lookup_title (foldl (\<lambda>s (i, t). put_title i t s) s its) j =
     (case filter (\<lambda>(i, t). i = j) its of
        [] \<Rightarrow> lookup_title s j
      | p # ps \<Rightarrow> map_option (\<lambda>_. snd (last (p # ps))) (lookup_title s j))"
proof (induction its rule: rev_induct)
  case (snoc it its)
  obtain i t where it: "it = (i, t)" by fastforce
  show ?case
    using snoc put_same [of i t "foldl (\<lambda>s (i, t). put_title i t s) s its"]
      put_other [of j i t "foldl (\<lambda>s (i, t). put_title i t s) s its"]
    by (auto simp: it option.map_comp comp_def split: list.splits)
qed simp

lemma put_all_present:
  "lookup_title (foldl (\<lambda>s (i, t). put_title i t s) s its) j = None \<longleftrightarrow> lookup_title s j = None"
  unfolding put_all by (auto split: list.split)

end

definition title_in :: "sidebar \<Rightarrow> int \<Rightarrow> jstring option" where
  "title_in s i = map_option title (find_conv s i)"

lemma find_patch_by:
  "(\<And>c. key (f c) = key c) \<Longrightarrow>
   find (\<lambda>c. key c = j) (patch_by key i f xs) =
     (if j = i then map_option f (find (\<lambda>c. key c = j) xs) else find (\<lambda>c. key c = j) xs)"
  by (induction xs) auto

lemma find_remove_by:
  "find (\<lambda>c. key c = j) (remove_by key i xs) = (if j = i then None else find (\<lambda>c. key c = j) xs)"
  by (induction xs) auto

lemma title_in_retitle:
  "title_in (retitle i t s) j = (if j = i then map_option (\<lambda>_. t) (title_in s i) else title_in s j)"
  by (simp add: title_in_def find_conv_def retitle_def patchConversation_def find_patch_by merge_fields_def
      pick_def option.map_comp comp_def)

interpretation titles: directory title_in retitle
  by unfold_locales (simp_all add: title_in_retitle)

section \<open>Properties\<close>


text \<open>The titles a run of the message store sends to the sidebar.\<close>

definition titles_of :: "effect list \<Rightarrow> (int \<times> jstring) list" where
  "titles_of es = List.map_filter (\<lambda>e. case e of PatchTitle i t \<Rightarrow> Some (i, t) | RefreshUsage \<Rightarrow> None) es"

definition deliver_titles :: "effect list \<Rightarrow> sidebar \<Rightarrow> sidebar" where
  "deliver_titles es s = foldl (\<lambda>s (i, t). retitle i t s) s (titles_of es)"

text \<open>
  The sidebar shows, for each conversation it lists, the last title its turns reported, and
  its own title if they reported none; titles never add or remove a conversation.
\<close>

theorem titles_delivered:
  "title_in (deliver_titles es s) j =
     (case filter (\<lambda>(i, t). i = j) (titles_of es) of
        [] \<Rightarrow> title_in s j
      | p # ps \<Rightarrow> map_option (\<lambda>_. snd (last (p # ps))) (title_in s j)) \<and>
   (title_in (deliver_titles es s) j = None) = (title_in s j = None)"
  unfolding deliver_titles_def using titles.put_all titles.put_all_present by blast

text \<open>
  The list of the mount effect replaces whatever is there: a conversation created while it was
  under way disappears from the sidebar if the answer is older than the creation.
\<close>

theorem late_list_drops_created:
  "find_conv (listed (Inr []) (snd (create (Inr c) mounted))) (conv_id c) = None"
  by (simp add: listed_def create_def mounted_def find_conv_def)

end
