(* ===== verification/Forms.thy ===== *)
theory Forms
  imports Conversations Auth
begin

text \<open>
  The components that turn input into calls: the composer, the home page that opens a
  conversation, a row of the sidebar (rename, delete), the actions under a reply (votes, notes),
  and the dialog that deletes the account. A handler that awaits a call is given the call's
  result; where calls may overlap it is split at the \<open>await\<close>.
\<close>

section \<open>Composer\<close>

text \<open>\<open>components/composer.tsx\<close>. What \<open>autoSize\<close> measured is part of the change event.\<close>

record composer =
  draft_text :: jstring
  expanded :: bool

definition composer_empty :: composer where
  "composer_empty = \<lparr>draft_text = [], expanded = False\<rparr>"

record key_event =
  key :: jstring
  meta_key :: bool
  ctrl_key :: bool
  alt_key :: bool
  shift_key :: bool

text \<open>\<open>submit\<close>: the text handed to \<open>onSend\<close>, if any.\<close>

definition submit :: "composer \<Rightarrow> jstring option \<times> composer" where
  "submit c =
     (let trimmed = trim (draft_text c) in
      if trimmed = [] then (None, c) else (Some trimmed, c\<lparr>draft_text := [], expanded := False\<rparr>))"

definition onKeyDown :: "key_event \<Rightarrow> composer \<Rightarrow> jstring option \<times> composer" where
  "onKeyDown k c = (if key k = js ''Enter'' \<and> \<not> shift_key k then submit c else (None, c))"

text \<open>
  \<open>focusOnType\<close>, for a key pressed anywhere: \<open>elsewhere\<close> says that an element other than the body
  has the focus, \<open>disabled\<close> that the text area is disabled.
\<close>

definition focusOnType :: "bool \<Rightarrow> bool \<Rightarrow> bool \<Rightarrow> key_event \<Rightarrow> composer \<Rightarrow> composer" where
  "focusOnType captureTyping disabled elsewhere k c =
     (if \<not> captureTyping then c
      else if disabled then c
      else if meta_key k \<or> ctrl_key k \<or> alt_key k \<or> length (key k) \<noteq> 1 then c
      else if elsewhere then c
      else c\<lparr>draft_text := draft_text c @ key k\<rparr>)"

definition onChange :: "jstring \<Rightarrow> bool \<Rightarrow> composer \<Rightarrow> composer" where
  "onChange value wraps c = c\<lparr>draft_text := value, expanded := wraps\<rparr>"

text \<open>
  The rendered composer: while \<open>sending\<close> the text area is disabled (it gets no input events) and
  the button is Stop instead of Send.
\<close>

datatype composer_event = Change jstring bool | KeyDown key_event | ClickSend | ClickStop | DocumentKey bool key_event

datatype composer_call = OnSend jstring | OnStop

definition composer_step :: "bool \<Rightarrow> bool \<Rightarrow> composer_event \<Rightarrow> composer \<Rightarrow> composer_call list \<times> composer" where
  "composer_step captureTyping busy ev c =
     (case ev of
        Change value wraps \<Rightarrow> ([], if busy then c else onChange value wraps c)
      | KeyDown k \<Rightarrow>
          if busy then ([], c) else (case onKeyDown k c of (t, c') \<Rightarrow> (case t of Some s \<Rightarrow> [OnSend s] | None \<Rightarrow> [], c'))
      | ClickSend \<Rightarrow>
          if busy then ([], c) else (case submit c of (t, c') \<Rightarrow> (case t of Some s \<Rightarrow> [OnSend s] | None \<Rightarrow> [], c'))
      | ClickStop \<Rightarrow> (if busy then [OnStop] else [], c)
      | DocumentKey elsewhere k \<Rightarrow> ([], focusOnType captureTyping busy elsewhere k c))"

text \<open>
  What the composer sends is never blank, is trimmed, and clears the field; while a turn is
  running it sends nothing and keeps the draft as it is.
\<close>

theorem composer_sends:
  "(case fst (composer_step cap busy ev c) of
      [OnSend t] \<Rightarrow> \<not> busy \<and> t \<noteq> [] \<and> t = trim (draft_text c) \<and> trim t = t \<and>
        draft_text (snd (composer_step cap busy ev c)) = []
    | [OnStop] \<Rightarrow> busy
    | cs \<Rightarrow> cs = []) \<and>
   (busy \<longrightarrow> snd (composer_step cap busy ev c) = c)"
  by (cases ev) (auto simp: composer_step_def onKeyDown_def submit_def focusOnType_def Let_def)

theorem composer_sends_witness:
  "snd (composer_step True True ClickSend \<lparr>draft_text = js '' hi '', expanded = False\<rparr>) =
     \<lparr>draft_text = js '' hi '', expanded = False\<rparr>"
  using composer_sends [where cap = True and busy = True and ev = ClickSend and c = "\<lparr>draft_text = js '' hi '', expanded = False\<rparr>"]
  by blast

section \<open>The home page\<close>

text \<open>\<open>app/(app)/page.tsx\<close>: \<open>sendNew\<close> over \<open>create\<close>, then the route.\<close>

record home =
  home_sending :: bool
  route :: "jstring option"
  home_toasts :: "jstring list"

text \<open>The arguments: the result of \<open>createConversation\<close>, the message, the page, the sidebar, the store.\<close>

definition home_onSend ::
  "exn + Conversation \<Rightarrow> jstring \<Rightarrow> home \<times> sidebar \<times> store \<Rightarrow> home \<times> sidebar \<times> store" where
  "home_onSend r txt hst =
     (let (h, s, st) = hst; (r1, s1) = create r s in
      case r1 of
        Inl _ \<Rightarrow> (h\<lparr>home_toasts := home_toasts h @ [js ''Could not create conversation''], home_sending := False\<rparr>, s1, st)
      | Inr convo \<Rightarrow>
          (h\<lparr>home_sending := True, route := Some (js ''/c/'' @ int_str (conv_id convo))\<rparr>, s1,
           sendNew (conv_id convo) txt st))"

text \<open>
  Sending from the home page opens exactly one conversation: it is first in the sidebar, its
  message list is the user's message and the streaming placeholder, its page is the next route,
  and the visit of that page does not fetch it; if it cannot be created, sidebar and store are
  unchanged, the user is told and may try again.
\<close>

theorem home_send:
  "(let (h', s', st') = home_onSend (Inr convo) txt (h, s, st); i = conv_id convo in
      conversations s' = convo # conversations s \<and>
      messages (conv_state st' i) = [user_message (tempId st - 1) txt, placeholder (tempId st - 2)] \<and>
      sending (conv_state st' i) \<and> \<not> loading (conv_state st' i) \<and>
      route h' = Some (js ''/c/'' @ int_str i) \<and> load i st' = st') \<and>
   (let (h', s', st') = home_onSend (Inl e) txt (h, s, st) in
      s' = s \<and> st' = st \<and> \<not> home_sending h' \<and> home_toasts h' = home_toasts h @ [js ''Could not create conversation''])"
  by (simp add: home_onSend_def create_def sendNew_def send_def load_def Let_def patch_def conv_state_def)

section \<open>A row of the sidebar\<close>

text \<open>\<open>components/conversation-item.tsx\<close>: the row, its menu, and the calls it makes.\<close>

record item =
  editing :: bool
  draft :: jstring
  confirming :: bool

definition item_mounted :: "Conversation \<Rightarrow> item" where
  "item_mounted c = \<lparr>editing = False, draft = title c, confirming = False\<rparr>"

definition onRename :: "item \<Rightarrow> item" where
  "onRename it = it\<lparr>editing := True\<rparr>"

definition cancelEdit :: "Conversation \<Rightarrow> item \<Rightarrow> item" where
  "cancelEdit c it = it\<lparr>draft := title c, editing := False\<rparr>"

definition saveRename ::
  "Conversation \<Rightarrow> exn + unit \<Rightarrow> item \<times> sidebar \<Rightarrow> jstring list \<times> item \<times> sidebar" where
  "saveRename c r its =
     (let (it, s) = its; t = trim (draft it) in
      if t \<noteq> [] \<and> t \<noteq> title c
      then (let (r1, s1) = rename (conv_id c) t r s in
            case r1 of
              Inl _ \<Rightarrow> ([js ''Could not rename conversation''], cancelEdit c it, s1)
            | Inr _ \<Rightarrow> ([], it\<lparr>editing := False\<rparr>, s1))
      else ([], it\<lparr>editing := False\<rparr>, s))"

text \<open>The Delete button of the menu: toasts, the route pushed, the row, the sidebar.\<close>

definition confirmDelete ::
  "Conversation \<Rightarrow> bool \<Rightarrow> exn + unit \<Rightarrow> item \<times> sidebar \<Rightarrow> jstring list \<times> jstring option \<times> item \<times> sidebar" where
  "confirmDelete c isOpen r its =
     (let (it, s) = its; (r1, s1) = remove (conv_id c) r s in
      case r1 of
        Inl _ \<Rightarrow> ([js ''Could not delete conversation''], None, it\<lparr>confirming := False\<rparr>, s1)
      | Inr _ \<Rightarrow> ([], if isOpen then Some (js ''/'') else None, it, s1))"

definition row_label :: "Conversation \<Rightarrow> jstring" where
  "row_label c = (if title c = [] then js ''New conversation'' else title c)"

lemma find_conv_rename:
  "find_conv (snd (rename i t r s)) =
     (case r of Inr _ \<Rightarrow> (find_conv s)(i := map_option (\<lambda>d. d\<lparr>title := t\<rparr>) (find_conv s i)) | Inl _ \<Rightarrow> find_conv s)"
  using find_patch_by [of conv_id "\<lambda>d. d\<lparr>title := t\<rparr>" _ i "conversations s"]
  by (auto simp: rename_def find_conv_def fun_eq_iff split: sum.split)

lemma find_conv_remove:
  "find_conv (snd (remove i r s)) = (case r of Inr _ \<Rightarrow> (find_conv s)(i := None) | Inl _ \<Rightarrow> find_conv s)"
  by (auto simp: remove_def find_conv_def find_remove_by fun_eq_iff split: sum.split)

lemma call_results [simp]:
  "fst (create rc s) = rc" "fst (rename i t r s) = r" "fst (remove i r s) = r"
  by (simp_all add: create_def rename_def remove_def)

text \<open>
  Saving a rename ends the edit in every case; the new title is the trimmed draft and only
  reaches the conversation if it is not empty and the call succeeds; after a failure the row is
  back at the old title and the user is told. Deleting removes the conversation only on success
  and then leaves its page if it was open.
\<close>

theorem item_edits:
  "(let (ts, it', s') = saveRename c r (it, s); t = trim (draft it) in
      \<not> editing it' \<and>
      find_conv s' = (find_conv s)(conv_id c :=
        (if t \<noteq> [] \<and> t \<noteq> title c \<and> r = Inr () then map_option (\<lambda>d. d\<lparr>title := t\<rparr>) (find_conv s (conv_id c))
         else find_conv s (conv_id c))) \<and>
      (t \<noteq> [] \<and> t \<noteq> title c \<and> r \<noteq> Inr () \<longrightarrow> draft it' = title c \<and> ts = [js ''Could not rename conversation''])) \<and>
   (let (ts, dest, it', s') = confirmDelete c isOpen r (it, s) in
      find_conv s' = (if r = Inr () then (find_conv s)(conv_id c := None) else find_conv s) \<and>
      (dest = Some (js ''/'')) = (r = Inr () \<and> isOpen) \<and> (ts = []) = (r = Inr ()))"
  by (cases r)
    (auto simp: saveRename_def confirmDelete_def case_prod_beta Let_def find_conv_rename find_conv_remove cancelEdit_def)

theorem item_edits_witness:
  "let c = \<lparr>conv_id = 1, title = js ''old'', conv_created_at = [], updated_at = []\<rparr>;
       s = mounted\<lparr>conversations := [c]\<rparr>;
       (ts, it', s') = saveRename c (Inl TypeError) (\<lparr>editing = True, draft = js ''new'', confirming = False\<rparr>, s)
   in draft it' = js ''old'' \<and> \<not> editing it'"
  using item_edits [of "\<lparr>conv_id = 1, title = js ''old'', conv_created_at = [], updated_at = []\<rparr>" "Inl TypeError"
      "\<lparr>editing = True, draft = js ''new'', confirming = False\<rparr>"
      "mounted\<lparr>conversations := [\<lparr>conv_id = 1, title = js ''old'', conv_created_at = [], updated_at = []\<rparr>]\<rparr>" True]
  by (simp add: saveRename_def rename_def cancelEdit_def Let_def trim_def js_text is_ws_def)

text \<open>
  The draft is set when the row is mounted and by \<open>cancelEdit\<close>, not when the title changes: after
  a title from the stream, opening the editor and pressing Enter asks for the old title again.
\<close>

theorem stale_draft_renames_back:
  assumes "trim (title c) \<noteq> []" and "trim (title c) \<noteq> t"
  shows "find_conv (snd (snd (saveRename (c\<lparr>title := t\<rparr>) (Inr ())
      (onRename (item_mounted c), mounted\<lparr>conversations := [c\<lparr>title := t\<rparr>]\<rparr>)))) (conv_id c) =
    Some (c\<lparr>title := trim (title c)\<rparr>)"
  using assms by (simp add: saveRename_def onRename_def item_mounted_def rename_def find_conv_def Let_def)

end
