(* ===== verification/Feedback.thy ===== *)
theory Feedback
  imports Forms
begin

text \<open>
  The row under an assistant reply (\<open>components/message-actions.tsx\<close>): votes, the note dialog, the
  copy button; and the dialog that deletes the account (\<open>components/delete-account-dialog.tsx\<close>).
  A vote is split at its \<open>await\<close>, so that overlapping votes can be expressed; the rating that the
  server holds is part of the state of the specification only.
\<close>

section \<open>Votes\<close>

text \<open>\<open>rated\<close> records the calls of \<open>onRate\<close>, \<open>told\<close> the toasts.\<close>

record actions =
  rating :: "int option"
  note_text :: jstring
  noteOpen :: bool
  copied :: bool
  rated :: "int option list"
  told :: "jstring list"

definition actions_mounted :: "int option \<Rightarrow> actions" where
  "actions_mounted initialRating =
     \<lparr>rating = initialRating, note_text = [], noteOpen = False, copied = False, rated = [], told = []\<rparr>"

text \<open>A call under way: the rating it replaces and, for \<open>sendFeedback\<close>, the rating sent.\<close>

datatype vote_call = Clear "int option" | Cast "int option" int

definition vote :: "int \<Rightarrow> actions \<Rightarrow> vote_call \<times> actions" where
  "vote new_rating a =
     (if Some new_rating = rating a
      then (Clear (rating a), a\<lparr>rating := None, note_text := [], noteOpen := False\<rparr>)
      else (Cast (rating a) new_rating, a\<lparr>rating := Some new_rating, note_text := [], noteOpen := True\<rparr>))"

fun vote_settled :: "vote_call \<Rightarrow> exn + unit \<Rightarrow> actions \<Rightarrow> actions" where
  "vote_settled (Clear prev) r a =
     (case r of
        Inr _ \<Rightarrow> a\<lparr>rated := rated a @ [None]\<rparr>
      | Inl _ \<Rightarrow> a\<lparr>rating := prev, told := told a @ [js ''Could not clear feedback'']\<rparr>)"
| "vote_settled (Cast prev v) r a =
     (case r of
        Inr _ \<Rightarrow> a\<lparr>rated := rated a @ [Some v]\<rparr>
      | Inl _ \<Rightarrow> a\<lparr>rating := prev, noteOpen := False, told := told a @ [js ''Could not save feedback'']\<rparr>)"

text \<open>\<open>submitNote\<close> with the value of the text area, up to its \<open>await\<close>: the feedback sent, if any.\<close>

definition submitNote :: "jstring \<Rightarrow> actions \<Rightarrow> (int \<times> jstring) option \<times> actions" where
  "submitNote value a =
     (let t = trim value; a1 = a\<lparr>noteOpen := False\<rparr> in
      case rating a of
        None \<Rightarrow> (None, a1)
      | Some v \<Rightarrow> if t = [] then (None, a1) else (Some (v, t), a1\<lparr>note_text := t\<rparr>))"

definition note_settled :: "exn + unit \<Rightarrow> actions \<Rightarrow> actions" where
  "note_settled r a =
     (case r of Inr _ \<Rightarrow> a | Inl _ \<Rightarrow> a\<lparr>told := told a @ [js ''Could not save note'']\<rparr>)"

definition copy_settled :: "bool \<Rightarrow> actions \<Rightarrow> actions" where
  "copy_settled written a =
     (if written then a\<lparr>copied := True\<rparr> else a\<lparr>told := told a @ [js ''Could not copy'']\<rparr>)"

definition copy_timeout :: "actions \<Rightarrow> actions" where
  "copy_timeout a = a\<lparr>copied := False\<rparr>"

text \<open>The requests of the calls, through the client.\<close>

definition vote_request :: "env \<Rightarrow> int \<Rightarrow> vote_call \<Rightarrow> client \<Rightarrow> (exn + unit) \<times> client" where
  "vote_request E messageId call st =
     (case call of
        Clear _ \<Rightarrow> clearFeedback E messageId st
      | Cast _ v \<Rightarrow> sendFeedback E messageId v None st)"

subsection \<open>The specification: one rating on the server\<close>

fun server_vote :: "vote_call \<Rightarrow> exn + unit \<Rightarrow> int option \<Rightarrow> int option" where
  "server_vote call (Inl _) s = s"
| "server_vote (Clear _) (Inr _) s = None"
| "server_vote (Cast _ v) (Inr _) s = Some v"

text \<open>A vote whose call settles before anything else happens; what the message store is told.\<close>

definition vote_now :: "int \<times> (exn + unit) \<Rightarrow> actions \<times> int option \<Rightarrow> actions \<times> int option" where
  "vote_now vr as =
     (let (call, a) = vote (fst vr) (fst as)
      in (vote_settled call (snd vr) a, server_vote call (snd vr) (snd as)))"

definition cached_rating :: "int option \<Rightarrow> actions \<Rightarrow> int option" where
  "cached_rating initialRating a = (if rated a = [] then initialRating else last (rated a))"

definition votes_agree :: "int option \<Rightarrow> actions \<times> int option \<Rightarrow> bool" where
  "votes_agree initialRating as \<longleftrightarrow>
     rating (fst as) = snd as \<and> cached_rating initialRating (fst as) = snd as"

lemma votes_agree_step: "votes_agree i as \<Longrightarrow> votes_agree i (vote_now vr as)"
  by (cases vr; cases as; cases "snd vr")
    (auto simp: vote_now_def vote_def votes_agree_def cached_rating_def Let_def split: if_splits)

interpretation votes: machine_invariant "\<lambda>as vr. vote_now vr as" "votes_agree i" for i
  by unfold_locales (rule votes_agree_step)

text \<open>
  As long as each vote settles before the next, the rating shown, the vote kept in the message cache
  and the rating on the server are the same after every sequence of votes.
\<close>

theorem votes_in_sync:
  "let (a, server) = foldl (\<lambda>as vr. vote_now vr as) (actions_mounted i, i) vrs in
   rating a = server \<and> cached_rating i a = server"
proof -
  have "votes_agree i (actions_mounted i, i)"
    by (simp add: votes_agree_def cached_rating_def actions_mounted_def)
  from votes.inv_run [OF this, of vrs] show ?thesis
    by (simp add: votes_agree_def case_prod_beta Let_def)
qed

text \<open>
  A note is sent only for a rating, trimmed and not blank, and submitting always closes the
  dialog; a new vote drops the old note and opens the dialog, taking a vote back closes it.
\<close>

theorem notes_follow_votes:
  "(case submitNote value a of (sent, a') \<Rightarrow>
      \<not> noteOpen a' \<and> rating a' = rating a \<and>
      (sent = None) = (rating a = None \<or> trim value = []) \<and>
      (case sent of None \<Rightarrow> note_text a' = note_text a | Some (v, t) \<Rightarrow> rating a = Some v \<and> t = trim value \<and> note_text a' = t)) \<and>
   (case vote v a of (call, a') \<Rightarrow>
      note_text a' = [] \<and> noteOpen a' = (rating a \<noteq> Some v) \<and> rating a' = (if rating a = Some v then None else Some v))"
  by (auto simp: submitNote_def vote_def Let_def split: option.splits)

text \<open>
  Overlapping votes: when a first vote fails after a second one succeeded, its rollback restores
  the rating from before the first, while the server and the cache hold the second.
\<close>

theorem overlapping_votes_diverge:
  "let a0 = actions_mounted None;
       (c1, a1) = vote 1 a0;
       (c2, a2) = vote (- 1) a1;
       a3 = vote_settled c2 (Inr ()) a2;
       a4 = vote_settled c1 (Inl TypeError) a3
   in rating a4 = None \<and> cached_rating None a4 = Some (- 1) \<and>
      server_vote c1 (Inl TypeError) (server_vote c2 (Inr ()) None) = Some (- 1)"
  by (simp add: actions_mounted_def vote_def cached_rating_def Let_def)

section \<open>Deleting the account\<close>

text \<open>
  \<open>toLowerCase\<close> is a parameter; the user's e-mail is read off the user the provider holds.
\<close>

record delete_dialog =
  confirm :: jstring
  delete_busy :: bool

definition user_email :: "auth \<Rightarrow> jstring option" where
  "user_email a =
     (case get_prop (js ''email'') (Json (user a)) of Some (Json (JStr s)) \<Rightarrow> Some s | _ \<Rightarrow> None)"

definition matches :: "(jstring \<Rightarrow> jstring) \<Rightarrow> auth \<Rightarrow> delete_dialog \<Rightarrow> bool" where
  "matches toLower a d =
     (case user_email a of None \<Rightarrow> False | Some m \<Rightarrow> m \<noteq> [] \<and> toLower (trim (confirm d)) = toLower m)"

text \<open>
  The click on the Delete button, which is disabled without a match or while busy: the toasts, the
  route, the dialog, the provider. A rejected logout ends the handler.
\<close>

definition onDelete ::
  "env \<Rightarrow> delete_dialog \<times> auth \<Rightarrow> jstring list \<times> jstring option \<times> delete_dialog \<times> auth" where
  "onDelete E da =
     (let (d, a) = da; d1 = d\<lparr>delete_busy := True\<rparr>;
          (r, c) = deleteAccount E (trim (confirm d)) (api a); a1 = after_call c a
      in case r of
           Inl _ \<Rightarrow> ([js ''Could not delete your account''], None, d1\<lparr>delete_busy := False\<rparr>, a1)
         | Inr _ \<Rightarrow>
             (let (r2, a2) = auth_logout E a1 in
              case r2 of
                Inl _ \<Rightarrow> ([], None, d1, a2)
              | Inr _ \<Rightarrow> ([js ''Account deleted''], Some (js ''/login''), d1, a2)))"

definition delete_click ::
  "(jstring \<Rightarrow> jstring) \<Rightarrow> env \<Rightarrow> delete_dialog \<times> auth \<Rightarrow> jstring list \<times> jstring option \<times> delete_dialog \<times> auth" where
  "delete_click toLower E da =
     (if \<not> matches toLower (snd da) (fst da) \<or> delete_busy (fst da) then ([], None, da) else onDelete E da)"

text \<open>
  The account is only deleted after the user's own address was typed: without a match, or
  while a deletion runs, the click makes no request and changes nothing; with one, the sign-in
  page is the next route only if the deletion succeeded and the session is over.
\<close>

theorem delete_needs_confirmation:
  "(\<not> matches toLower a d \<or> delete_busy d \<longrightarrow> delete_click toLower E (d, a) = ([], None, d, a)) \<and>
   (case delete_click toLower E (d, a) of (ts, dest, d', a') \<Rightarrow>
      dest = None \<or>
      (matches toLower a d \<and> fst (deleteAccount E (trim (confirm d)) (api a)) = Inr () \<and>
       auth_status a' = Anon \<and> user a' = JNull \<and> accessToken (api a') = Json JNull))"
proof -
  have out: "auth_status (snd (auth_logout E b)) = Anon \<and> user (snd (auth_logout E b)) = JNull \<and>
      accessToken (api (snd (auth_logout E b))) = Json JNull"
    if "fst (auth_logout E b) = Inr u" for b u
    using that by (auto simp: auth_logout_def logout_def case_prod_beta Let_def split: sum.splits)
  show ?thesis
    by (auto simp: delete_click_def onDelete_def case_prod_beta Let_def prod_eq_iff out split: sum.splits)
qed

theorem delete_needs_confirmation_witness:
  "delete_click (\<lambda>s. s) (scripted []) (\<lparr>confirm = js ''x'', delete_busy = False\<rparr>, auth_start signed_in) =
     ([], None, \<lparr>confirm = js ''x'', delete_busy = False\<rparr>, auth_start signed_in)"
proof -
  have "\<not> matches (\<lambda>s. s) (auth_start signed_in) \<lparr>confirm = js ''x'', delete_busy = False\<rparr>"
    by (simp add: matches_def user_email_def auth_start_def)
  then show ?thesis using delete_needs_confirmation [of "\<lambda>s. s" "auth_start signed_in"] by blast
qed

end
