(* ===== verification/View.thy ===== *)
theory View
  imports Feedback
begin

text \<open>
  What the components render, as data: the rows of a turn (\<open>components/turn/*.tsx\<close>), the message
  list (\<open>message-list.tsx\<close>), the plan dock (\<open>plan-dock.tsx\<close>) and the conversation page
  (\<open>app/(app)/c/[id]/page.tsx\<close>). Styling is left out;
  Markdown is kept as its source text.
\<close>

section \<open>Rows\<close>

text \<open>
  A row header with its chip, its one-line detail, whether the chip pulses, whether it can be
  expanded, and the drawer if it is open; or a text with its size and its caret.
\<close>

datatype view =
    Row label jstring bool bool "view list"
  | Prose jstring bool bool
  | Note jstring

text \<open>
  \<open>RowHeader\<close>: \<open>overflows\<close> is what the browser measured for the detail. A row that cannot be
  expanded has no button, but an open drawer stays.
\<close>

definition expandable :: "bool \<Rightarrow> bool \<Rightarrow> bool" where
  "expandable overflows hasMore \<longleftrightarrow> overflows \<or> hasMore"

definition RowHeader :: "label \<Rightarrow> jstring \<Rightarrow> bool \<Rightarrow> bool \<Rightarrow> bool \<Rightarrow> view list \<Rightarrow> view" where
  "RowHeader lbl detail active overflow hasMore drawer = Row lbl detail active (expandable overflow hasMore) drawer"

text \<open>\<open>stringify\<close> of \<open>tool-row.tsx\<close>.\<close>

definition tool_value :: "jsval \<Rightarrow> jstring" where
  "tool_value v =
     (case v of
        Undefined \<Rightarrow> []
      | Json JNull \<Rightarrow> []
      | Json (JStr s) \<Rightarrow> s
      | Json w \<Rightarrow> stringify (js ''  '') [] w)"

definition text_or_empty :: "jstring option \<Rightarrow> jstring" where
  "text_or_empty t = (case t of Some s \<Rightarrow> s | None \<Rightarrow> [])"

text \<open>
  The local state of the components: which rows are open and which details overflow, by node; and
  whether the plan dock is open.
\<close>

record ui =
  is_open :: "RunNode \<Rightarrow> bool"
  overflows :: "RunNode \<Rightarrow> bool"
  dock_is_open :: bool

definition ReasoningRow :: "ui \<Rightarrow> RunNode \<Rightarrow> view" where
  "ReasoningRow u n =
     (let t = text_or_empty (node_text n)
      in RowHeader (Label (js ''thinking'')) t False (overflows u n) False (if is_open u n then [Note t] else []))"

definition CompactionRow :: "ui \<Rightarrow> bool \<Rightarrow> RunNode \<Rightarrow> view" where
  "CompactionRow u active n =
     (let t = text_or_empty (node_text n)
      in RowHeader (Label (js ''compacting'')) (js ''Summarizing earlier conversation'' @ [0x2026]) active
           (overflows u n) (t \<noteq> []) (if is_open u n then [Note t] else []))"

definition ToolRow :: "ui \<Rightarrow> bool \<Rightarrow> RunNode \<Rightarrow> view" where
  "ToolRow u active n =
     (let out = tool_value (node_output n);
          shown = (if out \<noteq> [] then out else tool_value (node_input n))
      in RowHeader (toolLabel (text_or_empty (node_name n))) (inputDetail (node_input n)) active
           (overflows u n) (out \<noteq> []) (if is_open u n then [Note shown] else []))"

definition SubagentRow :: "ui \<Rightarrow> bool \<Rightarrow> RunNode tree \<Rightarrow> view list \<Rightarrow> view" where
  "SubagentRow u active t inner =
     (let n = node t; task = inputDetail (node_input n)
      in RowHeader (toolLabel (text_or_empty (node_name n))) task active (overflows u n)
           (children t \<noteq> [] \<or> task \<noteq> [])
           (if is_open u n then (if task \<noteq> [] then [Note task] else []) @ inner else []))"

definition TextBlock :: "RunNode \<Rightarrow> bool \<Rightarrow> bool \<Rightarrow> view" where
  "TextBlock n nested streams = Prose (text_or_empty (node_text n)) nested (streams \<and> \<not> nested)"

lemmas row_defs = RowHeader_def ReasoningRow_def CompactionRow_def ToolRow_def SubagentRow_def TextBlock_def

text \<open>\<open>NodeRow\<close>: a tool without output is running while the turn streams.\<close>

fun NodeRow :: "ui \<Rightarrow> bool \<Rightarrow> bool \<Rightarrow> bool \<Rightarrow> RunNode tree \<Rightarrow> view list" where
  "NodeRow u turnStreaming caret nested (TreeNode n kids) =
     (let active = (turnStreaming \<and> node_output n = Undefined) in
      if node_type n = Reasoning then [ReasoningRow u n]
      else if node_type n = TextKind then
        (if trim (text_or_empty (node_text n)) = [] then []
         else [TextBlock n nested caret])
      else if node_type n = Compaction then [CompactionRow u active n]
      else if node_type n \<noteq> Tool then []
      else if node_name n = Some (js ''set_todos'') then []
      else if kids \<noteq> [] then
        [SubagentRow u active (TreeNode n kids) (concat (map (NodeRow u turnStreaming False True) kids))]
      else [ToolRow u active n])"

section \<open>The message list\<close>

datatype message_row =
    Bubble jstring
  | Reply "view list" "(int \<times> jstring \<times> int option) option"
  | PlainReply jstring bool "(int \<times> jstring \<times> int option) option"

text \<open>\<open>tree[tree.length - 1]\<close>, if it is a text node.\<close>

definition caretId :: "RunNode tree list \<Rightarrow> jstring option" where
  "caretId ts =
     (if ts = [] then None
      else let n = node (last ts) in if node_type n = TextKind then Some (node_id n) else None)"

definition timeline :: "ui \<Rightarrow> bool \<Rightarrow> RunNode tree list \<Rightarrow> view list" where
  "timeline u streams ts =
     concat (map (\<lambda>t. NodeRow u streams (streams \<and> Some (node_id (node t)) = caretId ts) False t) ts)"

text \<open>\<open>MessageActions\<close> under a reply that is not streaming: the id, the text to copy, the rating.\<close>

definition reply_actions :: "ChatMessage \<Rightarrow> (int \<times> jstring \<times> int option) option" where
  "reply_actions m =
     (if streaming m then None
      else Some (msg_id m, if shown_nodes m \<noteq> [] then answerText (shown_nodes m) else content m, feedback m))"

definition AssistantMessage :: "ui \<Rightarrow> ChatMessage \<Rightarrow> message_row" where
  "AssistantMessage u m =
     (case (if shown_nodes m \<noteq> [] then buildTree (shown_nodes m) else None) of
        Some ts \<Rightarrow> Reply (timeline u (streaming m) ts) (reply_actions m)
      | None \<Rightarrow> PlainReply (content m) (streaming m) (reply_actions m))"

definition message_view :: "ui \<Rightarrow> ChatMessage \<Rightarrow> message_row" where
  "message_view u m = (if role m = js ''user'' then Bubble (content m) else AssistantMessage u m)"

section \<open>The plan dock\<close>

fun GLYPH :: "PlanProgress \<Rightarrow> jschar" where
  "GLYPH Completed = 0x25CF"
| "GLYPH InProgress = 0x25D0"
| "GLYPH Outstanding = 0x25CB"

text \<open>
  The header with its chip, which pulses while a turn runs, the current item and the counts; the
  checklist only while the dock is open.
\<close>

record dock =
  chip :: jstring
  pulses :: bool
  doing_now :: jstring
  done_count :: nat
  total_count :: nat
  checklist :: "(jschar \<times> jstring) list option"

definition PlanDock :: "ui \<Rightarrow> RunNode list \<Rightarrow> bool \<Rightarrow> dock option" where
  "PlanDock u ns is_running =
     (case latestPlan ns of
        None \<Rightarrow> None
      | Some todos \<Rightarrow>
          (let d = length (filter (\<lambda>t. progress t = Completed) todos); complete = (d = length todos)
           in Some \<lparr>chip = (if complete then js ''plan '' @ [0x2713] else js ''plan''),
                    pulses = is_running,
                    doing_now =
                      (if complete then js ''Plan complete''
                       else case find (\<lambda>t. progress t = InProgress) todos of
                              Some t \<Rightarrow> description t
                            | None \<Rightarrow> js ''Planning'' @ [0x2026]),
                    done_count = d, total_count = length todos,
                    checklist =
                      (if dock_is_open u then Some (map (\<lambda>t. (GLYPH (progress t), description t)) todos) else None)\<rparr>))"

section \<open>Pages\<close>

datatype body_view = SkeletonBody | EmptyBody | ListBody "message_row list"

datatype conv_page =
    NotFoundPage
  | ConvPage body_view "jstring option" "dock option" bool

text \<open>\<open>ConversationPage\<close>: body, error line, dock, and whether the composer is busy.\<close>

definition ConversationPage :: "ui \<Rightarrow> ConvState \<Rightarrow> conv_page" where
  "ConversationPage u s =
     (if notFound s then NotFoundPage
      else ConvPage
        (if loading s then SkeletonBody
         else if messages s = [] then EmptyBody
         else ListBody (map (message_view u) (messages s)))
        (case conv_error s of Some e \<Rightarrow> if e = [] then None else Some e | None \<Rightarrow> None)
        (PlanDock u (concat (map shown_nodes (messages s))) (sending s))
        (sending s))"

section \<open>Properties\<close>

fun running :: "view \<Rightarrow> bool" where
  "running (Row l d active e vs) \<longleftrightarrow> active \<or> list_ex running vs"
| "running (Prose t nested caret) \<longleftrightarrow> caret"
| "running (Note t) \<longleftrightarrow> False"

lemma NodeRow_idle: "v \<in> set (NodeRow u False False nested t) \<Longrightarrow> \<not> running v"
proof (induction t arbitrary: nested v)
  case (TreeNode n kids)
  then have kids: "\<not> running w" if "c \<in> set kids" "w \<in> set (NodeRow u False False True c)" for c w
    using that by blast
  from TreeNode.prems show ?case
    using kids
    by (auto simp: Let_def row_defs list_ex_iff split: if_splits)
qed

fun idle_message :: "message_row \<Rightarrow> bool" where
  "idle_message (Bubble t) \<longleftrightarrow> True"
| "idle_message (Reply vs acts) \<longleftrightarrow> \<not> list_ex running vs \<and> acts \<noteq> None"
| "idle_message (PlainReply t caret acts) \<longleftrightarrow> \<not> caret \<and> acts \<noteq> None"

text \<open>
  A message that is not streaming shows nothing that runs: no pulsing chip at any depth, no
  caret, whatever outputs are missing in its nodes; and it offers the copy and vote actions.
\<close>

theorem settled_message_idle: "\<not> streaming m \<Longrightarrow> idle_message (message_view u m)"
proof -
  assume "\<not> streaming m"
  moreover have "\<not> list_ex running (timeline u False ts)" for ts
    using NodeRow_idle [of _ u False] by (auto simp: timeline_def list_ex_iff)
  ultimately show ?thesis
    by (auto simp: message_view_def AssistantMessage_def reply_actions_def split: option.split)
qed

definition demo_ui :: ui where
  "demo_ui = \<lparr>is_open = (\<lambda>n. True), overflows = (\<lambda>n. False), dock_is_open = False\<rparr>"

theorem settled_message_idle_witness: "idle_message (message_view demo_ui old_message)"
  by (rule settled_message_idle) (simp add: old_message_def)

text \<open>The texts a timeline shows at its top level.\<close>

definition top_texts :: "view list \<Rightarrow> jstring list" where
  "top_texts vs = List.map_filter (\<lambda>v. case v of Prose t nested c \<Rightarrow> if nested then None else Some t | _ \<Rightarrow> None) vs"

text \<open>Every node with a parent id names a node of the log.\<close>

definition no_orphans :: "RunNode list \<Rightarrow> bool" where
  "no_orphans ns \<longleftrightarrow> (\<forall>i < length ns. has_parent_id (ns ! i) \<longrightarrow> parent_of ns i \<noteq> None)"

lemma top_texts_append: "top_texts (vs @ ws) = top_texts vs @ top_texts ws"
  by (simp add: top_texts_def List.map_filter_def)

lemma top_texts_concat: "top_texts (concat vss) = concat (map top_texts vss)"
  by (induction vss) (simp_all add: top_texts_append, simp add: top_texts_def List.map_filter_simps)

lemma top_texts_NodeRow:
  "top_texts (NodeRow u s c False t) =
     (if node_type (node t) = TextKind \<and> trim (text_or_empty (node_text (node t))) \<noteq> []
      then [text_or_empty (node_text (node t))] else [])"
  by (cases t)
    (auto simp: top_texts_def Let_def row_defs List.map_filter_simps)

lemma map_concat_trim:
  "map trim (concat (map (\<lambda>n. if P n \<and> trim (f n) \<noteq> [] then [f n] else []) ns)) =
   filter (\<lambda>s. s \<noteq> []) (map (\<lambda>n. trim (f n)) (filter P ns))"
  by (induction ns) auto

lemma buildTree_roots:
  assumes "buildTree ns = Some ts"
  shows "map node ts = map (\<lambda>i. ns ! i) (roots_of ns)"
proof -
  from assms obtain "is" where "index_forest ns = Some is" and ts: "ts = map (map_tree (\<lambda>i. ns ! i)) is"
    by (auto simp: buildTree_def)
  then have "map node is = roots_of ns" unfolding index_forest_eq using node_those by blast
  moreover have "map node ts = map (\<lambda>i. ns ! i) (map node is)" by (simp add: ts)
  ultimately show ?thesis by simp
qed

lemma roots_no_orphans:
  assumes "no_orphans ns"
  shows "map (\<lambda>i. ns ! i) (roots_of ns) = filter (\<lambda>n. \<not> has_parent_id n) ns"
proof -
  have "parent_of ns i = None \<longleftrightarrow> \<not> has_parent_id (ns ! i)" if "i < length ns" for i
    using assms that by (auto simp: no_orphans_def has_parent_id_def parent_of_def split: option.splits)
  then have "roots_of ns = filter (\<lambda>i. \<not> has_parent_id (ns ! i)) [0..<length ns]"
    unfolding roots_of_def by (intro filter_cong) auto
  moreover have "map (\<lambda>i. ns ! i) (filter (\<lambda>i. \<not> has_parent_id (ns ! i)) [0..<length ns]) =
      filter (\<lambda>n. \<not> has_parent_id n) (map (\<lambda>i. ns ! i) [0..<length ns])"
    by (simp only: filter_map comp_def)
  ultimately show ?thesis by (simp add: map_nth)
qed

lemma answerText_shown:
  "answerText ns =
     join [0xA, 0xA] (filter (\<lambda>s. s \<noteq> []) (map (\<lambda>n. trim (text_or_empty (node_text n)))
       (filter (\<lambda>n. \<not> has_parent_id n \<and> node_type n = TextKind) ns)))"
  by (simp add: answerText_def text_or_empty_def conj_commute)

lemma top_texts_copied:
  assumes "no_orphans ns" and "buildTree ns = Some ts"
  shows "answerText ns = join [0xA, 0xA] (map trim (top_texts (timeline u s ts)))"
proof -
  have "top_texts (timeline u s ts) =
      concat (map (\<lambda>n. if node_type n = TextKind \<and> trim (text_or_empty (node_text n)) \<noteq> []
                       then [text_or_empty (node_text n)] else []) (map node ts))"
    by (simp add: timeline_def top_texts_concat top_texts_NodeRow comp_def)
  then show ?thesis
    unfolding buildTree_roots [OF assms(2)] roots_no_orphans [OF assms(1)]
    by (simp add: map_concat_trim answerText_shown)
qed


definition demo_reply :: "RunNode list" where
  "demo_reply = [demo_node ''r'' None Reasoning, demo_node ''a'' None TextKind, demo_node ''s'' None Tool,
     demo_node ''x'' (Some ''s'') TextKind, demo_node ''b'' None TextKind]"


lemma all_filtered: "(length (filter P xs) = length xs) = list_all P xs"
proof (induction xs)
  case (Cons x xs)
  moreover have "length (filter P xs) \<noteq> Suc (length xs)" using length_filter_le [of P xs] by linarith
  ultimately show ?case by auto
qed simp

text \<open>
  The dock shows the last valid plan: it appears exactly if the log holds one, its counts are those
  of the plan, the chip has its tick exactly if all items are completed, the line shown while they
  are not is that of an item in progress if there is one, and the open checklist has one line per
  item, ticked exactly if it is completed.
\<close>

theorem plan_dock_counts:
  "case PlanDock u ns is_running of
     None \<Rightarrow> latestPlan ns = None
   | Some d \<Rightarrow> \<exists>todos. latestPlan ns = Some todos \<and> 0 < total_count d \<and> total_count d = length todos \<and>
       done_count d \<le> total_count d \<and> pulses d = is_running \<and>
       (chip d = js ''plan'') = (\<not> list_all (\<lambda>t. progress t = Completed) todos) \<and>
       (doing_now d = js ''Plan complete'' \<or> doing_now d = js ''Planning'' @ [0x2026] \<or>
        (\<exists>t \<in> set todos. progress t = InProgress \<and> doing_now d = description t)) \<and>
       (case checklist d of
          None \<Rightarrow> \<not> dock_is_open u
        | Some items \<Rightarrow> map snd items = map description todos \<and>
            length (filter (\<lambda>r. fst r = 0x25CF) items) = done_count d)"
proof (cases "latestPlan ns")
  case (Some todos)
  have ne: "todos \<noteq> []" by (rule latestPlan_nonempty [OF Some])
  have le: "length (filter (\<lambda>t. progress t = Completed) todos) \<le> length todos" by (rule length_filter_le)
  have all: "(length (filter (\<lambda>t. progress t = Completed) todos) = length todos) =
      list_all (\<lambda>t. progress t = Completed) todos"
    by (rule all_filtered)
  have ticks: "GLYPH p = 0x25CF \<longleftrightarrow> p = Completed" for p by (cases p) simp_all
  show ?thesis
    using Some ne le all
    by (auto simp: PlanDock_def Let_def find_Some_iff js_text filter_map comp_def ticks split: option.split)
qed (simp add: PlanDock_def)

end
