(* ===== verification/ChatPage.thy ===== *)
theory ChatPage
  imports View
begin

text \<open>
  A conversation page put together (\<open>app/(app)/c/[id]/page.tsx\<close>): the composer, the message store
  it calls and the page it renders. The composer is disabled while the conversation is sending, so
  turns of one conversation do not overlap; this theory states what the page shows because of it.
\<close>

section \<open>What the page does to the store\<close>

text \<open>
  The steps of the store that a page takes: its composer sends only while no turn runs and the
  page was visited, and Stop is only shown while one runs. A stream reports its end once, by
  \<open>done\<close> or \<open>error\<close>. The history is neither fetched in the middle of a turn nor still under way
  when one starts: the code does not ensure this, and \<open>load_wipes_turn\<close> shows what happens then.
\<close>

fun page_allows :: "store \<Rightarrow> op \<Rightarrow> bool" where
  "page_allows st (Load i) \<longleftrightarrow> i \<in> loaded st \<or> \<not> sending (conv_state st i)"
| "page_allows st (LoadOk i ms) \<longleftrightarrow> True"
| "page_allows st (LoadFailed i e) \<longleftrightarrow> True"
| "page_allows st (Send i c) \<longleftrightarrow> byId st i \<noteq> None \<and> i \<notin> getting st \<and> \<not> sending (conv_state st i)"
| "page_allows st (SendNew i c) \<longleftrightarrow> byId st i = None"
| "page_allows st (Handle i k (Done m)) \<longleftrightarrow>
     assistantId (turns st ! k) \<in> msg_id ` set (messages (conv_state st i))"
| "page_allows st (Handle i k (Error m)) \<longleftrightarrow>
     assistantId (turns st ! k) \<in> msg_id ` set (messages (conv_state st i))"
| "page_allows st (Handle i k te) \<longleftrightarrow> True"
| "page_allows st (Stop i) \<longleftrightarrow> byId st i \<noteq> None"
| "page_allows st (SetFeedback i m r) \<longleftrightarrow> byId st i \<noteq> None"

definition page_step :: "store \<Rightarrow> store \<Rightarrow> bool" where
  "page_step st st' \<longleftrightarrow> (\<exists>e. admissible st e \<and> page_allows st e \<and> st' = step st e)"

abbreviation page_reachable :: "store \<Rightarrow> bool" where
  "page_reachable st \<equiv> page_step\<^sup>*\<^sup>* empty_store st"

section \<open>The store stays in step with the composer\<close>

text \<open>
  While a conversation is sending it has one streaming message, the placeholder of a live turn
  that Stop would abort; otherwise it has none. Only placeholders stream.
\<close>

definition running_turn :: "store \<Rightarrow> int \<Rightarrow> nat \<Rightarrow> ChatMessage \<Rightarrow> bool" where
  "running_turn st i k p \<longleftrightarrow>
     controllers st i = Some k \<and> live st i k \<and>
     filter streaming (messages (conv_state st i)) = [p] \<and> msg_id p = assistantId (turns st ! k)"

definition one_turn :: "store \<Rightarrow> int \<Rightarrow> bool" where
  "one_turn st i \<longleftrightarrow>
     (if sending (conv_state st i) then \<exists>k p. running_turn st i k p
      else filter streaming (messages (conv_state st i)) = [])"

definition placeholders_stream :: "store \<Rightarrow> int \<Rightarrow> bool" where
  "placeholders_stream st i \<longleftrightarrow>
     (\<forall>m \<in> set (messages (conv_state st i)). msg_id m \<in> assistantId ` set (turns st) \<longrightarrow> streaming m)"

definition fetch_apart :: "store \<Rightarrow> int \<Rightarrow> bool" where
  "fetch_apart st i \<longleftrightarrow>
     (i \<in> getting st \<longrightarrow> \<not> sending (conv_state st i) \<and> byId st i \<noteq> None) \<and>
     (byId st i \<noteq> None \<and> i \<notin> getting st \<longrightarrow> \<not> loading (conv_state st i))"

definition in_step :: "store \<Rightarrow> bool" where
  "in_step st \<longleftrightarrow>
     (\<forall>i. one_turn st i \<and> placeholders_stream st i \<and> fetch_apart st i) \<and>
     (\<forall>u \<in> set (turns st). byId st (turn_conv u) \<noteq> None)"

lemma in_stepD:
  assumes "in_step st"
  shows "\<not> sending (conv_state st i) \<Longrightarrow> filter streaming (messages (conv_state st i)) = []"
    and "sending (conv_state st i) \<Longrightarrow> \<exists>k p. running_turn st i k p"
    and "live st i k \<Longrightarrow> byId st i \<noteq> None"
proof -
  have "one_turn st i" using assms by (simp add: in_step_def)
  then show "\<not> sending (conv_state st i) \<Longrightarrow> filter streaming (messages (conv_state st i)) = []"
    and "sending (conv_state st i) \<Longrightarrow> \<exists>k p. running_turn st i k p"
    by (simp_all add: one_turn_def)
  show "live st i k \<Longrightarrow> byId st i \<noteq> None"
    using assms nth_mem [of k "turns st"] by (fastforce simp: in_step_def live_def)
qed

lemma running_turn_add_effect [simp]: "running_turn (add_effect e st) = running_turn st"
  by (simp add: running_turn_def live_def fun_eq_iff)

lemma turn_ids_abort: "assistantId ` set (turns (abort_turn k st)) = assistantId ` set (turns st)"
  using arg_cong [OF map_abort_turn [of k st], of "\<lambda>xs. snd ` set xs"] by (simp add: image_image)

lemma turn_ids_step:
  "assistantId ` set (turns (step st e)) \<subseteq> insert (tempId st - 2) (assistantId ` set (turns st))"
  by (cases e) (auto simp: op_defs Let_def turn_ids_abort split: option.splits)

lemma fresh_message: "ids_ok st \<Longrightarrow> m \<in> set (messages (conv_state st i)) \<Longrightarrow> msg_id m \<noteq> tempId st - 2"
  by (fastforce simp: ids_ok_def messages_ok_def turns_ok_def)

lemma getting_step: "op_conv e \<noteq> i \<Longrightarrow> i \<in> getting (step st e) \<longleftrightarrow> i \<in> getting st"
  by (cases e) (auto simp: op_defs Let_def split: option.splits)

lemma in_step_elsewhere:
  assumes "in_step st" and "ids_ok st" and "refs_ok st" and "op_conv e \<noteq> i"
  shows "one_turn (step st e) i \<and> placeholders_stream (step st e) i \<and> fetch_apart (step st e) i"
proof -
  have conv: "conv_state (step st e) i = conv_state st i"
    using conv_state_cong [OF step_frame [OF assms(4)]] .
  have "running_turn (step st e) i k p" if "running_turn st i k p" for k p
    using that live_step [OF _ assms(3,4), of k] step_turns(3) [of k st e]
    by (simp add: running_turn_def conv controllers_frame [OF assms(4)]) (simp add: live_def)
  moreover have "one_turn st i" using assms(1) by (simp add: in_step_def)
  ultimately have "one_turn (step st e) i" unfolding one_turn_def conv by metis
  moreover have "placeholders_stream (step st e) i"
    using assms(1) fresh_message [OF assms(2)] turn_ids_step [of st e]
    unfolding placeholders_stream_def conv in_step_def by blast
  moreover have "fetch_apart (step st e) i"
    using assms(1,4) getting_step [OF assms(4)] by (simp add: fetch_apart_def conv step_frame in_step_def)
  ultimately show ?thesis by simp
qed

text \<open>A conversation whose messages are patched without touching ids and streaming.\<close>

lemma filter_streaming_patch:
  assumes "\<And>m. streaming (f m) = streaming m" and "\<And>m. msg_id (f m) = msg_id m"
  shows "filter streaming (patch_by msg_id a f ms) = patch_by msg_id a f (filter streaming ms)"
  using assms by (induction ms) auto

lemma in_step_patched:
  assumes "in_step st" and "\<And>m. streaming (f m) = streaming m" and "\<And>m. msg_id (f m) = msg_id m"
  shows "one_turn (patch i (map_message a f) st) i \<and> placeholders_stream (patch i (map_message a f) st) i"
proof -
  have fs: "filter streaming (messages (map_message a f s)) = patch_by msg_id a f (filter streaming (messages s))" for s
    by (simp add: map_message_def filter_streaming_patch assms(2,3))
  have "running_turn (patch i (map_message a f) st) i k (if msg_id p = a then f p else p)" if "running_turn st i k p" for k p
    using that by (simp add: running_turn_def fs live_def assms(3))
  moreover have "one_turn st i" "placeholders_stream st i" using assms(1) by (simp_all add: in_step_def)
  ultimately show ?thesis
    using assms(2,3)
    by (auto simp: one_turn_def fs placeholders_stream_def) (auto simp: map_message_def patch_by_def split: if_splits)
qed

lemma fetch_apart_patched:
  assumes "in_step st" and "byId st i \<noteq> None"
    and "\<And>s. sending (fn s) \<Longrightarrow> sending s" and "\<And>s. loading (fn s) = loading s"
  shows "fetch_apart (patch i fn st) i"
  using assms by (auto simp: in_step_def fetch_apart_def byId_patch conv_state_def split: option.splits)

text \<open>A turn that ends, by its last event or by Stop.\<close>

lemma in_step_end:
  assumes "in_step st" and "conv_state st' i = s" and "\<not> sending s" and "filter streaming (messages s) = []"
    and "\<And>m. m \<in> set (messages s) \<Longrightarrow> msg_id m \<notin> assistantId ` set (turns st')"
    and "getting st' = getting st" and "byId st i \<noteq> None" and "loading s = loading (conv_state st i)"
    and "byId st' i \<noteq> None"
  shows "one_turn st' i \<and> placeholders_stream st' i \<and> fetch_apart st' i"
  using assms by (auto simp: one_turn_def placeholders_stream_def in_step_def fetch_apart_def)

lemma in_step_send:
  assumes "in_step st" and "ids_ok st" and "i \<notin> getting st" and "\<not> sending (conv_state st i)"
    and "byId st i \<noteq> None"
  shows "one_turn (send i c st) i \<and> placeholders_stream (send i c st) i \<and> fetch_apart (send i c st) i"
proof -
  let ?p = "placeholder (tempId st - 2)"
  have conv: "messages (conv_state (send i c st) i) =
      messages (conv_state st i) @ [user_message (tempId st - 1) c, ?p]" "sending (conv_state (send i c st) i)"
    "loading (conv_state (send i c st) i) = loading (conv_state st i)"
    by (simp_all add: send_def Let_def conv_state_def patch_def)
  have turns: "turns (send i c st) = turns st @ [\<lparr>turn_conv = i, assistantId = tempId st - 2, aborted = False\<rparr>]"
    by (simp add: send_def Let_def)
  have "running_turn (send i c st) i (length (turns st)) ?p"
    using assms(1,4)
    by (auto simp: running_turn_def live_def turns conv in_step_def one_turn_def user_message_def placeholder_def)
      (simp add: send_def Let_def)
  then have "one_turn (send i c st) i" using conv by (auto simp: one_turn_def)
  moreover have "placeholders_stream (send i c st) i"
    using assms(1) fresh_message [OF assms(2), of _ i] assms(2)
    by (auto simp: placeholders_stream_def conv turns in_step_def user_message_def placeholder_def ids_ok_def turns_ok_def)
  moreover have "fetch_apart (send i c st) i"
    using assms(1,3,5) conv by (auto simp: fetch_apart_def in_step_def) (auto simp: send_def Let_def)
  ultimately show ?thesis by simp
qed

lemma streaming_only:
  assumes "filter streaming ms = [p]" and "m \<in> set ms" and "streaming m"
  shows "m = p"
proof -
  have "m \<in> set (filter streaming ms)" using assms(2,3) by simp
  then show ?thesis unfolding assms(1) by simp
qed

text \<open>The placeholder of a turn whose end is reported is the one streaming message.\<close>

lemma ending_turn:
  assumes "in_step st" and "assistantId (turns st ! k) \<in> msg_id ` set (messages (conv_state st i))" and "live st i k"
  obtains p where "sending (conv_state st i)" and "filter streaming (messages (conv_state st i)) = [p]"
    and "msg_id p = assistantId (turns st ! k)"
proof -
  have "assistantId (turns st ! k) \<in> assistantId ` set (turns st)" using assms(3) by (simp add: live_def)
  with assms(1,2) obtain m where m: "m \<in> set (messages (conv_state st i))" "streaming m"
    "msg_id m = assistantId (turns st ! k)"
    by (auto simp: in_step_def placeholders_stream_def)
  have "sending (conv_state st i)"
  proof (rule ccontr)
    assume "\<not> sending (conv_state st i)"
    with in_stepD(1) [OF assms(1)] have "filter streaming (messages (conv_state st i)) = []" .
    with m show False by (simp add: filter_empty_conv)
  qed
  then obtain k' p where p: "running_turn st i k' p" using in_stepD(2) [OF assms(1)] by blast
  with m have "m = p" by (intro streaming_only [of _ p]) (simp_all add: running_turn_def)
  with m p \<open>sending _\<close> show ?thesis using that [of m] by (simp add: running_turn_def)
qed

lemma in_step_handle:
  assumes "in_step st" and "ids_ok st" and "admissible st (Handle i k te)" and "page_allows st (Handle i k te)"
    and "live st i k"
  shows "let st' = handle (turns st ! k) te st in one_turn st' i \<and> placeholders_stream st' i \<and> fetch_apart st' i"
proof -
  have i: "turn_conv (turns st ! k) = i" using assms(5) by (simp add: live_def)
  have byId: "byId st i \<noteq> None" using assms(1,5) by (rule in_stepD(3))
  let ?a = "assistantId (turns st ! k)" and ?ms = "messages (conv_state st i)"
  have nodes: "one_turn (updateNodes i ?a g st) i \<and> placeholders_stream (updateNodes i ?a g st) i \<and>
      fetch_apart (updateNodes i ?a g st) i" for g
    unfolding updateNodes_def using assms(1) byId
    by (intro conjI in_step_patched [THEN conjunct1] in_step_patched [THEN conjunct2] fetch_apart_patched)
      (simp_all add: update_message_nodes_def map_message_def)
  have distinct: "distinct (map msg_id ?ms)" using assms(2) by (simp add: ids_ok_def messages_ok_def)
  have others: "msg_id m \<notin> assistantId ` set (turns st)" if "m \<in> set ?ms" "\<not> streaming m" for m
    using that assms(1) by (auto simp: in_step_def placeholders_stream_def)
  show ?thesis
  proof (cases te)
    case (Done x)
    obtain p where p: "sending (conv_state st i)" "filter streaming ?ms = [p]" "msg_id p = ?a"
      using ending_turn [OF assms(1) _ assms(5)] assms(4) Done by auto
    then have str: "msg_id m = ?a" if "m \<in> set ?ms" "streaming m" for m
      using streaming_only [OF p(2) that] p(3) by simp
    have "x \<notin> assistantId ` set (turns st)" using assms(2,3) Done by (auto simp: ids_ok_def turns_ok_def)
    then show ?thesis
      using assms(1) byId str others unfolding Done handle.simps Let_def i
      by (intro in_step_end [where s = "conv_state (onDone i ?a x st) i"])
        (auto simp: onDone_def map_message_def patch_by_def filter_empty_conv byId_patch)
  next
    case (Error x)
    obtain p where p: "sending (conv_state st i)" "filter streaming ?ms = [p]" "msg_id p = ?a"
      using ending_turn [OF assms(1) _ assms(5)] assms(4) Error by auto
    then have str: "msg_id m = ?a" if "m \<in> set ?ms" "streaming m" for m
      using streaming_only [OF p(2) that] p(3) by simp
    then show ?thesis
      using assms(1) byId str others unfolding Error handle.simps Let_def i
      by (intro in_step_end [where s = "conv_state (onError i ?a x st) i"])
        (auto simp: onError_def remove_by_def filter_empty_conv byId_patch)
  next
    case (Title x)
    with assms(1) show ?thesis
      by (simp add: onTitle_def i in_step_def one_turn_def placeholders_stream_def fetch_apart_def)
  qed (use nodes i in simp_all)
qed

text \<open>The conversation \<open>sendNew\<close> puts in the cache before it sends.\<close>

definition created :: "int \<Rightarrow> store \<Rightarrow> store" where
  "created i st = st\<lparr>loaded := insert i (loaded st),
     byId := (byId st)(i \<mapsto> \<lparr>messages = [], loading = False, conv_error = None, notFound = False, sending = False\<rparr>)\<rparr>"

lemma sendNew_created: "sendNew i c st = send i c (created i st)"
  by (simp add: sendNew_def created_def)

lemma conv_state_created:
  "conv_state (created i st) j =
     (if j = i then \<lparr>messages = [], loading = False, conv_error = None, notFound = False, sending = False\<rparr>
      else conv_state st j)"
  by (simp add: created_def conv_state_def)

lemma created_other [simp]:
  "turns (created i st) = turns st" "controllers (created i st) = controllers st"
  "getting (created i st) = getting st" "tempId (created i st) = tempId st"
  by (simp_all add: created_def)

lemma ids_ok_created: "ids_ok st \<Longrightarrow> ids_ok (created i st)"
  by (simp add: ids_ok_def conv_state_created messages_ok_def)

lemma in_step_created:
  assumes "in_step st" and "byId st i = None"
  shows "in_step (created i st)"
proof -
  have "running_turn (created i st) j = running_turn st j" if "j \<noteq> i" for j
    using that by (simp add: fun_eq_iff running_turn_def live_def conv_state_created)
  with assms show ?thesis
    by (auto simp: in_step_def one_turn_def placeholders_stream_def fetch_apart_def conv_state_created)
      (simp_all add: created_def)
qed

text \<open>Every allowed step keeps a conversation in step.\<close>

text \<open>What a step must leave for its own conversation.\<close>

definition in_step_at :: "store \<Rightarrow> int \<Rightarrow> bool" where
  "in_step_at st i \<longleftrightarrow> one_turn st i \<and> placeholders_stream st i \<and> fetch_apart st i"

lemma in_step_at: "in_step st \<Longrightarrow> in_step_at st i"
  by (simp add: in_step_def in_step_at_def)

lemma in_step_same:
  assumes "in_step st" and "sending (conv_state st' i) = sending (conv_state st i)"
    and "messages (conv_state st' i) = messages (conv_state st i)"
    and "controllers st' = controllers st" and "turns st' = turns st"
  shows "one_turn st' i \<and> placeholders_stream st' i"
proof -
  have "running_turn st' i = running_turn st i" using assms(2-) by (simp add: fun_eq_iff running_turn_def live_def)
  with assms in_step_at [OF assms(1), of i] show ?thesis by (simp add: in_step_at_def one_turn_def placeholders_stream_def)
qed

lemma in_step_load:
  assumes "in_step st" and "page_allows st (Load i)" shows "in_step_at (load i st) i"
proof -
  have "fetch_apart (load i st) i"
    using in_step_at [OF assms(1), of i] assms(2)
    by (auto simp: in_step_at_def load_def fetch_apart_def conv_state_def LOADING_def)
  with in_step_same [OF assms(1), of "load i st" i] in_step_at [OF assms(1), of i] show ?thesis
    by (simp add: in_step_at_def load_def conv_state_def Let_def)
qed

lemma in_step_load_ok:
  assumes "in_step st" and "ids_ok st" and "admissible st (LoadOk i ms)" shows "in_step_at (load_ok i ms st) i"
proof -
  have h: "msg_id (hydrate m) = msg_id m" "streaming (hydrate m) = streaming m" for m
    by (simp_all add: hydrate_def split: option.split)
  have "x \<notin> assistantId ` set (turns st)" if "0 < x" for x
    using assms(2) that by (auto simp: ids_ok_def turns_ok_def)
  then show ?thesis
    using assms(3) in_step_at [OF assms(1), of i]
    by (auto simp: in_step_at_def load_ok_def one_turn_def placeholders_stream_def fetch_apart_def h filter_empty_conv)
qed

lemma in_step_load_failed:
  assumes "in_step st" shows "in_step_at (load_failed i x st) i"
proof -
  have "fetch_apart (load_failed i x st) i"
    using in_step_at [OF assms, of i] by (simp add: in_step_at_def load_failed_def fetch_apart_def byId_patch)
  moreover have "conv_state (st\<lparr>loaded := A, getting := B\<rparr>) i = conv_state st i" for A B by (simp add: conv_state_def)
  then have "one_turn (load_failed i x st) i \<and> placeholders_stream (load_failed i x st) i"
    by (intro in_step_same [OF assms]) (simp_all add: load_failed_def)
  ultimately show ?thesis by (simp add: in_step_at_def)
qed

lemma in_step_send_new:
  assumes "in_step st" and "ids_ok st" and "byId st i = None" shows "in_step_at (sendNew i c st) i"
  using assms in_step_created [OF assms(1)] ids_ok_created [OF assms(2)] in_step_at [OF assms(1), of i]
  unfolding sendNew_created in_step_at_def
  by (intro in_step_send) (auto simp: created_def conv_state_def fetch_apart_def)

lemma in_step_stop:
  assumes "in_step st" and "byId st i \<noteq> None" shows "in_step_at (stop i st) i"
proof -
  have ids': "assistantId ` set (turns (stop i st)) = assistantId ` set (turns st)"
    by (auto simp: stop_def turn_ids_abort split: option.split)
  have msgs: "messages (conv_state (stop i st) i) = filter (\<lambda>m. \<not> streaming m) (messages (conv_state st i))"
    by (simp add: stop_def split: option.split)
  show ?thesis
    unfolding in_step_at_def
  proof (rule in_step_end [OF assms(1) refl])
    show "msg_id m \<notin> assistantId ` set (turns (stop i st))" if "m \<in> set (messages (conv_state (stop i st) i))" for m
      using that in_step_at [OF assms(1), of i] unfolding ids' msgs by (auto simp: in_step_at_def placeholders_stream_def)
  qed (use assms(2) in \<open>auto simp: stop_def byId_patch conv_state_def split: option.splits\<close>)
qed

lemma in_step_feedback:
  assumes "in_step st" and "byId st i \<noteq> None" shows "in_step_at (setFeedback i m r st) i"
proof -
  have "fetch_apart (setFeedback i m r st) i"
    using assms(2) unfolding setFeedback_def by (intro fetch_apart_patched [OF assms(1)]) (simp_all add: map_message_def)
  moreover have "one_turn (setFeedback i m r st) i \<and> placeholders_stream (setFeedback i m r st) i"
    unfolding setFeedback_def by (rule in_step_patched [OF assms(1)]) simp_all
  ultimately show ?thesis by (simp add: in_step_at_def)
qed

lemma in_step_own:
  assumes ok: "in_step st" and ids: "ids_ok st" and "refs_ok st" and adm: "admissible st e" and allowed: "page_allows st e"
  shows "in_step_at (step st e) (op_conv e)"
proof (cases e)
  case (Send i c)
  with allowed in_step_send [OF ok ids, of i c] show ?thesis by (simp add: in_step_at_def)
next
  case (Handle i k te)
  with in_step_handle [OF ok ids, of i k te] adm allowed in_step_at [OF ok, of i] show ?thesis
    by (simp add: in_step_at_def Let_def)
qed (use assms in \<open>auto intro: in_step_at in_step_load in_step_load_ok in_step_load_failed in_step_send_new in_step_stop in_step_feedback\<close>)

lemma byId_step: "byId st j \<noteq> None \<Longrightarrow> byId (step st e) j \<noteq> None"
proof (cases e)
  case (Handle i k te)
  moreover assume "byId st j \<noteq> None"
  ultimately show ?thesis by (cases te) (simp_all add: op_defs byId_patch)
qed (auto simp: op_defs Let_def byId_patch split: option.splits)

lemma turn_convs_step:
  assumes "\<forall>u \<in> set (turns st). byId st (turn_conv u) \<noteq> None" and "u \<in> set (turns (step st e))"
  shows "byId (step st e) (turn_conv u) \<noteq> None"
proof -
  have abort: "turn_conv ` set (turns (abort_turn k st)) = turn_conv ` set (turns st)" for k
    using arg_cong [OF map_abort_turn [of k st], of "\<lambda>xs. fst ` set xs"] by (simp add: image_image)
  have "turn_conv u \<in> turn_conv ` set (turns st) \<or> (turn_conv u = op_conv e \<and> byId (step st e) (op_conv e) \<noteq> None)"
    using assms(2) abort by (cases e) (force simp: op_defs Let_def patch_def split: option.splits if_splits)+
  with assms(1) show ?thesis using byId_step [of st _ e] by auto
qed

lemma in_step_step:
  assumes "in_step st" "ids_ok st" "refs_ok st" "admissible st e" "page_allows st e"
  shows "in_step (step st e)"
proof -
  have "one_turn (step st e) i \<and> placeholders_stream (step st e) i \<and> fetch_apart (step st e) i" for i
    using in_step_own [OF assms] in_step_elsewhere [OF assms(1-3), of e i] by (cases "op_conv e = i") (auto simp: Let_def in_step_at_def)
  with assms(1) turn_convs_step [of st _ e] show ?thesis by (simp add: in_step_def)
qed

interpretation pages: transition_invariant empty_store page_step "\<lambda>st. ids_ok st \<and> refs_ok st \<and> in_step st"
proof unfold_locales
  have "in_step empty_store"
    by (simp add: in_step_def one_turn_def placeholders_stream_def fetch_apart_def empty_store_def conv_state_def LOADING_def)
  then show "ids_ok empty_store \<and> refs_ok empty_store \<and> in_step empty_store" using ids.inv_init by blast
qed (auto simp: page_step_def ids_ok_step refs_ok_step in_step_step)

section \<open>What the page shows\<close>

text \<open>\<open>useMessages\<close>: the state shown, and the two callbacks for this conversation.\<close>

record use_messages =
  page_state :: ConvState
  on_send :: "jstring \<Rightarrow> store \<Rightarrow> store"
  on_stop :: "store \<Rightarrow> store"

definition useMessages :: "int \<Rightarrow> store \<Rightarrow> use_messages" where
  "useMessages i st = \<lparr>page_state = conv_state st i, on_send = send i, on_stop = stop i\<rparr>"

text \<open>An event of the page's composer: its calls go to the hook's callbacks.\<close>

definition chat_event :: "int \<Rightarrow> composer_event \<Rightarrow> composer \<times> store \<Rightarrow> composer \<times> store" where
  "chat_event i ev cs =
     (let (c, st) = cs; page = useMessages i st;
          (calls, c') = composer_step True (sending (page_state page)) ev c
      in (c', foldl (\<lambda>s call. case call of OnSend t \<Rightarrow> on_send page t s | OnStop \<Rightarrow> on_stop page s) st calls))"

text \<open>A reply without its actions is running.\<close>

fun runs :: "message_row \<Rightarrow> bool" where
  "runs (Bubble t) \<longleftrightarrow> False"
| "runs (Reply vs acts) \<longleftrightarrow> acts = None"
| "runs (PlainReply t caret acts) \<longleftrightarrow> acts = None"

fun running_replies :: "body_view \<Rightarrow> nat" where
  "running_replies (ListBody vs) = length (filter runs vs)"
| "running_replies _ = 0"

lemma runs_message: "runs (message_view u m) \<longleftrightarrow> role m \<noteq> js ''user'' \<and> streaming m"
  by (auto simp: message_view_def AssistantMessage_def reply_actions_def split: option.split)

lemma running_messages:
  assumes "in_step st" and "ids_ok st"
  shows "length (filter (\<lambda>m. role m \<noteq> js ''user'' \<and> streaming m) (messages (conv_state st i))) =
     (if sending (conv_state st i) then 1 else 0)"
proof (cases "sending (conv_state st i)")
  case True
  then obtain k p where p: "running_turn st i k p" using in_stepD(2) [OF assms(1)] by blast
  then have "p \<in> set (filter streaming (messages (conv_state st i)))" by (simp add: running_turn_def)
  then have "p \<in> set (messages (conv_state st i))" by simp
  moreover have "turns st ! k \<in> set (turns st)" using p by (simp add: running_turn_def live_def)
  ultimately have "role p = js ''assistant''" using p assms(2) by (fastforce simp: ids_ok_def messages_ok_def running_turn_def)
  then have "filter (\<lambda>m. role m \<noteq> js ''user'') (filter streaming (messages (conv_state st i))) = [p]"
    using p by (simp add: running_turn_def js_text)
  then show ?thesis using True by (simp add: conj_commute)
next
  case False
  with in_stepD(1) [OF assms(1)] show ?thesis by (simp add: filter_empty_conv)
qed

lemma not_both: "in_step st \<Longrightarrow> loading (conv_state st i) \<Longrightarrow> \<not> sending (conv_state st i)"
  by (cases "byId st i") (auto simp: in_step_def fetch_apart_def conv_state_def LOADING_def)

text \<open>
  C22: The composer and the list never disagree: a conversation page shows the Stop button exactly
  while exactly one reply in its list is running, and never two, through every sequence of turns,
  stops, failures, visits and votes.
\<close>

theorem page_in_step:
  assumes "page_reachable st"
  shows "case ConversationPage u (conv_state st i) of
     NotFoundPage \<Rightarrow> notFound (conv_state st i)
   | ConvPage list err dock busy \<Rightarrow> running_replies list = (if busy then 1 else 0)"
proof -
  have ok: "ids_ok st" "in_step st" using pages.inv_reachable [OF assms] by simp_all
  have "length (filter runs (map (message_view u) (messages (conv_state st i)))) =
      (if sending (conv_state st i) then 1 else 0)"
    using running_messages [OF ok(2,1), of i] by (simp add: filter_map comp_def runs_message)
  then show ?thesis
    using not_both [OF ok(2), of i]
    by (auto simp: ConversationPage_def split: if_splits)
qed

lemma page_reachable_step:
  "page_reachable st \<Longrightarrow> admissible st e \<Longrightarrow> page_allows st e \<Longrightarrow> page_reachable (step st e)"
  by (rule rtranclp.rtrancl_into_rtrancl) (auto simp: page_step_def)

definition enter_key :: key_event where
  "enter_key = \<lparr>key = js ''Enter'', meta_key = False, ctrl_key = False, alt_key = False, shift_key = False\<rparr>"


text \<open>A page after its history was loaded.\<close>

definition demo_page :: store where
  "demo_page = run empty_store [Load 1, LoadOk 1 [old_message]]"

lemma demo_page: "page_reachable demo_page"
proof -
  have "page_reachable (step (step empty_store (Load 1)) (LoadOk 1 [old_message]))"
    by (intro page_reachable_step rtranclp.rtrancl_refl)
      (simp_all add: demo_message empty_store_def conv_state_def LOADING_def del: step.simps)
  then show ?thesis by (simp add: demo_page_def)
qed

lemma demo_page_state:
  "byId demo_page 1 \<noteq> None" "1 \<notin> getting demo_page" "\<not> sending (conv_state demo_page 1)"
  "messages (conv_state demo_page 1) = [old_message]"
  by (simp_all add: demo_page_def load_def load_ok_def empty_store_def patch_def conv_state_def hydrate_def demo_message)

definition hey :: composer where
  "hey = \<lparr>draft_text = js '' hey'', expanded = False\<rparr>"

lemma hey: "trim (draft_text hey) = js ''hey''"
  by (simp add: hey_def trim_def js_text is_ws_def)

theorem page_in_step_witness:
  "case ConversationPage demo_ui (conv_state demo_page 1) of
     NotFoundPage \<Rightarrow> False | ConvPage list err dock busy \<Rightarrow> running_replies list = 0"
  using page_in_step [OF demo_page, where u = demo_ui and i = 1] demo_page_state(3)
  by (simp add: ConversationPage_def demo_page_def load_def load_ok_def empty_store_def)


end
