(* ===== verification/NumberOrder.thy ===== *)
theory NumberOrder
  imports JsNumber
begin

text \<open>
  Rounding to a double keeps the order: the numbers of \<^verbatim>\<open>JsNumber\<close> as a linear order, the
  bounds of the binary exponent, and the monotonicity of \<open>fl\<close> on non-negative rationals, over
  normal and subnormal results and overflow.
\<close>

instantiation jsnum :: linorder
begin

definition less_eq_jsnum :: "jsnum \<Rightarrow> jsnum \<Rightarrow> bool" where
  "less_eq_jsnum a b \<longleftrightarrow>
     (case (a, b) of
        (NegInf, _) \<Rightarrow> True
      | (_, PosInf) \<Rightarrow> True
      | (Fin x, Fin y) \<Rightarrow> x \<le> y
      | _ \<Rightarrow> False)"

definition less_jsnum :: "jsnum \<Rightarrow> jsnum \<Rightarrow> bool" where
  "less_jsnum a b \<longleftrightarrow> a \<le> b \<and> \<not> b \<le> a"

instance
  by standard (auto simp: less_eq_jsnum_def less_jsnum_def split: jsnum.splits)

end

lemma jsnum_order [simp]:
  "NegInf \<le> a" "a \<le> PosInf" "Fin x \<le> Fin y \<longleftrightarrow> x \<le> y" "Fin x < Fin y \<longleftrightarrow> x < y"
  "\<not> PosInf \<le> Fin x" "\<not> PosInf \<le> NegInf" "\<not> Fin x \<le> NegInf"
  by (auto simp: less_eq_jsnum_def less_jsnum_def split: jsnum.split)

lemma pow2_powi: "pow2 e = 2 powi e"
  by (simp add: pow2_def power_int_def field_simps)

lemma pow2_add: "pow2 (a + b) = pow2 a * pow2 b"
  by (simp add: pow2_powi power_int_add)

lemma pow2_mono: "a \<le> b \<Longrightarrow> pow2 a \<le> pow2 b"
  by (simp add: pow2_powi power_int_increasing)

lemma pow2_less: "pow2 a < pow2 b \<Longrightarrow> a < b"
  using pow2_mono [of b a] by linarith

lemma pow2_nat: "0 \<le> e \<Longrightarrow> pow2 e = of_int (2 ^ nat e)"
  by (simp add: pow2_def)

lemma round_half_even_bounds: "\<lfloor>r\<rfloor> \<le> round_half_even r" "round_half_even r \<le> \<lfloor>r\<rfloor> + 1"
  by (simp_all add: round_half_even_def Let_def)

lemma round_half_even_mono: "r \<le> s \<Longrightarrow> round_half_even r \<le> round_half_even s"
proof (cases "\<lfloor>r\<rfloor> = \<lfloor>s\<rfloor>")
  case True
  moreover assume "r \<le> s"
  ultimately show ?thesis by (auto simp: round_half_even_def Let_def)
next
  case False
  moreover assume "r \<le> s"
  then have "\<lfloor>r\<rfloor> \<le> \<lfloor>s\<rfloor>" by (rule floor_mono)
  ultimately show ?thesis using round_half_even_bounds [of r] round_half_even_bounds [of s] by linarith
qed

lemma ilog2_pow2: "0 < n \<Longrightarrow> pow2 (ilog2 n) \<le> of_int n \<and> of_int n < pow2 (ilog2 n + 1)"
proof -
  assume "0 < n"
  from ilog2_bounds [OF this] have n: "0 \<le> ilog2 n" "2 ^ nat (ilog2 n) \<le> n" "n < 2 * 2 ^ nat (ilog2 n)" by auto
  then have "of_int (2 ^ nat (ilog2 n)) \<le> (of_int n :: rat)" "(of_int n :: rat) < of_int (2 * 2 ^ nat (ilog2 n))"
    by (simp_all only: of_int_le_iff of_int_less_iff)
  moreover have "pow2 1 = 2" by (simp add: pow2_def)
  ultimately show ?thesis using n(1) by (simp add: pow2_nat pow2_add)
qed

lemma bin_exponent_bounds:
  assumes "0 < r" shows "pow2 (bin_exponent r) \<le> r \<and> r < pow2 (bin_exponent r + 1)"
proof -
  obtain p q where pq: "quotient_of r = (p, q)" by fastforce
  then have q: "0 < q" and r: "r = of_int p / of_int q"
    by (simp_all add: quotient_of_denom_pos quotient_of_div)
  with assms have p: "0 < p" by (simp add: zero_less_divide_iff)
  let ?a = "ilog2 p" and ?b = "ilog2 q"
  have quot: "pow2 c / pow2 d = pow2 (c - d)" for c d by (simp add: pow2_powi power_int_diff)
  have "r < pow2 (?a + 1) / pow2 ?b"
    unfolding r using ilog2_pow2 [OF p] ilog2_pow2 [OF q] p by (intro frac_less) auto
  then have upper: "r < pow2 (?a - ?b + 1)" by (simp add: quot algebra_simps)
  have "pow2 ?a / pow2 (?b + 1) \<le> r"
    unfolding r using ilog2_pow2 [OF p] ilog2_pow2 [OF q] p q by (intro frac_le) (auto intro: order.strict_implies_order)
  then have "pow2 (?a - ?b - 1) \<le> r" by (simp add: quot algebra_simps)
  with upper show ?thesis by (auto simp: bin_exponent_def pq Let_def)
qed

lemma bin_exponent_mono: "0 < r \<Longrightarrow> r \<le> s \<Longrightarrow> bin_exponent r \<le> bin_exponent s"
proof -
  assume "0 < r" "r \<le> s"
  then have "pow2 (bin_exponent r) < pow2 (bin_exponent s + 1)"
    using bin_exponent_bounds [of r] bin_exponent_bounds [of s] by linarith
  then show ?thesis using pow2_less by fastforce
qed

text \<open>The value \<open>fl\<close> rounds to, before it overflows.\<close>

definition ulp :: "rat \<Rightarrow> rat" where
  "ulp r = pow2 (max (bin_exponent r - 52) (- 1074))"

definition rounded :: "rat \<Rightarrow> rat" where
  "rounded r = of_int (round_half_even (r / ulp r)) * ulp r"

lemma ulp_pos [simp]: "0 < ulp r"
  by (simp add: ulp_def)

lemma fl_rounded: "0 < r \<Longrightarrow> fl r = (if pow2 1024 \<le> rounded r then PosInf else Fin (rounded r))"
  by (simp add: fl_def rounded_def ulp_def Let_def)

lemma rounded_mono:
  assumes "0 < r" and "r \<le> s" shows "rounded r \<le> rounded s"
proof (cases "ulp r = ulp s")
  case True
  have "round_half_even (r / ulp s) \<le> round_half_even (s / ulp s)"
    using assms(2) by (intro round_half_even_mono divide_right_mono) (auto intro: order.strict_implies_order)
  then show ?thesis unfolding rounded_def True by (intro mult_right_mono) (auto intro: order.strict_implies_order)
next
  case False
  let ?e = "bin_exponent r" and ?f = "bin_exponent s" and ?d = "max (bin_exponent r - 52) (- 1074)"
  have "?e \<le> ?f" using assms by (rule bin_exponent_mono)
  moreover have apart: "max (?e - 52) (- 1074) \<noteq> max (?f - 52) (- 1074)" using False by (auto simp: ulp_def)
  ultimately have ef: "?e < ?f" and top: "max (?f - 52) (- 1074) = ?f - 52" and d: "?d < ?f - 52" by linarith+
  then have us: "ulp s = pow2 (?f - 52)" by (simp add: ulp_def)
  have whole: "pow2 ?f = of_int (2 ^ nat (?f - c)) * pow2 c" if "c \<le> ?f" for c
    using that pow2_add [of "?f - c" c] by (simp add: pow2_nat)
  have "r < pow2 (?e + 1)" using bin_exponent_bounds [OF assms(1)] by simp
  also have "\<dots> \<le> pow2 ?f" using ef by (intro pow2_mono) simp
  finally have "r / ulp r \<le> of_int (2 ^ nat (?f - ?d))"
    using whole [of ?d] d by (simp add: ulp_def pos_divide_le_eq)
  then have "round_half_even (r / ulp r) \<le> 2 ^ nat (?f - ?d)"
    using round_half_even_mono round_half_even_of_int by metis
  then have "of_int (round_half_even (r / ulp r)) * ulp r \<le> of_int (2 ^ nat (?f - ?d)) * ulp r"
    by (intro mult_right_mono) (simp_all only: of_int_le_iff ulp_pos less_imp_le)
  then have below: "rounded r \<le> pow2 ?f" using whole [of ?d] d by (simp add: rounded_def ulp_def)
  have "pow2 ?f \<le> s" using bin_exponent_bounds [of s] assms by simp
  then have "of_int (2 ^ nat 52) \<le> s / ulp s" using whole [of "?f - 52"] by (simp add: us pos_le_divide_eq)
  then have "2 ^ nat 52 \<le> round_half_even (s / ulp s)"
    using round_half_even_mono round_half_even_of_int by metis
  then have "of_int (2 ^ nat 52) * ulp s \<le> rounded s"
    unfolding rounded_def by (intro mult_right_mono) (simp_all only: of_int_le_iff ulp_pos less_imp_le)
  then have "pow2 ?f \<le> rounded s" using whole [of "?f - 52"] by (simp add: us)
  with below show ?thesis by linarith
qed

lemma rounded_nonneg: "0 < r \<Longrightarrow> 0 \<le> rounded r"
proof -
  assume "0 < r"
  then have "0 \<le> \<lfloor>r / ulp r\<rfloor>" by (simp add: less_imp_le)
  then have "0 \<le> round_half_even (r / ulp r)" using round_half_even_bounds [of "r / ulp r"] by linarith
  then show ?thesis by (simp add: rounded_def less_imp_le)
qed

lemma fl_mono: "0 \<le> r \<Longrightarrow> r \<le> s \<Longrightarrow> fl r \<le> fl s"
proof (cases "r = 0")
  case True
  moreover assume "r \<le> s"
  ultimately show ?thesis using fl_rounded [of s] rounded_nonneg [of s] by (cases "s = 0") (auto simp: fl_def [of 0])
next
  case False
  moreover assume "0 \<le> r" "r \<le> s"
  ultimately show ?thesis using fl_rounded [of r] fl_rounded [of s] rounded_mono [of r s] by (auto split: if_splits)
qed

text \<open>\<open>fl\<close> at a known binary exponent, in the normal range.\<close>

lemma bin_exponent_unique: "pow2 e \<le> r \<Longrightarrow> r < pow2 (e + 1) \<Longrightarrow> bin_exponent r = e"
proof -
  assume e: "pow2 e \<le> r" "r < pow2 (e + 1)"
  then have "0 < r" using pow2_pos less_le_trans by blast
  from bin_exponent_bounds [OF this] e
  have "pow2 e < pow2 (bin_exponent r + 1)" "pow2 (bin_exponent r) < pow2 (e + 1)" by linarith+
  then have "e < bin_exponent r + 1" "bin_exponent r < e + 1" by (blast dest: pow2_less)+
  then show ?thesis by simp
qed

lemma fl_exponent:
  assumes "pow2 e \<le> r" and "r < pow2 (e + 1)" and "- 1022 \<le> e" and "e \<le> 1022"
  shows "fl r = Fin (of_int (round_half_even (r / pow2 (e - 52))) * pow2 (e - 52))"
proof -
  let ?m = "r / pow2 (e - 52)"
  have "bin_exponent r = e" using assms(1,2) by (rule bin_exponent_unique)
  with assms(3) have "max (bin_exponent r - 52) (- 1074) = e - 52" by simp
  then have ulp: "ulp r = pow2 (e - 52)" by (simp only: ulp_def)
  have pos: "0 < r" using assms(1) pow2_pos less_le_trans by blast
  have "pow2 (e + 1) = of_int (2 ^ nat 53) * pow2 (e - 52)"
    using pow2_add [of 53 "e - 52"] pow2_nat [of 53] by (simp add: algebra_simps)
  then have "?m \<le> of_int (2 ^ nat 53)" using assms(2) by (simp add: pos_divide_le_eq)
  then have "round_half_even ?m \<le> 2 ^ nat 53"
    using round_half_even_mono round_half_even_of_int by metis
  then have "of_int (round_half_even ?m) * pow2 (e - 52) \<le> of_int (2 ^ nat 53) * pow2 (e - 52)"
    by (intro mult_right_mono) (simp_all only: of_int_le_iff pow2_pos less_imp_le)
  also have "\<dots> = pow2 (e + 1)" using pow2_add [of 53 "e - 52"] pow2_nat [of 53] by (simp add: algebra_simps)
  also have "\<dots> < pow2 1024"
    using assms(4) pow2_mono [of "e + 1" 1023] pow2_add [of 1023 1] pow2_pos [of 1023]
    by (simp add: pow2_def [of 1] del: pow2_pos)
  finally show ?thesis using pos by (simp add: fl_rounded rounded_def ulp)
qed

end
