(* ===== verification/Notices.thy ===== *)
theory Notices
  imports NumberOrder Api
begin

text \<open>
  The toasts of \<open>web/src/lib/toast-context.tsx\<close> and the usage meter of
  \<open>web/src/lib/usage-context.tsx\<close> and \<open>web/src/components/usage-meter.tsx\<close>.
\<close>

section \<open>Toasts\<close>

record Toast =
  toast_id :: int
  message :: jstring

text \<open>
  The list, the counter \<open>nextId\<close>, and the clock with the timers set by \<open>setTimeout\<close>: the time
  a timer is due and the toast it dismisses.
\<close>

record toaster =
  toasts :: "Toast list"
  nextId :: int
  now :: int
  timers :: "(int \<times> int) list"

definition TOAST_TTL_MS :: int where
  "TOAST_TTL_MS = 4000"

definition no_toasts :: toaster where
  "no_toasts = \<lparr>toasts = [], nextId = 0, now = 0, timers = []\<rparr>"

definition dismiss :: "int \<Rightarrow> toaster \<Rightarrow> toaster" where
  "dismiss i s = s\<lparr>toasts := remove_by toast_id i (toasts s)\<rparr>"

definition toast :: "jstring \<Rightarrow> toaster \<Rightarrow> toaster" where
  "toast m s =
     s\<lparr>nextId := nextId s + 1, toasts := toasts s @ [\<lparr>toast_id = nextId s, message = m\<rparr>],
       timers := timers s @ [(now s + TOAST_TTL_MS, nextId s)]\<rparr>"

text \<open>Time passes: the timers that are due by then have fired.\<close>

definition elapse :: "nat \<Rightarrow> toaster \<Rightarrow> toaster" where
  "elapse ms s =
     (let t = now s + int ms;
          due = filter (\<lambda>(d, i). d \<le> t) (timers s)
      in (fold (\<lambda>(d, i). dismiss i) due s)\<lparr>now := t, timers := filter (\<lambda>(d, i). t < d) (timers s)\<rparr>)"

datatype toast_op = ShowToast jstring | Dismiss int | Elapse nat

fun toast_step :: "toaster \<Rightarrow> toast_op \<Rightarrow> toaster" where
  "toast_step s (ShowToast m) = toast m s"
| "toast_step s (Dismiss i) = dismiss i s"
| "toast_step s (Elapse ms) = elapse ms s"

text \<open>
  Ids are distinct and below the counter, in the order of the list; every toast on screen has its
  timer, due at most \<open>TOAST_TTL_MS\<close> from now and not overdue.
\<close>

definition toasts_ok :: "toaster \<Rightarrow> bool" where
  "toasts_ok s \<longleftrightarrow>
     sorted_wrt (<) (map toast_id (toasts s)) \<and>
     (\<forall>t \<in> set (toasts s). toast_id t < nextId s \<and>
        (\<exists>d. (d, toast_id t) \<in> set (timers s) \<and> now s < d \<and> d \<le> now s + TOAST_TTL_MS))"

lemma sorted_filter: "sorted_wrt (<) (map toast_id ts) \<Longrightarrow> sorted_wrt (<) (map toast_id (filter P ts))"
  by (induction ts) auto

lemma toasts_fold_dismiss:
  "toasts (fold (\<lambda>(d, i). dismiss i) ds s) = filter (\<lambda>t. toast_id t \<notin> snd ` set ds) (toasts s)"
  "nextId (fold (\<lambda>(d, i). dismiss i) ds s) = nextId s"
proof -
  have "toasts (fold (\<lambda>(d, i). dismiss i) ds s) = filter (\<lambda>t. toast_id t \<notin> snd ` set ds) (toasts s) \<and>
      nextId (fold (\<lambda>(d, i). dismiss i) ds s) = nextId s"
  proof (induction ds arbitrary: s)
    case (Cons d ds)
    have "filter P (filter (\<lambda>t. toast_id t \<noteq> snd d) xs) = filter (\<lambda>t. toast_id t \<noteq> snd d \<and> P t) xs" for P xs
      by (induction xs) auto
    with Cons.IH [of "dismiss (snd d) s"] show ?case
      by (simp add: case_prod_beta dismiss_def remove_by_def)
  qed simp
  then show "toasts (fold (\<lambda>(d, i). dismiss i) ds s) = filter (\<lambda>t. toast_id t \<notin> snd ` set ds) (toasts s)"
    "nextId (fold (\<lambda>(d, i). dismiss i) ds s) = nextId s" by blast+
qed

lemma toasts_ok_step: "toasts_ok s \<Longrightarrow> toasts_ok (toast_step s e)"
proof (cases e)
  case (ShowToast m)
  assume "toasts_ok s"
  with ShowToast show ?thesis
    by (auto simp: toasts_ok_def toast_def sorted_wrt_append TOAST_TTL_MS_def)
next
  case (Dismiss i)
  assume "toasts_ok s"
  with Dismiss show ?thesis
    by (auto simp: toasts_ok_def dismiss_def remove_by_def sorted_filter)
next
  case (Elapse ms)
  assume ok: "toasts_ok s"
  let ?t = "now s + int ms"
  let ?due = "filter (\<lambda>(d, i). d \<le> ?t) (timers s)"
  have e: "toast_step s e = (fold (\<lambda>(d, i). dismiss i) ?due s)\<lparr>now := ?t, timers := filter (\<lambda>(d, i). ?t < d) (timers s)\<rparr>"
    by (simp add: Elapse elapse_def Let_def)
  have "\<exists>d. (d, toast_id t) \<in> set (timers s) \<and> ?t < d \<and> d \<le> ?t + TOAST_TTL_MS"
    if t: "t \<in> set (toasts s)" "toast_id t \<notin> snd ` set ?due" for t
  proof -
    from ok t(1) obtain d where d: "(d, toast_id t) \<in> set (timers s)" "d \<le> now s + TOAST_TTL_MS"
      by (auto simp: toasts_ok_def)
    with t(2) have "?t < d" by force
    with d show ?thesis by force
  qed
  then show ?thesis
    using ok unfolding e toasts_ok_def by (auto simp: toasts_fold_dismiss sorted_filter)
qed

interpretation toast_machine: machine_invariant toast_step toasts_ok
  by unfold_locales (rule toasts_ok_step)

lemma toasts_run: "toasts_ok (foldl toast_step no_toasts es)"
  by (rule toast_machine.inv_run) (simp add: toasts_ok_def no_toasts_def)

text \<open>
  No two toasts share an id, and no toast outlives its time: after \<open>TOAST_TTL_MS\<close>
  milliseconds without a new toast the screen is empty, whatever was shown or dismissed before.
\<close>

theorem toasts_expire:
  "distinct (map toast_id (toasts (foldl toast_step no_toasts es))) \<and>
   toasts (elapse 4000 (foldl toast_step no_toasts es)) = []"
proof
  let ?s = "foldl toast_step no_toasts es"
  have "sorted_wrt (<) (map toast_id (toasts ?s))" using toasts_run by (simp add: toasts_ok_def)
  then show "distinct (map toast_id (toasts ?s))" using strict_sorted_iff by blast
  have "toast_id t \<in> snd ` set (filter (\<lambda>(d, i). d \<le> now ?s + 4000) (timers ?s))" if "t \<in> set (toasts ?s)" for t
    using toasts_run [of es] that by (force simp: toasts_ok_def TOAST_TTL_MS_def)
  then show "toasts (elapse 4000 ?s) = []"
    by (simp add: elapse_def Let_def toasts_fold_dismiss filter_empty_conv)
qed

section \<open>Usage\<close>

record Usage =
  used :: jsnum
  budget :: jsnum

text \<open>\<open>refresh\<close> once \<open>getUsage\<close> has settled: a failure keeps the last-known value.\<close>

definition usage_refreshed :: "exn + Usage \<Rightarrow> Usage option \<Rightarrow> Usage option" where
  "usage_refreshed r u = (case r of Inr v \<Rightarrow> Some v | Inl _ \<Rightarrow> u)"

text \<open>The arithmetic of the meter, on doubles; \<open>None\<close> is \<open>NaN\<close>.\<close>

definition num_div :: "jsnum \<Rightarrow> jsnum \<Rightarrow> jsnum option" where
  "num_div a b =
     (case (a, b) of
        (Fin x, Fin y) \<Rightarrow> if y = 0 then (if x = 0 then None else Some (if 0 < x then PosInf else NegInf)) else Some (fl (x / y))
      | (Fin _, _) \<Rightarrow> Some (Fin 0)
      | (_, Fin y) \<Rightarrow> Some (if (a = PosInf) = (0 \<le> y) then PosInf else NegInf)
      | _ \<Rightarrow> None)"

definition num_times100 :: "jsnum \<Rightarrow> jsnum" where
  "num_times100 a = (case a of Fin x \<Rightarrow> fl (x * 100) | _ \<Rightarrow> a)"

text \<open>\<open>Math.min(100, Math.max(0, Math.round(x)))\<close>.\<close>

definition round_clamp :: "jsnum \<Rightarrow> int" where
  "round_clamp a = (case a of Fin x \<Rightarrow> min 100 (max 0 \<lfloor>x + 1 / 2\<rfloor>) | PosInf \<Rightarrow> 100 | NegInf \<Rightarrow> 0)"

definition pct :: "Usage \<Rightarrow> int option" where
  "pct u = (if Fin 0 < budget u then map_option (round_clamp \<circ> num_times100) (num_div (used u) (budget u)) else Some 0)"

record meter =
  shown_pct :: int
  warn :: bool

text \<open>\<open>UsageMeter\<close>: nothing before the first answer.\<close>

definition usage_meter :: "Usage option \<Rightarrow> meter option" where
  "usage_meter u =
     (case u of
        None \<Rightarrow> None
      | Some v \<Rightarrow> map_option (\<lambda>p. \<lparr>shown_pct = p, warn = (90 \<le> p)\<rparr>) (pct v))"

section \<open>Properties of the meter\<close>

lemma round_clamp_bounds: "0 \<le> round_clamp a" "round_clamp a \<le> 100"
  by (simp_all add: round_clamp_def split: jsnum.split)

lemma round_clamp_mono: "a \<le> b \<Longrightarrow> round_clamp a \<le> round_clamp b"
proof -
  have "min 100 (max 0 \<lfloor>x\<rfloor>) \<le> min 100 (max 0 \<lfloor>y\<rfloor>)" if "x \<le> y" for x y :: rat
    using floor_mono [OF that] by (intro min.mono max.mono order.refl)
  then show "a \<le> b \<Longrightarrow> round_clamp a \<le> round_clamp b"
    by (cases a; cases b) (auto simp: round_clamp_def)
qed

lemma num_times100_mono: "Fin 0 \<le> a \<Longrightarrow> a \<le> b \<Longrightarrow> num_times100 a \<le> num_times100 b"
  by (cases a; cases b) (auto simp: num_times100_def intro: fl_mono)

text \<open>The percentage shown of an exact share of the budget.\<close>

definition share_pct :: "rat \<Rightarrow> int" where
  "share_pct q = round_clamp (num_times100 (fl q))"

lemma share_pct_le: "share_pct q \<le> 100"
  by (simp add: share_pct_def round_clamp_bounds)

lemma share_pct_mono: "0 \<le> q \<Longrightarrow> q \<le> r \<Longrightarrow> share_pct q \<le> share_pct r"
  using fl_mono [of 0 q] fl_mono [of q r] unfolding share_pct_def
  by (intro round_clamp_mono num_times100_mono) (auto simp: fl_def [of 0])

lemma pct_share: "0 < y \<Longrightarrow> pct \<lparr>used = Fin x, budget = Fin y\<rparr> = Some (share_pct (x / y))"
  by (simp add: pct_def num_div_def share_pct_def)

lemma floor_rat_numeral [simp]: "\<lfloor>numeral a / numeral b :: rat\<rfloor> = numeral a div numeral b"
  using floor_divide_of_int_eq [of "numeral a" "numeral b", where ?'a = rat] by simp

lemma fl_shares:
  "fl (447 / 500) = Fin (8052436133738447 / 9007199254740992)"
  "fl (179 / 200) = Fin (2015360833248297 / 2251799813685248)"
  using fl_exponent [of "- 1" "447 / 500"] fl_exponent [of "- 1" "179 / 200"]
  by (simp_all add: pow2_def round_half_even_def Let_def)

lemma share_pct_values: "share_pct (447 / 500) = 89" "share_pct (179 / 200) = 90" "share_pct 1 = 100"
  using fl_exponent [of 6 "8052436133738447 / 9007199254740992 * 100"] fl_exponent [of 6 "2015360833248297 / 2251799813685248 * 100"] fl_safe_int [of 1] fl_safe_int [of 100]
  by (simp_all add: share_pct_def fl_shares num_times100_def round_clamp_def pow2_def round_half_even_def Let_def)

text \<open>
  C38: The meter shows a percentage between 0 and 100, 0 without a budget; on doubles with their
  rounding it never falls when more is used, warns whenever at least 89.5% of the budget is used
  and not up to 89.4%, and a failed refresh keeps what it shows.
\<close>

theorem usage_meter_bounds:
  "(case usage_meter u of None \<Rightarrow> True | Some m \<Rightarrow> 0 \<le> shown_pct m \<and> shown_pct m \<le> 100) \<and>
   usage_meter (usage_refreshed (Inl e) u) = usage_meter u \<and>
   (budget v \<le> Fin 0 \<longrightarrow> usage_meter (Some v) = Some \<lparr>shown_pct = 0, warn = False\<rparr>) \<and>
   (0 < y \<and> 0 \<le> x \<longrightarrow>
     (\<exists>m. usage_meter (Some \<lparr>used = Fin x, budget = Fin y\<rparr>) = Some m \<and>
        (y * 179 / 200 \<le> x \<longrightarrow> warn m) \<and> (x \<le> y * 447 / 500 \<longrightarrow> \<not> warn m) \<and> (y \<le> x \<longrightarrow> shown_pct m = 100) \<and>
        (x \<le> z \<longrightarrow> (\<exists>n. usage_meter (Some \<lparr>used = Fin z, budget = Fin y\<rparr>) = Some n \<and> shown_pct m \<le> shown_pct n))))"
proof (intro conjI impI)
  show "case usage_meter u of None \<Rightarrow> True | Some m \<Rightarrow> 0 \<le> shown_pct m \<and> shown_pct m \<le> 100"
    by (auto simp: usage_meter_def pct_def round_clamp_bounds split: option.split if_splits)
  assume "0 < y \<and> 0 \<le> x"
  then have y: "0 < y" and q: "0 \<le> x / y" by auto
  let ?m = "\<lparr>shown_pct = share_pct (x / y), warn = (90 \<le> share_pct (x / y))\<rparr>"
  have "y * 179 / 200 \<le> x \<longrightarrow> warn ?m"
    using y share_pct_mono [of "179 / 200" "x / y"] by (auto simp: share_pct_values pos_le_divide_eq mult.commute)
  moreover have "x \<le> y * 447 / 500 \<longrightarrow> \<not> warn ?m"
    using y q share_pct_mono [of "x / y" "447 / 500"] by (auto simp: share_pct_values pos_divide_le_eq mult.commute)
  moreover have "y \<le> x \<longrightarrow> shown_pct ?m = 100"
    using y share_pct_mono [of 1 "x / y"]
    by (auto simp: share_pct_values(3) pos_le_divide_eq share_pct_le intro: antisym)
  moreover have "x \<le> z \<longrightarrow> share_pct (x / y) \<le> share_pct (z / y)"
    using y q by (intro impI share_pct_mono divide_right_mono) (auto intro: order.strict_implies_order)
  ultimately show "\<exists>m. usage_meter (Some \<lparr>used = Fin x, budget = Fin y\<rparr>) = Some m \<and>
      (y * 179 / 200 \<le> x \<longrightarrow> warn m) \<and> (x \<le> y * 447 / 500 \<longrightarrow> \<not> warn m) \<and> (y \<le> x \<longrightarrow> shown_pct m = 100) \<and>
      (x \<le> z \<longrightarrow> (\<exists>n. usage_meter (Some \<lparr>used = Fin z, budget = Fin y\<rparr>) = Some n \<and> shown_pct m \<le> shown_pct n))"
    by (intro exI [of _ ?m]) (simp add: usage_meter_def pct_share y)
qed (auto simp: usage_refreshed_def usage_meter_def pct_def)

lemma usage_meter_bounds_witness:
  "\<exists>m. usage_meter (Some \<lparr>used = Fin 180, budget = Fin 200\<rparr>) = Some m \<and> warn m"
  using usage_meter_bounds [of None e "\<lparr>used = Fin 0, budget = Fin 0\<rparr>" 200 180 180] by auto

end
