(* ===== verification/Shell.thy ===== *)
theory Shell
  imports ChatPage Notices
begin

text \<open>
  The signed-in shell (\<open>app/(app)/layout.tsx\<close>): \<open>AppLayout\<close> mounts the providers of the
  conversations, the usage and the messages while the session is \<open>authed\<close> and unmounts them
  otherwise. A mounted provider starts empty; a continuation of a provider that was unmounted
  (an answer that arrives late) has no state to change.
\<close>

section \<open>Mounting and unmounting\<close>

type_synonym providers = "sidebar \<times> Usage option \<times> store"

definition providers_mounted :: providers where
  "providers_mounted = (mounted, None, empty_store)"

text \<open>The continuations and operations of the three providers.\<close>

datatype provider_op =
    Listed "exn + Conversation list"
  | Created "exn + Conversation"
  | Renamed int jstring "exn + unit"
  | Removed int "exn + unit"
  | UsageAnswer "exn + Usage"
  | StoreOp op

fun provider_step :: "providers \<Rightarrow> provider_op \<Rightarrow> providers" where
  "provider_step (s, u, st) (Listed r) = (listed r s, u, st)"
| "provider_step (s, u, st) (Created r) = (snd (create r s), u, st)"
| "provider_step (s, u, st) (Renamed i t r) = (snd (rename i t r s), u, st)"
| "provider_step (s, u, st) (Removed i r) = (snd (remove i r s), u, st)"
| "provider_step (s, u, st) (UsageAnswer r) = (s, usage_refreshed r u, st)"
| "provider_step (s, u, st) (StoreOp e) = (s, u, step st e)"

text \<open>\<open>mounts\<close> numbers the mounts, so that a continuation belongs to one of them.\<close>

record shell =
  session_auth :: auth
  providers :: "providers option"
  mounts :: nat

definition shell_start :: "client \<Rightarrow> shell" where
  "shell_start c = \<lparr>session_auth = auth_start c, providers = None, mounts = 0\<rparr>"

text \<open>\<open>AppLayout\<close>, rendered after a change of the session.\<close>

definition app_render :: "shell \<Rightarrow> shell" where
  "app_render s =
     (if app_layout (session_auth s) = Shell
      then (case providers s of
              Some p \<Rightarrow> s
            | None \<Rightarrow> s\<lparr>providers := Some providers_mounted, mounts := Suc (mounts s)\<rparr>)
      else s\<lparr>providers := None\<rparr>)"

datatype shell_event = SessionEvent auth_op | InProviders nat provider_op

fun shell_step :: "env \<Rightarrow> shell \<Rightarrow> shell_event \<Rightarrow> shell" where
  "shell_step E s (SessionEvent e) = app_render (s\<lparr>session_auth := auth_step E (session_auth s) e\<rparr>)"
| "shell_step E s (InProviders k e) =
     (if k = mounts s then s\<lparr>providers := map_option (\<lambda>p. provider_step p e) (providers s)\<rparr> else s)"

section \<open>One session at a time\<close>

definition shell_ok :: "shell \<Rightarrow> bool" where
  "shell_ok s \<longleftrightarrow> (providers s = None \<longleftrightarrow> auth_status (session_auth s) \<noteq> Authed)"

lemma app_layout_Shell: "app_layout a = Shell \<longleftrightarrow> auth_status a = Authed"
  by (simp add: app_layout_def split: auth_status.split)

lemma shell_ok_step: "shell_ok s \<Longrightarrow> shell_ok (shell_step E s e)"
  by (cases e) (auto simp: shell_ok_def app_render_def app_layout_Shell split: option.split)

interpretation shells: machine_invariant "shell_step E" shell_ok for E
  by unfold_locales (rule shell_ok_step)

lemma shell_ok_start: "shell_ok (shell_start c)"
  by (simp add: shell_ok_def shell_start_def auth_start_def)

text \<open>The operations of the providers mounted as number \<open>k\<close>.\<close>

definition ops_of :: "nat \<Rightarrow> shell_event list \<Rightarrow> provider_op list" where
  "ops_of k es = List.map_filter (\<lambda>e. case e of InProviders n p \<Rightarrow> if n = k then Some p else None | _ \<Rightarrow> None) es"

lemma ops_of_snoc [simp]:
  "ops_of k [] = []"
  "ops_of k (es @ [SessionEvent a]) = ops_of k es"
  "ops_of k (es @ [InProviders n p]) = (if n = k then ops_of k es @ [p] else ops_of k es)"
  by (simp_all add: ops_of_def List.map_filter_def)

lemma mounts_mono: "mounts s \<le> mounts (foldl (shell_step E) s es)"
proof (induction es arbitrary: s)
  case (Cons e es)
  have "mounts s \<le> mounts (shell_step E s e)"
    by (cases e) (simp_all add: app_render_def split: option.split)
  with Cons [of "shell_step E s e"] show ?case by simp
qed simp

lemma mounted_since:
  assumes "providers s = None" and "providers (foldl (shell_step E) s es) = Some p"
  shows "\<exists>pre post. es = pre @ post \<and> mounts s < mounts (foldl (shell_step E) s es) \<and>
     p = foldl provider_step providers_mounted (ops_of (mounts (foldl (shell_step E) s es)) post)"
  using assms(2)
proof (induction es arbitrary: p rule: rev_induct)
  case Nil
  with assms(1) show ?case by simp
next
  case (snoc e es)
  let ?t = "foldl (shell_step E) s es"
  show ?case
  proof (cases "providers ?t")
    case None
    then obtain a where "e = SessionEvent a" "p = providers_mounted" "mounts (shell_step E ?t e) = Suc (mounts ?t)"
      using snoc.prems by (cases e) (auto simp: app_render_def split: if_splits)
    then show ?thesis using mounts_mono [of s E es] by (intro exI [of _ "es @ [e]"] exI [of _ "[]"]) simp
  next
    case (Some q)
    from snoc.IH [OF this] obtain pre post where IH: "es = pre @ post" "mounts s < mounts ?t"
      "q = foldl provider_step providers_mounted (ops_of (mounts ?t) post)" by blast
    show ?thesis
    proof (cases e)
      case (SessionEvent a)
      with Some snoc.prems have "p = q" "mounts (shell_step E ?t e) = mounts ?t"
        by (auto simp: app_render_def split: if_splits)
      with IH SessionEvent show ?thesis by (intro exI [of _ pre] exI [of _ "post @ [e]"]) simp
    next
      case (InProviders k x)
      with Some snoc.prems IH show ?thesis
        by (intro exI [of _ pre] exI [of _ "post @ [e]"]) (auto split: if_splits)
    qed
  qed
qed

text \<open>
  Nothing of one session reaches the next: while nobody is signed in there is no cached data
  of conversations, messages or usage, and after a later sign-in it is what the operations of the
  new mount made of empty providers, whatever happened before and however late the answers to
  earlier requests arrive.
\<close>

theorem sessions_isolated:
  assumes "auth_status (session_auth (foldl (shell_step E) (shell_start c) es1)) \<noteq> Authed"
  shows "let s = foldl (shell_step E) (shell_start c) es1; t = foldl (shell_step E) s es2 in
     providers s = None \<and>
     (case providers t of
        None \<Rightarrow> auth_status (session_auth t) \<noteq> Authed
      | Some p \<Rightarrow> \<exists>pre post. es2 = pre @ post \<and> mounts s < mounts t \<and>
          p = foldl provider_step providers_mounted (ops_of (mounts t) post))"
proof -
  let ?s = "foldl (shell_step E) (shell_start c) es1"
  have "shell_ok ?s" "shell_ok (foldl (shell_step E) ?s es2)"
    by (intro shells.inv_run shell_ok_start)+
  then show ?thesis
    using assms mounted_since [of ?s E es2]
    by (auto simp: Let_def shell_ok_def simp del: split_paired_All split_paired_Ex split: option.split)
qed

text \<open>
  A session that creates a conversation and ends; then a second sign-in, and an answer to the first
  session's listing.
\<close>

definition token_text :: string where
  "token_text = ''{'' @ [CHR 0x22] @ ''access_token'' @ [CHR 0x22] @ '':'' @ [CHR 0x22] @ ''t'' @ [CHR 0x22] @ ''}''"

definition demo_net :: env where
  "demo_net = scripted [answer 200 token_text, answer 200 ''{}'', answer 204 [], answer 200 token_text, answer 200 ''{}'']"

definition old_chat :: Conversation where
  "old_chat = \<lparr>conv_id = 1, title = js ''secret'', conv_created_at = [], updated_at = []\<rparr>"

definition first_session :: "shell_event list" where
  "first_session = [SessionEvent (Boot True), InProviders 1 (Created (Inr old_chat)), SessionEvent Logout]"

definition second_session :: "shell_event list" where
  "second_session = [SessionEvent (Google (js ''code'')), InProviders 1 (Listed (Inr [old_chat]))]"

lemma two_sessions:
  "(let s = foldl (shell_step demo_net) (shell_start signed_in) first_session;
        t = foldl (shell_step demo_net) s second_session
    in (auth_status (session_auth s), auth_status (session_auth t), mounts t)) = (Anon, Authed, 2)"
  by code_simp

theorem sessions_isolated_witness:
  "providers (foldl (shell_step demo_net) (foldl (shell_step demo_net) (shell_start signed_in) first_session) second_session) =
     Some providers_mounted"
proof -
  let ?s = "foldl (shell_step demo_net) (shell_start signed_in) first_session"
  let ?t = "foldl (shell_step demo_net) ?s second_session"
  have "auth_status (session_auth ?s) = Anon" "auth_status (session_auth ?t) = Authed" "mounts ?t = 2"
    using two_sessions unfolding Let_def by (simp_all only: prod.inject)
  moreover have "ops_of 2 post = []" if "second_session = pre @ post" for pre post
  proof -
    have "set post \<subseteq> set second_session" unfolding that by simp
    then have "list_all (\<lambda>e. case e of InProviders k p \<Rightarrow> k \<noteq> 2 | _ \<Rightarrow> True) post"
      by (auto simp: list_all_iff second_session_def)
    then show ?thesis
      by (induction post) (auto simp: ops_of_def List.map_filter_simps split: shell_event.splits)
  qed
  ultimately show ?thesis
    using sessions_isolated [of demo_net signed_in first_session second_session]
    by (auto simp: Let_def simp del: split_paired_All split_paired_Ex split: option.splits)
qed

end
