(* ===== verification/Overlays.thy ===== *)
theory Overlays
  imports Feedback
begin

text \<open>
  The parts of the shell that open and close: the menu (\<open>components/ui/menu.tsx\<close>), the modal
  dialog (\<open>components/ui/dialog.tsx\<close>), the settings menu (\<open>components/settings-menu.tsx\<close>), the
  mobile drawer and the collapsed sidebar (\<open>lib/use-mobile-drawer.ts\<close>,
  \<open>lib/use-sidebar-collapsed.ts\<close>), the text area's height (\<open>lib/autosize.ts\<close>), and the loading of
  the Google sign-in script (\<open>app/(auth)/login/page.tsx\<close>). Elements of the page are numbers.
\<close>

section \<open>Menu\<close>

datatype placement = BottomEnd | BottomStart | TopStart

definition is_top :: "placement \<Rightarrow> bool" where
  "is_top p \<longleftrightarrow> p = TopStart"

definition is_end :: "placement \<Rightarrow> bool" where
  "is_end p \<longleftrightarrow> p = BottomEnd"

text \<open>Pixels are rationals: browsers report binary fractions, on which these sums are exact.\<close>

record rect =
  rect_top :: rat
  rect_bottom :: rat
  rect_left :: rat
  rect_right :: rat

record coords =
  c_top :: rat
  c_bottom :: rat
  c_left :: rat

definition menu_coords :: "placement \<Rightarrow> rat \<Rightarrow> rect \<Rightarrow> coords" where
  "menu_coords p innerHeight r =
     \<lparr>c_top = (if is_top p then 0 else rect_bottom r + 4),
      c_bottom = (if is_top p then innerHeight - rect_top r + 4 else 0),
      c_left = (if is_end p then rect_right r else rect_left r)\<rparr>"

text \<open>
  The focus is on the trigger, on item \<open>i\<close> of the surface, or elsewhere; \<open>frames\<close> counts the
  animation frames requested and not yet run.
\<close>

datatype focus = OnTrigger | OnItem nat | Elsewhere

record menu =
  menu_open :: bool
  rendered :: bool
  shown :: bool
  menu_at :: "coords option"
  frames :: nat
  focused :: focus

definition menu_closed :: menu where
  "menu_closed = \<lparr>menu_open = False, rendered = False, shown = False, menu_at = None, frames = 0, focused = Elsewhere\<rparr>"

definition openMenu :: "coords option \<Rightarrow> menu \<Rightarrow> menu" where
  "openMenu r m =
     m\<lparr>menu_at := (case r of Some c \<Rightarrow> Some c | None \<Rightarrow> menu_at m), menu_open := True, rendered := True,
       frames := Suc (frames m)\<rparr>"

text \<open>The frame's callback; \<open>items\<close> is the number of focusable elements in the mounted surface.\<close>

definition menu_frame :: "bool \<Rightarrow> nat \<Rightarrow> menu \<Rightarrow> menu" where
  "menu_frame isDesktop items m =
     m\<lparr>frames := frames m - 1, shown := True,
       focused := (if (if isDesktop then menu_open m else rendered m) \<and> 0 < items then OnItem 0 else focused m)\<rparr>"

definition menu_close :: "menu \<Rightarrow> menu" where
  "menu_close m = m\<lparr>menu_open := False, shown := False\<rparr>"

definition menu_dismiss :: "menu \<Rightarrow> menu" where
  "menu_dismiss m = (menu_close m)\<lparr>focused := OnTrigger\<rparr>"

text \<open>The effect arms the exit timer exactly in these states, and cancels it on leaving them.\<close>

definition exit_timer :: "bool \<Rightarrow> menu \<Rightarrow> bool" where
  "exit_timer isDesktop m \<longleftrightarrow> \<not> (isDesktop \<or> menu_open m \<or> \<not> rendered m)"

definition menu_mounted :: "bool \<Rightarrow> menu \<Rightarrow> bool" where
  "menu_mounted isDesktop m \<longleftrightarrow> (if isDesktop then menu_open m else rendered m)"

text \<open>\<open>trapFocus\<close>: where Tab goes; \<open>None\<close> leaves it to the browser.\<close>

definition trapFocus :: "bool \<Rightarrow> nat \<Rightarrow> focus \<Rightarrow> nat option" where
  "trapFocus shiftKey items f =
     (if items = 0 then None
      else if shiftKey \<and> f = OnItem 0 then Some (items - 1)
      else if \<not> shiftKey \<and> f = OnItem (items - 1) then Some 0
      else None)"

text \<open>
  The browser's own step between the items, in document order; from outside the surface it is not
  followed.
\<close>

definition browser_tab :: "bool \<Rightarrow> focus \<Rightarrow> focus" where
  "browser_tab shiftKey f =
     (case f of OnItem i \<Rightarrow> if shiftKey then (if i = 0 then Elsewhere else OnItem (i - 1)) else OnItem (Suc i)
      | _ \<Rightarrow> f)"

definition menu_tab :: "bool \<Rightarrow> nat \<Rightarrow> menu \<Rightarrow> menu" where
  "menu_tab shiftKey items m =
     m\<lparr>focused := (case trapFocus shiftKey items (focused m) of Some i \<Rightarrow> OnItem i | None \<Rightarrow> browser_tab shiftKey (focused m))\<rparr>"

datatype menu_event =
    TriggerClick "coords option"
  | Frame nat
  | ExitTimer
  | Escape
  | Tab bool nat
  | MouseDownInside
  | MouseDownOutside
  | ScrollOrResize
  | Close
  | Backdrop

text \<open>
  The listeners of the effect exist while the menu is open; the backdrop only on a small screen,
  while the sheet is mounted.
\<close>

fun menu_step :: "bool \<Rightarrow> menu \<Rightarrow> menu_event \<Rightarrow> menu" where
  "menu_step isDesktop m (TriggerClick r) = (if menu_open m then menu_dismiss m else openMenu r m)"
| "menu_step isDesktop m (Frame items) = (if 0 < frames m then menu_frame isDesktop items m else m)"
| "menu_step isDesktop m ExitTimer = (if exit_timer isDesktop m then m\<lparr>rendered := False\<rparr> else m)"
| "menu_step isDesktop m Escape = (if menu_open m then menu_dismiss m else m)"
| "menu_step isDesktop m (Tab shiftKey items) = (if menu_open m then menu_tab shiftKey items m else m)"
| "menu_step isDesktop m MouseDownInside = m"
| "menu_step isDesktop m MouseDownOutside = (if menu_open m then menu_dismiss m else m)"
| "menu_step isDesktop m ScrollOrResize = (if isDesktop \<and> menu_open m then menu_close m else m)"
| "menu_step isDesktop m Close = menu_close m"
| "menu_step isDesktop m Backdrop = (if \<not> isDesktop \<and> menu_mounted isDesktop m then menu_dismiss m else m)"

subsection \<open>The media query\<close>

text \<open>
  \<open>useMediaQuery\<close> (\<open>lib/use-media-query.ts\<close>): what the browser's query matches, whether the
  component has subscribed to its changes, and the value of the last render, \<open>False\<close> on the server.
\<close>

record media =
  mql_matches :: bool
  subscribed :: bool
  media_value :: bool

definition media_server :: "bool \<Rightarrow> media" where
  "media_server b = \<lparr>mql_matches = b, subscribed = False, media_value = False\<rparr>"

definition media_subscribe :: "media \<Rightarrow> media" where
  "media_subscribe h = h\<lparr>subscribed := True, media_value := mql_matches h\<rparr>"

definition media_change :: "bool \<Rightarrow> media \<Rightarrow> media" where
  "media_change b h = h\<lparr>mql_matches := b, media_value := (if subscribed h then b else media_value h)\<rparr>"

definition media_unsubscribe :: "media \<Rightarrow> media" where
  "media_unsubscribe h = h\<lparr>subscribed := False\<rparr>"

text \<open>A menu on a screen whose width changes.\<close>

datatype screen_event = WidthChange bool | OnMenu menu_event

fun screen_step :: "media \<times> menu \<Rightarrow> screen_event \<Rightarrow> media \<times> menu" where
  "screen_step (h, m) (WidthChange b) = (media_change b h, m)"
| "screen_step (h, m) (OnMenu e) = (h, menu_step (media_value h) m e)"

text \<open>An open menu is mounted, and the component knows the width.\<close>

definition menu_ok :: "menu \<Rightarrow> bool" where
  "menu_ok m \<longleftrightarrow> (menu_open m \<longrightarrow> rendered m)"

definition screen_ok :: "media \<times> menu \<Rightarrow> bool" where
  "screen_ok hm \<longleftrightarrow> menu_ok (snd hm) \<and> subscribed (fst hm) \<and> media_value (fst hm) = mql_matches (fst hm)"

lemma menu_ok_step: "menu_ok m \<Longrightarrow> menu_ok (menu_step d m e)"
  by (cases e) (auto simp: menu_ok_def menu_dismiss_def menu_close_def openMenu_def menu_frame_def menu_tab_def exit_timer_def)

lemma screen_ok_step: "screen_ok hm \<Longrightarrow> screen_ok (screen_step hm e)"
  by (cases hm; cases e) (auto simp: screen_ok_def menu_ok_step media_change_def)

interpretation menus: machine_invariant screen_step screen_ok
  by unfold_locales (rule screen_ok_step)



text \<open>
  Tab never leaves an open menu: from any item it goes to the next one and from the last to
  the first, with Shift the other way round.
\<close>

theorem tab_cycles:
  assumes "i < items" and "focused m = OnItem i"
  shows "focused (menu_tab False items m) = OnItem ((i + 1) mod items) \<and>
     focused (menu_tab True items m) = OnItem ((i + items - 1) mod items)"
proof
  show "focused (menu_tab False items m) = OnItem ((i + 1) mod items)"
  proof (cases "i = items - 1")
    case True
    with assms show ?thesis by (simp add: menu_tab_def trapFocus_def)
  next
    case False
    with assms show ?thesis by (simp add: menu_tab_def trapFocus_def browser_tab_def)
  qed
  show "focused (menu_tab True items m) = OnItem ((i + items - 1) mod items)"
  proof (cases "i = 0")
    case True
    with assms show ?thesis by (simp add: menu_tab_def trapFocus_def)
  next
    case False
    then have "i + items - 1 = (i - 1) + items" by simp
    then have "(i + items - 1) mod items = i - 1" using assms(1) by (simp only: mod_add_self2) simp
    with False assms show ?thesis by (simp add: menu_tab_def trapFocus_def browser_tab_def)
  qed
qed

theorem tab_cycles_witness:
  "focused (menu_tab False 3 (menu_closed\<lparr>focused := OnItem 2\<rparr>)) = OnItem 0 \<and>
   focused (menu_tab True 3 (menu_closed\<lparr>focused := OnItem 0\<rparr>)) = OnItem 2"
  using tab_cycles [of 2 3 "menu_closed\<lparr>focused := OnItem 2\<rparr>"] tab_cycles [of 0 3 "menu_closed\<lparr>focused := OnItem 0\<rparr>"]
  by simp

text \<open>
  The frame requested by \<open>openMenu\<close> is not cancelled: a menu closed before it runs is marked as
  shown although it is closed.
\<close>

theorem late_frame_shows_closed_menu:
  "let m = foldl (menu_step False) menu_closed [TriggerClick None, Escape, Frame 2] in
   \<not> menu_open m \<and> shown m \<and> focused m = OnItem 0"
  by (simp add: menu_closed_def openMenu_def menu_dismiss_def menu_close_def menu_frame_def)

section \<open>Dialog\<close>

text \<open>
  The effect of \<open>Dialog\<close> runs on opening and again whenever \<open>onClose\<close> is a new function; its
  cleanup gives the focus back. \<open>first\<close> is the first focusable element of the surface, if any.
\<close>

record dialog =
  dialog_open :: bool
  opener :: nat
  active :: nat

definition dialog_effect :: "nat option \<Rightarrow> dialog \<Rightarrow> dialog" where
  "dialog_effect first d =
     d\<lparr>opener := active d, active := (case first of Some e \<Rightarrow> e | None \<Rightarrow> active d)\<rparr>"

definition dialog_cleanup :: "dialog \<Rightarrow> dialog" where
  "dialog_cleanup d = d\<lparr>active := opener d\<rparr>"

datatype dialog_event = OpenIt "nat option" | NewOnClose "nat option" | MoveFocus nat | CloseIt

fun dialog_step :: "dialog \<Rightarrow> dialog_event \<Rightarrow> dialog" where
  "dialog_step d (OpenIt first) = (if dialog_open d then d else dialog_effect first (d\<lparr>dialog_open := True\<rparr>))"
| "dialog_step d (NewOnClose first) = (if dialog_open d then dialog_effect first (dialog_cleanup d) else d)"
| "dialog_step d (MoveFocus e) = d\<lparr>active := e\<rparr>"
| "dialog_step d CloseIt = (if dialog_open d then (dialog_cleanup d)\<lparr>dialog_open := False\<rparr> else d)"

fun keeps_dialog :: "dialog_event \<Rightarrow> bool" where
  "keeps_dialog CloseIt \<longleftrightarrow> False"
| "keeps_dialog _ \<longleftrightarrow> True"

text \<open>
  Closing a dialog returns the focus to the element that had it when the dialog was opened,
  however the focus moved inside and however often the parent was rendered again meanwhile.
\<close>

theorem dialog_returns_focus:
  assumes "\<not> dialog_open d" and "list_all keeps_dialog es"
  shows "active (foldl dialog_step d (OpenIt first # es @ [CloseIt])) = active d \<and>
     \<not> dialog_open (foldl dialog_step d (OpenIt first # es @ [CloseIt]))"
proof -
  have inv: "dialog_open (foldl dialog_step d' es) \<and> opener (foldl dialog_step d' es) = opener d'"
    if "dialog_open d'" for d'
    using that assms(2)
  proof (induction es arbitrary: d')
    case (Cons e es)
    have "dialog_open (dialog_step d' e) \<and> opener (dialog_step d' e) = opener d'"
      using Cons.prems by (cases e) (auto simp: dialog_effect_def dialog_cleanup_def split: option.split)
    with Cons show ?case by simp
  qed simp
  let ?d = "dialog_step d (OpenIt first)"
  have "dialog_open ?d" "opener ?d = active d" using assms(1) by (simp_all add: dialog_effect_def)
  with inv [of ?d] show ?thesis by (simp add: dialog_cleanup_def)
qed

theorem dialog_returns_focus_witness:
  "active (foldl dialog_step \<lparr>dialog_open = False, opener = 0, active = 7\<rparr>
     [OpenIt (Some 1), MoveFocus 2, NewOnClose (Some 1), CloseIt]) = 7"
  using dialog_returns_focus [of "\<lparr>dialog_open = False, opener = 0, active = 7\<rparr>"
      "[MoveFocus 2, NewOnClose (Some 1)]" "Some 1"] by simp

section \<open>Settings\<close>

datatype settings_row = LogOut | ExportData | DeleteAccount

record settings =
  settings_menu :: menu
  delete_open :: bool

definition export_toast :: "exn + jstring \<Rightarrow> jstring list" where
  "export_toast r = (case r of Inr _ \<Rightarrow> [] | Inl _ \<Rightarrow> [js ''Could not export your data''])"

text \<open>A click on a row: the menu closes first; the text downloaded, the toasts, the provider.\<close>

definition settings_click ::
  "env \<Rightarrow> settings_row \<Rightarrow> settings \<times> auth \<Rightarrow> jstring option \<times> jstring list \<times> settings \<times> auth" where
  "settings_click E row sa =
     (let (s, a) = sa; s1 = s\<lparr>settings_menu := menu_close (settings_menu s)\<rparr> in
      case row of
        LogOut \<Rightarrow> (None, [], s1, snd (auth_logout E a))
      | ExportData \<Rightarrow>
          (let (r, c) = exportAccount E (api a)
           in (case r of Inr t \<Rightarrow> Some t | Inl _ \<Rightarrow> None, export_toast r, s1, after_call c a))
      | DeleteAccount \<Rightarrow> (None, [], s1\<lparr>delete_open := True\<rparr>, a))"

section \<open>Drawer and sidebar\<close>

record drawer =
  drawer_open :: bool
  prevPathname :: jstring

definition drawer_mounted :: "jstring \<Rightarrow> drawer" where
  "drawer_mounted pathname = \<lparr>drawer_open = False, prevPathname = pathname\<rparr>"

text \<open>A render with the current path, and the two callbacks.\<close>

definition drawer_render :: "jstring \<Rightarrow> drawer \<Rightarrow> drawer" where
  "drawer_render pathname d =
     (if pathname \<noteq> prevPathname d then d\<lparr>prevPathname := pathname, drawer_open := False\<rparr> else d)"

definition drawer_toggle :: "drawer \<Rightarrow> drawer" where
  "drawer_toggle d = d\<lparr>drawer_open := \<not> drawer_open d\<rparr>"

definition drawer_close :: "drawer \<Rightarrow> drawer" where
  "drawer_close d = d\<lparr>drawer_open := False\<rparr>"

text \<open>\<open>localStorage\<close> and the collapsed flag.\<close>

definition KEY :: jstring where
  "KEY = js ''sidebar-collapsed''"

definition collapsed_initially :: "bool \<Rightarrow> (jstring \<rightharpoonup> jstring) \<Rightarrow> bool" where
  "collapsed_initially window_defined storage \<longleftrightarrow> window_defined \<and> storage KEY = Some (js ''true'')"

definition collapsed_toggle :: "bool \<times> (jstring \<rightharpoonup> jstring) \<Rightarrow> bool \<times> (jstring \<rightharpoonup> jstring)" where
  "collapsed_toggle cs =
     (let after = \<not> fst cs in (after, (snd cs)(KEY \<mapsto> (if after then js ''true'' else js ''false''))))"

text \<open>
  The drawer is closed after every change of route and otherwise only changes by its own
  callbacks; the collapsed sidebar survives a reload: after any number of toggles a new mount reads
  back the state that is shown.
\<close>

theorem drawer_and_sidebar:
  "(p \<noteq> prevPathname d \<longrightarrow> \<not> drawer_open (drawer_render p d)) \<and>
   drawer_render p (drawer_render p d) = drawer_render p d \<and>
   drawer_render (prevPathname d) (drawer_toggle d) = drawer_toggle d \<and>
   (let (c, storage) = (collapsed_toggle ^^ n) (collapsed_initially True store0, store0) in
    collapsed_initially True storage = c)"
proof -
  have "collapsed_initially True (snd ((collapsed_toggle ^^ n) (collapsed_initially True store0, store0))) =
      fst ((collapsed_toggle ^^ n) (collapsed_initially True store0, store0))"
    by (cases n) (simp_all add: collapsed_toggle_def collapsed_initially_def Let_def)
  then show ?thesis by (simp add: drawer_render_def drawer_toggle_def case_prod_beta Let_def)
qed

theorem drawer_and_sidebar_witness:
  "\<not> drawer_open (drawer_render (js ''/c/2'') (drawer_toggle (drawer_mounted (js ''/c/1''))))"
  using drawer_and_sidebar [of "js ''/c/2''" "drawer_toggle (drawer_mounted (js ''/c/1''))" 0 Map.empty]
  by (simp add: drawer_toggle_def drawer_mounted_def)

section \<open>The text area\<close>

text \<open>
  Computed style, in pixels; \<open>None\<close> where \<open>parseFloat\<close> gives \<open>NaN\<close> and the code has a default.
\<close>

record computed_style =
  border_box :: bool
  border_top :: "rat option"
  border_bottom :: "rat option"
  line_height :: "rat option"
  font_size :: rat
  padding_top :: rat
  padding_bottom :: rat

definition or_zero :: "rat option \<Rightarrow> rat" where
  "or_zero x = (case x of Some v \<Rightarrow> v | None \<Rightarrow> 0)"

text \<open>The height set on the element, and whether the text wraps.\<close>

definition autoSize :: "computed_style \<Rightarrow> rat \<Rightarrow> rat \<times> bool" where
  "autoSize cs scrollHeight =
     (let borderY = (if border_box cs then or_zero (border_top cs) + or_zero (border_bottom cs) else 0);
          line = (case line_height cs of Some v \<Rightarrow> if v = 0 then font_size cs * 3 / 2 else v | None \<Rightarrow> font_size cs * 3 / 2);
          oneLine = line + padding_top cs + padding_bottom cs
      in (scrollHeight + borderY, oneLine + 1 < scrollHeight))"

section \<open>The sign-in script\<close>

text \<open>
  The effect of the sign-in page and the script's \<open>onload\<close>; the arguments say whether
  \<open>window.google\<close> exists by then and whether a client id is configured.
\<close>

record gsi_page =
  initialized :: bool
  scripts :: nat
  code_clients :: nat
  gsi_ready :: bool

definition gsi_mounted :: gsi_page where
  "gsi_mounted = \<lparr>initialized = False, scripts = 0, code_clients = 0, gsi_ready = False\<rparr>"

definition gsi_init :: "bool \<Rightarrow> bool \<Rightarrow> gsi_page \<Rightarrow> gsi_page" where
  "gsi_init google clientId g =
     (if \<not> google \<or> \<not> clientId then g else g\<lparr>code_clients := Suc (code_clients g), gsi_ready := True\<rparr>)"

definition gsi_effect :: "bool \<Rightarrow> bool \<Rightarrow> gsi_page \<Rightarrow> gsi_page" where
  "gsi_effect google clientId g =
     (if initialized g then g
      else if google then gsi_init google clientId (g\<lparr>initialized := True\<rparr>)
      else g\<lparr>initialized := True, scripts := Suc (scripts g)\<rparr>)"

datatype gsi_event = RunEffect bool | ScriptLoaded bool

text \<open>A script fires \<open>onload\<close> once; \<open>loads\<close> counts the appended scripts that have loaded.\<close>

fun gsi_step :: "bool \<Rightarrow> gsi_page \<times> nat \<Rightarrow> gsi_event \<Rightarrow> gsi_page \<times> nat" where
  "gsi_step clientId (g, loads) (RunEffect google) = (gsi_effect google clientId g, loads)"
| "gsi_step clientId (g, loads) (ScriptLoaded google) =
     (if loads < scripts g then (gsi_init google clientId g, Suc loads) else (g, loads))"

definition gsi_ok :: "gsi_page \<times> nat \<Rightarrow> bool" where
  "gsi_ok gl \<longleftrightarrow>
     snd gl \<le> scripts (fst gl) \<and> scripts (fst gl) \<le> 1 \<and>
     (scripts (fst gl) = 0 \<longrightarrow> code_clients (fst gl) \<le> 1) \<and>
     (scripts (fst gl) = 1 \<longrightarrow> code_clients (fst gl) \<le> snd gl) \<and>
     (\<not> initialized (fst gl) \<longrightarrow> scripts (fst gl) = 0 \<and> code_clients (fst gl) = 0) \<and>
     gsi_ready (fst gl) = (0 < code_clients (fst gl))"

lemma gsi_ok_step: "gsi_ok gl \<Longrightarrow> gsi_ok (gsi_step clientId gl e)"
  by (cases gl; cases e) (auto simp: gsi_ok_def gsi_effect_def gsi_init_def)

interpretation gsi_machine: machine_invariant "gsi_step clientId" gsi_ok for clientId
  by unfold_locales (rule gsi_ok_step)

text \<open>
  The Google client is initialised at most once and its script is added at most once, however
  often the effect runs; the button is ready exactly if there is a client.
\<close>

theorem gsi_initialised_once:
  "let (g, loads) = foldl (gsi_step clientId) (gsi_mounted, 0) es in
   code_clients g \<le> 1 \<and> scripts g \<le> 1 \<and> gsi_ready g = (code_clients g = 1)"
proof -
  have "gsi_ok (gsi_mounted, 0)" by (simp add: gsi_ok_def gsi_mounted_def)
  from gsi_machine.inv_run [OF this, of clientId es] show ?thesis
    by (auto simp: gsi_ok_def case_prod_beta Let_def)
qed

end
