(* ===== verification/Edge.thy ===== *)
theory Edge
  imports Prelude
begin

text \<open>
  The request proxy of the web server (\<open>web/src/proxy.ts\<close>) and the content security policy it
  sets (\<open>web/src/lib/csp.ts\<close>). The environment variables and the random nonce are arguments;
  headers are the list of \<open>set\<close> calls in order. What Next.js does with the result is not modelled.
\<close>

section \<open>The policy\<close>

definition gsi :: jstring where "gsi = js ''https://accounts.google.com/gsi/''"
definition wellKnown :: jstring where "wellKnown = js ''https://accounts.google.com/.well-known/''"
definition oauth :: jstring where "oauth = js ''https://accounts.google.com/o/oauth2/''"

definition csp_script :: "bool \<Rightarrow> jstring \<Rightarrow> jstring" where
  "csp_script dev nonce =
     (let q = [0x27] in
      if dev
      then js ''script-src '' @ q @ js ''self'' @ q @ js '' '' @ q @ js ''unsafe-inline'' @ q @ js '' '' @ q
             @ js ''unsafe-eval'' @ q @ js '' '' @ gsi @ js ''client''
      else js ''script-src '' @ q @ js ''nonce-'' @ nonce @ q @ js '' '' @ q @ js ''strict-dynamic'' @ q)"

definition csp_directives :: "jstring \<Rightarrow> bool \<Rightarrow> jstring \<Rightarrow> jstring list" where
  "csp_directives apiOrigin dev nonce =
     (let q = [0x27]; self = q @ js ''self'' @ q; none = q @ js ''none'' @ q in
      [js ''default-src '' @ self,
       csp_script dev nonce,
       js ''style-src '' @ self @ js '' '' @ q @ js ''unsafe-inline'' @ q @ js '' '' @ gsi @ js ''style'',
       js ''img-src '' @ self @ js '' data:'',
       js ''connect-src '' @ self @ js '' '' @ apiOrigin @ js '' '' @ gsi @ js '' '' @ wellKnown
         @ (if dev then js '' ws:'' else []),
       js ''font-src '' @ self,
       js ''frame-src '' @ gsi @ js '' '' @ oauth,
       js ''object-src '' @ none,
       js ''base-uri '' @ self,
       js ''form-action '' @ self,
       js ''frame-ancestors '' @ none])"

definition buildCSP :: "jstring \<Rightarrow> bool \<Rightarrow> jstring \<Rightarrow> jstring" where
  "buildCSP apiOrigin dev nonce = join (js ''; '') (csp_directives apiOrigin dev nonce)"

section \<open>The proxy\<close>

type_synonym header_list = "(jstring \<times> jstring) list"

text \<open>Header names are compared without regard to case: \<open>Headers\<close> keeps them in lower case.\<close>

definition header_name :: "jstring \<Rightarrow> jstring" where
  "header_name k = map (\<lambda>c. if 0x41 \<le> c \<and> c \<le> 0x5A then c + 0x20 else c) k"

definition set_header :: "jstring \<Rightarrow> jstring \<Rightarrow> header_list \<Rightarrow> header_list" where
  "set_header k v hs = filter (\<lambda>p. header_name (fst p) \<noteq> header_name k) hs @ [(header_name k, v)]"

definition get_header :: "string \<Rightarrow> header_list \<Rightarrow> jstring option" where
  "get_header k hs = map_option snd (find (\<lambda>p. header_name (fst p) = header_name (js k)) hs)"

record server_env =
  api_url :: jstring
  maintenance_mode :: bool
  production :: bool

datatype proxy_result =
    Rewrite jstring
  | Next header_list header_list

definition MAINTENANCE_EXEMPT :: "jstring list" where
  "MAINTENANCE_EXEMPT = [js ''/maintenance'', js ''/terms'', js ''/privacy'']"

definition security_headers :: "jstring \<Rightarrow> header_list" where
  "security_headers csp =
     foldl (\<lambda>hs (k, v). set_header k v hs) []
       [(js ''Content-Security-Policy'', csp),
        (js ''Strict-Transport-Security'', js ''max-age=31536000; includeSubDomains''),
        (js ''X-Content-Type-Options'', js ''nosniff''),
        (js ''X-Frame-Options'', js ''DENY''),
        (js ''Referrer-Policy'', js ''no-referrer''),
        (js ''Permissions-Policy'', js ''camera=(), microphone=(), geolocation=()'')]"

text \<open>The arguments: the environment, the nonce drawn, the path and the headers of the request.\<close>

definition proxy :: "server_env \<Rightarrow> jstring \<Rightarrow> jstring \<Rightarrow> header_list \<Rightarrow> proxy_result" where
  "proxy E nonce path hs =
     (if maintenance_mode E \<and> path \<notin> set MAINTENANCE_EXEMPT then Rewrite (js ''/maintenance'')
      else (let csp = buildCSP (api_url E) (\<not> production E) nonce
            in Next (set_header (js ''Content-Security-Policy'') csp (set_header (js ''x-nonce'') nonce hs))
                 (security_headers csp)))"

section \<open>Properties\<close>

text \<open>Splitting the policy at its semicolons gives the directives back.\<close>

lemma split_join_semi:
  assumes "\<And>s. s \<in> set ss \<Longrightarrow> 0x3B \<notin> set s" and "ss \<noteq> []"
  shows "map trim (split_on 0x3B (join (js ''; '') ss)) = map trim ss"
  using assms
proof (induction ss)
  case (Cons s ss)
  show ?case
  proof (cases "ss = []")
    case True
    with Cons.prems show ?thesis by (simp add: split_on_single)
  next
    case False
    have sep: "js ''; '' = [0x3B, 0x20]" by (simp add: js_text)
    obtain l ls where l: "split_on 0x3B (join (js ''; '') ss) = l # ls"
      by (cases "split_on 0x3B (join (js ''; '') ss)") auto
    have "split_on 0x3B (join (js ''; '') (s # ss)) = s # (0x20 # l) # ls"
      using False Cons.prems(1) l by (simp add: join_Cons sep split_on_append)
    moreover have "trim (0x20 # l) = trim l" by (rule trim_ws_Cons) (simp add: is_ws_def)
    moreover have "map trim (l # ls) = map trim ss" using Cons False l by simp
    ultimately show ?thesis by simp
  qed
qed simp

text \<open>
  The policy a browser reads is the list of directives, whatever the nonce and the API origin,
  as long as neither contains a semicolon: no directive runs into the next. In production scripts
  are allowed by the nonce only, never inline or by \<open>eval\<close>.
\<close>

theorem csp_parses_back:
  assumes "0x3B \<notin> set nonce" and "0x3B \<notin> set origin"
  shows "map trim (split_on 0x3B (buildCSP origin dev nonce)) = map trim (csp_directives origin dev nonce) \<and>
     csp_script False nonce = js ''script-src '' @ [0x27] @ js ''nonce-'' @ nonce @ [0x27] @ js '' '' @ [0x27]
       @ js ''strict-dynamic'' @ [0x27]"
proof
  show "map trim (split_on 0x3B (buildCSP origin dev nonce)) = map trim (csp_directives origin dev nonce)"
    unfolding buildCSP_def
  proof (rule split_join_semi)
    show "csp_directives origin dev nonce \<noteq> []" by (simp add: csp_directives_def Let_def)
    fix s assume "s \<in> set (csp_directives origin dev nonce)"
    then show "0x3B \<notin> set s"
      using assms
      by (auto simp: csp_directives_def csp_script_def gsi_def wellKnown_def oauth_def Let_def js_text split: if_splits)
  qed
qed (simp add: csp_script_def Let_def)

theorem csp_parses_back_witness:
  "map trim (split_on 0x3B (buildCSP [] False (js ''abc=''))) = map trim (csp_directives [] False (js ''abc=''))"
  using csp_parses_back [of "js ''abc=''" "[]" False] by (simp add: js_text)

lemma header_name_idem: "header_name (header_name k) = header_name k"
proof -
  have "\<not> (0x41 \<le> c + 0x20 \<and> c + 0x20 \<le> (0x5A :: jschar))" if "0x41 \<le> c" "c \<le> 0x5A" for c
    using that by (simp add: word_le_nat_alt unat_word_ariths)
  then show ?thesis by (auto simp: header_name_def)
qed

lemma get_set_header:
  "get_header k (set_header l v hs) = (if header_name (js k) = header_name l then Some v else get_header k hs)"
proof -
  let ?n = "header_name (js k)"
  have app: "find P (xs @ ys) = (case find P xs of None \<Rightarrow> find P ys | Some x \<Rightarrow> Some x)" for P and xs ys :: header_list
    by (induction xs) auto
  have same: "find (\<lambda>p. header_name (fst p) = ?n) (filter (\<lambda>p. header_name (fst p) \<noteq> header_name l) xs) =
      (if ?n = header_name l then None else find (\<lambda>p. header_name (fst p) = ?n) xs)" for xs :: header_list
    by (induction xs) auto
  show ?thesis
    by (simp add: get_header_def set_header_def app same header_name_idem split: option.split)
qed

lemma header_names:
  "header_name (js ''Content-Security-Policy'') = js ''content-security-policy''"
  "header_name (js ''x-nonce'') = js ''x-nonce''"
  "header_name (js ''Strict-Transport-Security'') = js ''strict-transport-security''"
  "header_name (js ''X-Content-Type-Options'') = js ''x-content-type-options''"
  "header_name (js ''X-Frame-Options'') = js ''x-frame-options''"
  "header_name (js ''Referrer-Policy'') = js ''referrer-policy''"
  "header_name (js ''Permissions-Policy'') = js ''permissions-policy''"
  by (simp_all add: header_name_def js_text)



end
