(* ===== verification/Screens.thy ===== *)
theory Screens
  imports Shell Overlays Edge
begin

text \<open>
  What the user can see and press: the controls the components render, and the pages as machines
  that are driven through them. A disabled control does nothing and a control that is not on the
  screen cannot be pressed, so the guards that the code puts into its markup take part in the
  proofs. Covered are the sign-in page (\<open>app/(auth)/login/page.tsx\<close>), the magic-link page
  (\<open>app/auth/magic/page.tsx\<close>), the sidebar and its rows (\<open>sidebar.tsx\<close>,
  \<open>conversation-item.tsx\<close>), the actions under a reply (\<open>message-actions.tsx\<close>), the settings
  (\<open>settings-menu.tsx\<close>, \<open>delete-account-dialog.tsx\<close>), the toasts (\<open>toaster.tsx\<close>) and the
  shell (\<open>app/(app)/layout.tsx\<close>, \<open>app/(app)/page.tsx\<close>). Styling is left out.
\<close>

section \<open>Controls\<close>

text \<open>
  A text; a button with its label, whether it is enabled, and what a click does; a button with a
  pressed or expanded state; an input with its label, value and whether it is enabled; a link; a
  backdrop that takes clicks.
\<close>

datatype 'e widget =
    Txt jstring
  | Btn jstring bool 'e
  | Tgl jstring bool 'e
  | Fld jstring jstring bool
  | Lnk jstring jstring
  | Shade 'e

text \<open>The click on the button with a label.\<close>

fun press :: "jstring \<Rightarrow> 'e widget list \<Rightarrow> 'e option" where
  "press l [] = None"
| "press l (Btn k enabled e # ws) = (if k = l then (if enabled then Some e else None) else press l ws)"
| "press l (Tgl k on e # ws) = (if k = l then Some e else press l ws)"
| "press l (_ # ws) = press l ws"

section \<open>The sign-in page\<close>

datatype login_control = RequestCode | SubmitLink

definition login_screen :: "login_page \<Rightarrow> login_control widget list" where
  "login_screen p =
     [Btn (if login_loading p then js ''Signing in'' @ [0x2026] else js ''Sign in with Google'') (google_enabled p)
        RequestCode] @
     (if link_sent p then [Txt (js ''Check your inbox for a sign in link.'')]
      else [Fld (js ''Email'') (email p) True,
            Btn (if link_sending p then js ''Sending'' @ [0x2026] else js ''Email me a sign in link'')
              (\<not> link_sending p) SubmitLink]) @
     (if login_error p \<noteq> [] then [Txt (login_error p)] else []) @
     [Txt (js ''By continuing you agree to the''), Lnk (js ''Terms'') (js ''/terms''), Txt (js ''&''),
      Lnk (js ''Privacy Policy'') (js ''/privacy''), Txt (js ''Made by''),
      Lnk (js ''Adam Lucek'') (js ''https://lucek.ai'')]"

text \<open>
  The page with what it has under way: the popups asked for, the codes and the addresses of the
  calls that have not settled, and the links it has sent.
\<close>

record login_flow =
  login_now :: login_page
  popups :: nat
  google_calls :: "jstring list"
  link_calls :: "jstring list"
  links_sent :: nat

datatype login_event =
    LoginPress jstring
  | ClientReady
  | TypeEmail jstring
  | PopupCode jstring
  | GoogleAnswer "exn + unit"
  | LinkAnswer "exn + unit"

definition login_mounted :: login_flow where
  "login_mounted =
     \<lparr>login_now = \<lparr>login_error = [], login_loading = False, ready = False, email = [], link_sent = False, link_sending = False\<rparr>,
      popups = 0, google_calls = [], link_calls = [], links_sent = 0\<rparr>"

definition login_press :: "jstring \<Rightarrow> login_flow \<Rightarrow> login_flow" where
  "login_press l s =
     (case press l (login_screen (login_now s)) of
        None \<Rightarrow> s
      | Some RequestCode \<Rightarrow> s\<lparr>popups := Suc (popups s)\<rparr>
      | Some SubmitLink \<Rightarrow>
          s\<lparr>login_now := link_started (login_now s), link_calls := link_calls s @ [email (login_now s)]\<rparr>)"

fun login_step :: "login_flow \<Rightarrow> login_event \<Rightarrow> login_flow" where
  "login_step s (LoginPress l) = login_press l s"
| "login_step s ClientReady = s\<lparr>login_now := (login_now s)\<lparr>ready := True\<rparr>\<rparr>"
| "login_step s (TypeEmail v) = (if link_sent (login_now s) then s else s\<lparr>login_now := (login_now s)\<lparr>email := v\<rparr>\<rparr>)"
| "login_step s (PopupCode c) =
     (if popups s = 0 then s else s\<lparr>login_now := google_started (login_now s), google_calls := google_calls s @ [c]\<rparr>)"
| "login_step s (GoogleAnswer r) =
     (case google_calls s of
        [] \<Rightarrow> s
      | _ # cs \<Rightarrow> s\<lparr>login_now := google_settled r (login_now s), google_calls := cs\<rparr>)"
| "login_step s (LinkAnswer r) =
     (case link_calls s of
        [] \<Rightarrow> s
      | _ # cs \<Rightarrow> s\<lparr>login_now := link_settled r (login_now s), link_calls := cs,
                     links_sent := links_sent s + (case r of Inr _ \<Rightarrow> 1 | Inl _ \<Rightarrow> 0)\<rparr>)"

text \<open>One link call at a time, none once a link was sent.\<close>

definition login_ok :: "login_flow \<Rightarrow> bool" where
  "login_ok s \<longleftrightarrow>
     length (link_calls s) = (if link_sending (login_now s) then 1 else 0) \<and>
     links_sent s = (if link_sent (login_now s) then 1 else 0) \<and>
     (link_sent (login_now s) \<longrightarrow> \<not> link_sending (login_now s))"

lemma press_SubmitLink:
  "press l (login_screen p) = Some SubmitLink \<Longrightarrow> \<not> link_sent p \<and> \<not> link_sending p"
  by (auto simp: login_screen_def split: if_splits)

lemma login_ok_step: "login_ok s \<Longrightarrow> login_ok (login_step s e)"
proof (cases e)
  case (LoginPress l)
  moreover assume "login_ok s"
  ultimately show ?thesis
    using press_SubmitLink [of l "login_now s"]
    by (auto simp: login_press_def login_ok_def link_started_def split: option.split login_control.split)
qed (auto simp: login_ok_def google_started_def google_settled_def link_settled_def split: list.split sum.split if_splits)

interpretation logins: machine_invariant login_step login_ok
  by unfold_locales (rule login_ok_step)

text \<open>
  The form of the sign-in page, whatever is typed and pressed: at most one request for a link
  is under way, exactly while its button is disabled; at most one request succeeds, and then the
  form is gone and no press starts another; after a failure the form is there again, enabled, and
  the error is shown.
\<close>

theorem sign_in_form_once:
  "let s = foldl login_step login_mounted es; p = login_now s in
     length (link_calls s) = (if link_sending p then 1 else 0) \<and>
     links_sent s \<le> 1 \<and>
     (links_sent s = 1 \<longrightarrow> (\<forall>l. link_calls (login_press l s) = link_calls s)) \<and>
     (links_sent s = 0 \<longrightarrow>
        press (js ''Email me a sign in link'') (login_screen p) = (if link_sending p then None else Some SubmitLink)) \<and>
     (\<forall>m. link_calls s \<noteq> [] \<and> m \<noteq> [] \<longrightarrow>
        (let s' = login_step s (LinkAnswer (Inl (ApiError 429 m))) in
         press (js ''Email me a sign in link'') (login_screen (login_now s')) = Some SubmitLink \<and>
         Txt m \<in> set (login_screen (login_now s'))))"
proof -
  let ?s = "foldl login_step login_mounted es"
  have "login_ok login_mounted" by (simp add: login_ok_def login_mounted_def)
  then have ok: "login_ok ?s" by (rule logins.inv_run)
  have button: "press (js ''Email me a sign in link'') (login_screen p) = (if link_sending p then None else Some SubmitLink)"
    if "\<not> link_sent p" for p
    using that by (auto simp: login_screen_def js_text)
  have gone: "link_calls (login_press l ?s) = link_calls ?s" if "link_sent (login_now ?s)" for l
    using press_SubmitLink [of l "login_now ?s"] that
    by (auto simp: login_press_def split: option.split login_control.split)
  have failed: "press (js ''Email me a sign in link'') (login_screen (login_now s')) = Some SubmitLink \<and>
      Txt m \<in> set (login_screen (login_now s'))"
    if "link_calls ?s \<noteq> []" "m \<noteq> []" "s' = login_step ?s (LinkAnswer (Inl (ApiError 429 m)))" for m s'
  proof -
    have "\<not> link_sent (login_now s')" "\<not> link_sending (login_now s')" "login_error (login_now s') = m"
      using ok that by (auto simp: login_ok_def link_settled_def error_text_def split: list.splits if_splits)
    with that(2) show ?thesis by (simp add: button) (simp add: login_screen_def)
  qed
  show ?thesis
    using ok button [of "login_now ?s"] gone failed
    by (auto simp: Let_def login_ok_def)
qed

text \<open>Two presses, a refusal, and a third press.\<close>

theorem sign_in_form_once_witness:
  "let s = foldl login_step login_mounted
       [TypeEmail (js ''a''), LoginPress (js ''Email me a sign in link''), LoginPress (js ''Email me a sign in link'')];
     s' = login_step s (LinkAnswer (Inl (ApiError 429 (js ''wait''))))
   in link_calls s = [js ''a''] \<and> Txt (js ''wait'') \<in> set (login_screen (login_now s'))"
proof -
  let ?es = "[TypeEmail (js ''a''), LoginPress (js ''Email me a sign in link''), LoginPress (js ''Email me a sign in link'')]"
  have "link_calls (foldl login_step login_mounted ?es) = [js ''a'']"
    by (simp add: login_mounted_def login_press_def login_screen_def link_started_def google_enabled_def js_text)
  then show ?thesis
    using sign_in_form_once [of ?es] unfolding Let_def by (simp add: js_text del: foldl_Cons)
qed

section \<open>The magic-link page\<close>

definition verify_screen :: "verify_page \<Rightarrow> unit widget list" where
  "verify_screen p =
     (if verify_error p
      then [Txt (js ''This sign in link is invalid or expired.''), Lnk (js ''Back to sign in'') (js ''/login'')]
      else [Txt (js ''Signing you in'' @ [0x2026])])"

section \<open>Menus and dialogs\<close>

text \<open>
  \<open>Menu\<close>: its trigger, and while it is mounted its surface, over a backdrop on a small screen;
  \<open>Dialog\<close>: its surface over a backdrop.
\<close>

definition Menu :: "bool \<Rightarrow> jstring \<Rightarrow> menu \<Rightarrow> 'e \<Rightarrow> 'e \<Rightarrow> 'e widget list \<Rightarrow> 'e widget list" where
  "Menu isDesktop trigger m onTrigger onBackdrop inside =
     Tgl trigger (menu_open m) onTrigger #
     (if menu_mounted isDesktop m then (if isDesktop then inside else Shade onBackdrop # inside) else [])"

definition Dialog :: "bool \<Rightarrow> 'e \<Rightarrow> 'e widget list \<Rightarrow> 'e widget list" where
  "Dialog is_opened onClose inside = (if is_opened then Shade onClose # inside else [])"

section \<open>A row of the sidebar\<close>

datatype row_control = PressTrigger | PressBackdrop | PressRename | PressDelete | PressCancel | PressConfirm

definition question :: jstring where
  "question = js ''Delete this conversation?''"

definition MenuContent :: "bool \<Rightarrow> row_control widget list" where
  "MenuContent is_confirming =
     (if is_confirming
      then [Txt question, Btn (js ''Cancel'') True PressCancel, Btn (js ''Delete'') True PressConfirm]
      else [Btn (js ''Rename'') True PressRename, Btn (js ''Delete'') True PressDelete])"

text \<open>
  A row, as last rendered, its menu, the calls of \<open>remove\<close> under way, the list it is in, the toasts
  it raised and the route it pushed.
\<close>

record row =
  row_conv :: Conversation
  row_item :: item
  row_menu :: menu
  removals :: nat
  row_list :: sidebar
  row_toasts :: "jstring list"
  row_route :: "jstring option"

definition row_mounted :: "Conversation \<Rightarrow> sidebar \<Rightarrow> row" where
  "row_mounted c s =
     \<lparr>row_conv = c, row_item = item_mounted c, row_menu = menu_closed, removals = 0, row_list = s,
      row_toasts = [], row_route = None\<rparr>"

definition ConversationItem :: "bool \<Rightarrow> bool \<Rightarrow> row \<Rightarrow> row_control widget list" where
  "ConversationItem isDesktop isOpen r =
     (if editing (row_item r) then [Fld (js ''Conversation title'') (draft (row_item r)) True]
      else (if isOpen then [Txt (js ''>'')] else []) @
        Lnk (row_label (row_conv r)) (js ''/c/'' @ int_str (conv_id (row_conv r))) #
        Menu isDesktop (js ''Conversation actions'') (row_menu r) PressTrigger PressBackdrop
          (MenuContent (confirming (row_item r))))"

text \<open>
  The row is rendered again: with its current conversation; what is not mounted any more (the menu
  while the title is edited, its content while the menu is not mounted) starts afresh later.
\<close>

definition row_render :: "bool \<Rightarrow> row \<Rightarrow> row" where
  "row_render isDesktop r =
     (let r1 = r\<lparr>row_conv := (case find_conv (row_list r) (conv_id (row_conv r)) of Some c \<Rightarrow> c | None \<Rightarrow> row_conv r)\<rparr>;
          r2 = (if editing (row_item r1) then r1\<lparr>row_menu := menu_closed\<rparr> else r1)
      in if menu_mounted isDesktop (row_menu r2) then r2 else r2\<lparr>row_item := (row_item r2)\<lparr>confirming := False\<rparr>\<rparr>)"

definition row_pressed :: "bool \<Rightarrow> row_control \<Rightarrow> row \<Rightarrow> row" where
  "row_pressed isDesktop k r =
     (case k of
        PressTrigger \<Rightarrow> r\<lparr>row_menu := menu_step isDesktop (row_menu r) (TriggerClick None)\<rparr>
      | PressBackdrop \<Rightarrow> r\<lparr>row_menu := menu_step isDesktop (row_menu r) Backdrop\<rparr>
      | PressRename \<Rightarrow> r\<lparr>row_menu := menu_close (row_menu r), row_item := onRename (row_item r)\<rparr>
      | PressDelete \<Rightarrow> r\<lparr>row_item := (row_item r)\<lparr>confirming := True\<rparr>\<rparr>
      | PressCancel \<Rightarrow> r\<lparr>row_item := (row_item r)\<lparr>confirming := False\<rparr>\<rparr>
      | PressConfirm \<Rightarrow> r\<lparr>removals := Suc (removals r)\<rparr>)"

datatype row_event =
    RowPress jstring
  | RowMenu menu_event
  | RowDraft jstring
  | RowSave "exn + unit"
  | RowCancel
  | RemoveAnswer "exn + unit"

definition row_gone :: "row \<Rightarrow> bool" where
  "row_gone r \<longleftrightarrow> find_conv (row_list r) (conv_id (row_conv r)) = None"

text \<open>
  \<open>RowSave\<close> is Enter in the title's input, with the result of \<open>rename\<close>, \<open>RowCancel\<close> is Escape or
  the loss of the focus. Only answers reach a row that is gone.
\<close>

fun row_handle :: "bool \<Rightarrow> bool \<Rightarrow> row \<Rightarrow> row_event \<Rightarrow> row" where
  "row_handle isDesktop isOpen r (RowPress l) =
     (case press l (ConversationItem isDesktop isOpen r) of None \<Rightarrow> r | Some k \<Rightarrow> row_pressed isDesktop k r)"
| "row_handle isDesktop isOpen r (RowMenu e) =
     (if editing (row_item r) then r else r\<lparr>row_menu := menu_step isDesktop (row_menu r) e\<rparr>)"
| "row_handle isDesktop isOpen r (RowDraft v) =
     (if editing (row_item r) then r\<lparr>row_item := (row_item r)\<lparr>draft := v\<rparr>\<rparr> else r)"
| "row_handle isDesktop isOpen r (RowSave x) =
     (if editing (row_item r)
      then (let (ts, it, s) = saveRename (row_conv r) x (row_item r, row_list r)
            in r\<lparr>row_item := it, row_list := s, row_toasts := row_toasts r @ ts\<rparr>)
      else r)"
| "row_handle isDesktop isOpen r RowCancel =
     (if editing (row_item r) then r\<lparr>row_item := cancelEdit (row_conv r) (row_item r)\<rparr> else r)"
| "row_handle isDesktop isOpen r (RemoveAnswer x) =
     (if removals r = 0 then r
      else (let (ts, dest, it, s) = confirmDelete (row_conv r) isOpen x (row_item r, row_list r)
            in r\<lparr>removals := removals r - 1, row_item := it, row_list := s, row_toasts := row_toasts r @ ts,
                 row_route := (case dest of Some d \<Rightarrow> Some d | None \<Rightarrow> row_route r)\<rparr>))"

fun is_answer :: "row_event \<Rightarrow> bool" where
  "is_answer (RemoveAnswer _) \<longleftrightarrow> True"
| "is_answer _ \<longleftrightarrow> False"

definition row_step :: "bool \<Rightarrow> bool \<Rightarrow> row \<Rightarrow> row_event \<Rightarrow> row" where
  "row_step isDesktop isOpen r e =
     (if row_gone r \<and> \<not> is_answer e then r else row_render isDesktop (row_handle isDesktop isOpen r e))"

subsection \<open>Deleting takes two presses\<close>

lemma find_conv_id: "find_conv s i = Some c \<Longrightarrow> conv_id c = i"
  by (auto simp: find_conv_def find_Some_iff)

lemma row_render_simps [simp]:
  "row_list (row_render d r) = row_list r" "removals (row_render d r) = removals r"
  "conv_id (row_conv (row_render d r)) = conv_id (row_conv r)"
  "row_gone (row_render d r) = row_gone r"
  by (auto simp: row_render_def Let_def row_gone_def find_conv_id split: option.split)

lemma row_render_confirming: "confirming (row_item (row_render d r)) \<Longrightarrow> confirming (row_item r)"
  by (auto simp: row_render_def Let_def split: if_splits)

lemma row_step_confirming:
  "confirming (row_item (row_step d isOpen r e)) \<Longrightarrow>
   confirming (row_item (row_handle d isOpen r e)) \<or> confirming (row_item r)"
  using row_render_confirming by (auto simp: row_step_def split: if_splits)

lemma pressed_confirm:
  assumes "press l (ConversationItem d isOpen r) = Some k" and "k = PressConfirm \<or> k = PressDelete"
  shows "l = js ''Delete'' \<and> (k = PressConfirm) = confirming (row_item r) \<and>
     (k = PressConfirm \<longrightarrow> Txt question \<in> set (ConversationItem d isOpen r))"
  using assms by (auto simp: ConversationItem_def Menu_def MenuContent_def split: if_splits)

definition row_asked :: "nat \<Rightarrow> row \<Rightarrow> bool" where
  "row_asked n r \<longleftrightarrow>
     (confirming (row_item r) \<longrightarrow> 1 \<le> n) \<and> (0 < removals r \<longrightarrow> 2 \<le> n) \<and> (row_gone r \<longrightarrow> 2 \<le> n)"

lemma row_asked_handle:
  assumes "row_asked n r"
  shows "row_asked (n + (if e = RowPress (js ''Delete'') then 1 else 0)) (row_handle d isOpen r e)"
proof (cases e)
  case (RowPress l)
  show ?thesis
  proof (cases "press l (ConversationItem d isOpen r)")
    case None
    with assms RowPress show ?thesis by (auto simp: row_asked_def)
  next
    case (Some k)
    then show ?thesis
      using assms RowPress pressed_confirm [OF Some]
      by (cases k) (auto simp: row_asked_def row_pressed_def row_gone_def onRename_def)
  qed
next
  case (RowSave x)
  then show ?thesis
    using assms
    by (auto simp: row_asked_def row_gone_def saveRename_def cancelEdit_def case_prod_beta Let_def find_conv_rename
        split: sum.split)
next
  case (RemoveAnswer x)
  then show ?thesis
    using assms
    by (auto simp: row_asked_def row_gone_def confirmDelete_def case_prod_beta Let_def find_conv_remove split: sum.split)
qed (use assms in \<open>auto simp: row_asked_def row_gone_def cancelEdit_def\<close>)

lemma row_asked_step:
  "row_asked n r \<Longrightarrow> row_asked (n + (if e = RowPress (js ''Delete'') then 1 else 0)) (row_step d isOpen r e)"
  using row_asked_handle [of n r e d isOpen] row_render_confirming [of d "row_handle d isOpen r e"]
  by (auto simp: row_step_def row_asked_def)

abbreviation row_run :: "bool \<Rightarrow> bool \<Rightarrow> row \<Rightarrow> row_event list \<Rightarrow> row" where
  "row_run d isOpen \<equiv> foldl (row_step d isOpen)"

lemma row_asked_run:
  "row_asked n r \<Longrightarrow> row_asked (n + length (filter (\<lambda>e. e = RowPress (js ''Delete'')) es)) (row_run d isOpen r es)"
proof (induction es arbitrary: n r)
  case (Cons e es)
  from Cons.IH [OF row_asked_step [OF Cons.prems, of e d isOpen]] show ?case
    by (cases "e = RowPress (js ''Delete'')") simp_all
qed simp

text \<open>
  C36: A conversation is not removed by a slip: whatever else is pressed, typed and answered, its
  row is only gone after Delete was pressed at least twice; the call starts from a row that asks
  \<open>Delete this conversation?\<close>; and a menu dismissed on the desktop has forgotten the question when
  it is opened again.
\<close>

theorem delete_asks_first:
  assumes "find_conv s (conv_id c) \<noteq> None"
  shows "let r = row_run isDesktop isOpen (row_mounted c s) es in
     (find_conv (row_list r) (conv_id c) = None \<longrightarrow> 2 \<le> length (filter (\<lambda>e. e = RowPress (js ''Delete'')) es)) \<and>
     (removals r < removals (row_step isDesktop isOpen r e) \<longrightarrow>
        e = RowPress (js ''Delete'') \<and> Txt question \<in> set (ConversationItem isDesktop isOpen r)) \<and>
     (isDesktop \<and> menu_open (row_menu r) \<and> \<not> editing (row_item r) \<and> \<not> row_gone r \<longrightarrow>
        Txt question \<notin> set (ConversationItem isDesktop isOpen
          (row_run isDesktop isOpen r [RowMenu Escape, RowPress (js ''Conversation actions'')])))"
proof -
  let ?r = "row_run isDesktop isOpen (row_mounted c s) es"
  have id: "conv_id (row_conv (row_step d o' r e)) = conv_id (row_conv r)" for d o' r e
    by (cases e) (auto simp: row_step_def row_pressed_def case_prod_beta Let_def split: option.split row_control.split)
  have id: "conv_id (row_conv (row_run isDesktop isOpen r es)) = conv_id (row_conv r)" for r
    by (induction es arbitrary: r) (simp_all add: id)
  have "row_asked 0 (row_mounted c s)"
    using assms by (simp add: row_asked_def row_mounted_def item_mounted_def row_gone_def)
  from row_asked_run [OF this] have "row_asked (length (filter (\<lambda>e. e = RowPress (js ''Delete'')) es)) ?r" by simp
  moreover have "row_conv (row_mounted c s) = c" by (simp add: row_mounted_def)
  ultimately have 1: "find_conv (row_list ?r) (conv_id c) = None \<longrightarrow>
      2 \<le> length (filter (\<lambda>e. e = RowPress (js ''Delete'')) es)"
    by (simp add: row_asked_def row_gone_def id)
  have 2: "e = RowPress (js ''Delete'') \<and> Txt question \<in> set (ConversationItem isDesktop isOpen r)"
    if "removals r < removals (row_step isDesktop isOpen r e)" for r
    using that pressed_confirm [of _ isDesktop isOpen r]
    by (cases e) (auto simp: row_step_def row_pressed_def case_prod_beta Let_def split: if_splits option.splits row_control.splits)
  have 3: "Txt question \<notin> set (ConversationItem True isOpen
      (row_run True isOpen r [RowMenu Escape, RowPress (js ''Conversation actions'')]))"
    if "menu_open (row_menu r)" "\<not> editing (row_item r)" "\<not> row_gone r" for r
  proof -
    let ?r1 = "row_step True isOpen r (RowMenu Escape)"
    have r1: "\<not> confirming (row_item ?r1)" "\<not> editing (row_item ?r1)"
      using that by (auto simp: row_step_def row_render_def Let_def menu_dismiss_def menu_close_def menu_mounted_def)
    have "\<not> confirming (row_item (row_handle True isOpen ?r1 (RowPress (js ''Conversation actions''))))"
      using r1 by (cases isOpen) (simp_all add: ConversationItem_def Menu_def row_pressed_def)
    then have "\<not> confirming (row_item (row_step True isOpen ?r1 (RowPress (js ''Conversation actions''))))"
      using r1(1) row_step_confirming by blast
    moreover have "question \<noteq> js ''>''" by (simp add: question_def js_text)
    ultimately show ?thesis by (simp add: ConversationItem_def Menu_def MenuContent_def)
  qed
  show ?thesis
    unfolding Let_def
  proof (intro conjI [OF 1 conjI] impI)
    assume "isDesktop \<and> menu_open (row_menu ?r) \<and> \<not> editing (row_item ?r) \<and> \<not> row_gone ?r"
    then have D: "isDesktop = True" and now: "menu_open (row_menu ?r)" "\<not> editing (row_item ?r)" "\<not> row_gone ?r"
      by blast+
    from 3 [OF now] show "Txt question \<notin> set (ConversationItem isDesktop isOpen
        (row_run isDesktop isOpen ?r [RowMenu Escape, RowPress (js ''Conversation actions'')]))"
      unfolding D .
  qed (rule 2)+
qed

definition demo_conv :: Conversation where
  "demo_conv = \<lparr>conv_id = 1, title = js ''old'', conv_created_at = [], updated_at = []\<rparr>"

definition deleting :: "row_event list" where
  "deleting = [RowPress (js ''Conversation actions''), RowPress (js ''Delete''), RowPress (js ''Delete'')]"

lemma deleting:
  "removals (row_run True False (row_mounted demo_conv (mounted\<lparr>conversations := [demo_conv]\<rparr>)) deleting) = 1"
  "row_gone (row_run True False (row_mounted demo_conv (mounted\<lparr>conversations := [demo_conv]\<rparr>))
     (deleting @ [RemoveAnswer (Inr ())]))"
  by code_simp+

theorem delete_asks_first_witness:
  "row_gone (row_run True False (row_mounted demo_conv (mounted\<lparr>conversations := [demo_conv]\<rparr>))
     (deleting @ [RemoveAnswer (Inr ())])) \<and>
   2 \<le> length (filter (\<lambda>e. e = RowPress (js ''Delete'')) (deleting @ [RemoveAnswer (Inr ())]))"
proof -
  let ?s = "mounted\<lparr>conversations := [demo_conv]\<rparr>"
  let ?r = "row_run True False (row_mounted demo_conv ?s) (deleting @ [RemoveAnswer (Inr ())])"
  have "find_conv (row_list ?r) (conv_id demo_conv) = None" by code_simp
  then show ?thesis
    using delete_asks_first [of ?s demo_conv True False "deleting @ [RemoveAnswer (Inr ())]" RowCancel] deleting(2)
    by (simp add: Let_def find_conv_def)
qed

text \<open>
  The Delete button of the question is not disabled while its call is under way: pressed twice, the
  second call fails because the conversation is gone, and the user is told that it could not be
  deleted.
\<close>

theorem double_press_reports_failure:
  "let r = row_run True False (row_mounted demo_conv (mounted\<lparr>conversations := [demo_conv]\<rparr>))
     (deleting @ [RowPress (js ''Delete''), RemoveAnswer (Inr ()), RemoveAnswer (Inl (ApiError 404 (js ''conversation not found'')))])
   in row_gone r \<and> row_toasts r = [js ''Could not delete conversation'']"
  by code_simp

section \<open>The actions under a reply\<close>

datatype action_control = CopyPress | VotePress int | CloseNote | SendNote

definition MessageActions :: "actions \<Rightarrow> action_control widget list" where
  "MessageActions a =
     [Btn (if copied a then js ''Copied'' else js ''Copy response'') True CopyPress,
      Tgl (js ''Good response'') (rating a = Some 1) (VotePress 1),
      Tgl (js ''Bad response'') (rating a = Some (- 1)) (VotePress (- 1))] @
     Dialog (noteOpen a) CloseNote
       [Txt (js ''Add a note''),
        Fld (if rating a = Some (- 1) then js ''What went wrong?'' else js ''What worked well?'') (note_text a) True,
        Txt (js ''Your note helps improve responses.''),
        Btn (js ''Skip'') True CloseNote,
        Btn (js ''Send'') True SendNote]"

text \<open>
  A press on a control of the row, with the answer to the call it makes; only the thumbs are
  followed, together with the rating that the server holds.
\<close>

definition thumb_press :: "actions \<times> int option \<Rightarrow> jstring \<times> (exn + unit) \<Rightarrow> actions \<times> int option" where
  "thumb_press as lr =
     (case press (fst lr) (MessageActions (fst as)) of Some (VotePress v) \<Rightarrow> vote_now (v, snd lr) as | _ \<Rightarrow> as)"

interpretation thumbs: machine_invariant thumb_press "votes_agree i" for i
  by unfold_locales (auto simp: thumb_press_def votes_agree_step split: option.split action_control.split)


section \<open>Settings and account deletion\<close>

datatype settings_control = SettingsTrigger | SettingsShade | SettingsRow settings_row

definition SettingsMenu :: "bool \<Rightarrow> auth \<Rightarrow> settings \<Rightarrow> settings_control widget list" where
  "SettingsMenu isDesktop a s =
     Menu isDesktop (js ''Settings'') (settings_menu s) SettingsTrigger SettingsShade
       [Txt (js ''Settings''), Txt (js ''Account''), Txt (case user_email a of Some m \<Rightarrow> m | None \<Rightarrow> []),
        Btn (js ''Log out'') True (SettingsRow LogOut), Txt (js ''Data''),
        Btn (js ''Export data'') True (SettingsRow ExportData),
        Btn (js ''Delete account'') True (SettingsRow DeleteAccount)]"

datatype delete_control = CloseDelete | ConfirmDelete

definition DeleteAccountDialog ::
  "(jstring \<Rightarrow> jstring) \<Rightarrow> auth \<Rightarrow> bool \<Rightarrow> delete_dialog \<Rightarrow> delete_control widget list" where
  "DeleteAccountDialog toLower a is_opened d =
     Dialog is_opened CloseDelete
       [Txt (js ''Delete account''),
        Txt (js ''This permanently deletes your account and all conversations. This cannot be undone. Type your email to confirm.''),
        Fld (js ''Confirm email'') (confirm d) True,
        Btn (js ''Cancel'') True CloseDelete,
        Btn (js ''Delete account'') (matches toLower a d \<and> \<not> delete_busy d) ConfirmDelete]"

text \<open>The guard of \<open>delete_click\<close> is that of the button.\<close>

lemma delete_click_pressed:
  "delete_click toLower E (d, a) =
     (case press (js ''Delete account'') (DeleteAccountDialog toLower a True d) of
        Some ConfirmDelete \<Rightarrow> onDelete E (d, a)
      | _ \<Rightarrow> ([], None, d, a))"
  by (simp add: delete_click_def DeleteAccountDialog_def Dialog_def js_text)

section \<open>Composer, home page, toasts\<close>

datatype composer_control = PressSend | PressStop

definition Composer :: "bool \<Rightarrow> composer \<Rightarrow> composer_control widget list" where
  "Composer is_sending c =
     [Fld (js ''Send a message'' @ [0x2026]) (draft_text c) (\<not> is_sending),
      if is_sending then Btn (js ''Stop'') True PressStop else Btn (js ''Send'') True PressSend]"

definition Home :: "home \<Rightarrow> composer \<Rightarrow> composer_control widget list" where
  "Home h c = Txt (js ''Type a message below'') # Composer (home_sending h) c"

text \<open>The clicks of the composer's machine are those of the button shown.\<close>

lemma composer_pressed:
  "press (js ''Send'') (Composer busy c) = (if busy then None else Some PressSend)"
  "press (js ''Stop'') (Composer busy c) = (if busy then Some PressStop else None)"
  by (simp_all add: Composer_def js_text)

definition Toaster :: "toaster \<Rightarrow> int widget list" where
  "Toaster s = concat (map (\<lambda>t. [Txt (message t), Btn (js ''Dismiss'') True (toast_id t)]) (toasts s))"

section \<open>Sidebar and shell\<close>

datatype shell_control =
    NewConversation
  | OnRow int row_control
  | OnSettings settings_control
  | OnDelete delete_control
  | ToggleSidebar
  | ToggleDrawer
  | CloseDrawer

text \<open>What the shell keeps besides its providers.\<close>

record shell_ui =
  desktop :: bool
  at_conv :: "int option"
  row_states :: "int \<Rightarrow> row"
  settings_now :: settings
  delete_now :: delete_dialog
  collapsed :: bool
  drawer_now :: drawer

definition UsageMeter :: "Usage option \<Rightarrow> 'e widget list" where
  "UsageMeter u = (case usage_meter u of None \<Rightarrow> [] | Some m \<Rightarrow> [Txt (int_str (shown_pct m) @ js ''%'')])"

definition Sidebar ::
  "(jstring \<Rightarrow> jstring) \<Rightarrow> auth \<Rightarrow> shell_ui \<Rightarrow> sidebar \<Rightarrow> Usage option \<Rightarrow> shell_control widget list" where
  "Sidebar toLower a u s used_now =
     Btn (js ''New conversation'') True NewConversation #
     (case list_error s of Some e \<Rightarrow> if e = [] then [] else [Txt e] | None \<Rightarrow> []) @
     (if \<not> list_loading s \<and> (case list_error s of Some e \<Rightarrow> e = [] | None \<Rightarrow> True)
      then concat (map (\<lambda>c. map (map_widget (OnRow (conv_id c)))
             (ConversationItem (desktop u) (at_conv u = Some (conv_id c)) ((row_states u (conv_id c))\<lparr>row_conv := c\<rparr>)))
             (conversations s))
      else []) @
     map (map_widget OnSettings) (SettingsMenu (desktop u) a (settings_now u)) @
     map (map_widget OnDelete) (DeleteAccountDialog toLower a (delete_open (settings_now u)) (delete_now u)) @
     UsageMeter used_now"

text \<open>\<open>AppLayout\<close>, with what it renders inside \<open>main\<close> as an argument.\<close>

definition AppLayout ::
  "(jstring \<Rightarrow> jstring) \<Rightarrow> shell_ui \<Rightarrow> shell_control widget list \<Rightarrow> shell \<Rightarrow> shell_control widget list" where
  "AppLayout toLower u inside s =
     (if app_layout (session_auth s) \<noteq> Shell then []
      else case providers s of
             None \<Rightarrow> []
           | Some (side, used_now, st) \<Rightarrow>
               Tgl (js ''Toggle sidebar'') (\<not> collapsed u) ToggleSidebar #
               (if drawer_open (drawer_now u) then [Shade CloseDrawer] else []) @
               Sidebar toLower (session_auth s) u side used_now @
               Tgl (js ''Toggle menu'') (drawer_open (drawer_now u)) ToggleDrawer # inside)"

section \<open>The maintenance page\<close>

definition MaintenancePage :: "unit widget list" where
  "MaintenancePage =
     [Txt (js ''Down for maintenance.''), Txt (js ''By continuing you agree to the''),
      Lnk (js ''Terms'') (js ''/terms''), Txt (js ''&''), Lnk (js ''Privacy Policy'') (js ''/privacy''),
      Txt (js ''Made by''), Lnk (js ''Adam Lucek'') (js ''https://lucek.ai'')]"

text \<open>Its own links lead to pages that are served during maintenance, and so does its own address.\<close>

theorem maintenance_links_work:
  assumes "Lnk l h \<in> set MaintenancePage" and "starts_with (js ''/'') h"
  shows "\<exists>req resp. proxy E nonce h hs = Next req resp"
proof -
  have "h = js ''/terms'' \<or> h = js ''/privacy''"
    using assms by (auto simp: MaintenancePage_def js_text starts_with_iff)
  then show ?thesis by (auto simp: proxy_def MAINTENANCE_EXEMPT_def Let_def)
qed

section \<open>What the sidebar shows\<close>

definition links_of :: "'e widget list \<Rightarrow> (jstring \<times> jstring) list" where
  "links_of ws = List.map_filter (\<lambda>w. case w of Lnk l h \<Rightarrow> Some (l, h) | _ \<Rightarrow> None) ws"

lemma links_of_simps [simp]:
  "links_of [] = []"
  "links_of (w # ws) = (case w of Lnk l h \<Rightarrow> (l, h) # links_of ws | _ \<Rightarrow> links_of ws)"
  "links_of (us @ ws) = links_of us @ links_of ws"
  by (simp_all add: links_of_def List.map_filter_simps List.map_filter_def split: widget.split)

lemma links_of_concat: "links_of (concat wss) = concat (map links_of wss)"
  by (induction wss) simp_all

lemma links_of_map: "links_of (map (map_widget f) ws) = links_of ws"
  by (induction ws) (simp_all split: widget.split)

lemma links_ConversationItem:
  "links_of (ConversationItem d isOpen r) =
     (if editing (row_item r) then [] else [(row_label (row_conv r), js ''/c/'' @ int_str (conv_id (row_conv r)))])"
  by (simp add: ConversationItem_def Menu_def MenuContent_def)

text \<open>
  The links of the sidebar are the listed conversations in order, except those whose title is
  being edited; none while the list loads or after it failed to.
\<close>

theorem sidebar_links:
  "links_of (Sidebar toLower a u s used_now) =
     (if list_loading s \<or> (case list_error s of Some e \<Rightarrow> e \<noteq> [] | None \<Rightarrow> False) then []
      else map (\<lambda>c. (row_label c, js ''/c/'' @ int_str (conv_id c)))
             (filter (\<lambda>c. \<not> editing (row_item (row_states u (conv_id c)))) (conversations s)))"
proof -
  have "concat (map (\<lambda>c. if P c then [] else [f c]) cs) = map f (filter (\<lambda>c. \<not> P c) cs)"
    for P and f :: "Conversation \<Rightarrow> jstring \<times> jstring" and cs
    by (induction cs) simp_all
  then show ?thesis
    by (auto simp: Sidebar_def SettingsMenu_def Menu_def DeleteAccountDialog_def Dialog_def UsageMeter_def
        links_of_concat links_of_map links_ConversationItem comp_def split: option.split)
qed

end
