(* ===== verification/Routes.thy ===== *)
theory Routes
  imports Screens
begin

text \<open>
  The site as a whole: its routes (the directories of \<open>web/src/app\<close>), the session of
  \<open>AuthProvider\<close> which every page shares, and the redirects of the shell, the sign-in page and the
  page of a magic link. The lemmas show that the redirects settle, where a page load ends, and that
  nothing of one session reaches the next.
\<close>

section \<open>Routes\<close>

datatype route = HomeR | ChatR int | LoginR | MagicR "jstring option" | TermsR | PrivacyR | MaintenanceR

definition pathname :: "route \<Rightarrow> jstring" where
  "pathname r =
     (case r of
        HomeR \<Rightarrow> js ''/''
      | ChatR i \<Rightarrow> js ''/c/'' @ int_str i
      | LoginR \<Rightarrow> js ''/login''
      | MagicR t \<Rightarrow> js ''/auth/magic''
      | TermsR \<Rightarrow> js ''/terms''
      | PrivacyR \<Rightarrow> js ''/privacy''
      | MaintenanceR \<Rightarrow> js ''/maintenance'')"

text \<open>The routes of \<open>app/(app)\<close>, which \<open>AppLayout\<close> wraps.\<close>

definition in_app :: "route \<Rightarrow> bool" where
  "in_app r \<longleftrightarrow> (case r of HomeR \<Rightarrow> True | ChatR i \<Rightarrow> True | _ \<Rightarrow> False)"

section \<open>The site\<close>

text \<open>
  The session with the providers of the shell, whether the boot of this page load has ended, the
  route, the state of \<open>Verify\<close> while its page is shown and of the drawer while \<open>AppLayout\<close> is.
\<close>

record site =
  site_shell :: shell
  booted :: bool
  here :: route
  verify_now :: verify_page
  site_drawer :: drawer

abbreviation site_auth :: "site \<Rightarrow> auth" where
  "site_auth s \<equiv> session_auth (site_shell s)"

definition set_auth :: "auth \<Rightarrow> site \<Rightarrow> site" where
  "set_auth a s = s\<lparr>site_shell := (site_shell s)\<lparr>session_auth := a\<rparr>\<rparr>"

text \<open>A navigation inside the page: what the old route mounted goes, what the new one mounts starts.\<close>

definition go :: "route \<Rightarrow> site \<Rightarrow> site" where
  "go r s =
     s\<lparr>here := r,
       verify_now := (case r of MagicR t \<Rightarrow> verify_mounted t | _ \<Rightarrow> verify_now s),
       site_drawer := (if in_app r \<and> in_app (here s) then drawer_render (pathname r) (site_drawer s)
                       else drawer_mounted (pathname r))\<rparr>"

text \<open>\<open>router.replace(path)\<close> for the fixed paths of the redirects.\<close>

definition replace_path :: "jstring \<Rightarrow> site \<Rightarrow> site" where
  "replace_path p s =
     (if p = pathname HomeR then go HomeR s else if p = pathname LoginR then go LoginR s else s)"

text \<open>A page load: new modules and a new \<open>AuthProvider\<close>; the browser's cookies stay with the network.\<close>

definition fresh_client :: "client \<Rightarrow> client" where
  "fresh_client c = \<lparr>accessToken = Json JNull, onUnauthorized = False, notified = 0, wire = wire c\<rparr>"

definition site_load :: "route \<Rightarrow> client \<Rightarrow> nat \<Rightarrow> site" where
  "site_load r c n =
     \<lparr>site_shell = \<lparr>session_auth = auth_start (fresh_client c), providers = None, mounts = n\<rparr>, booted = False,
      here = r, verify_now = verify_mounted (case r of MagicR t \<Rightarrow> t | _ \<Rightarrow> None),
      site_drawer = drawer_mounted (pathname r)\<rparr>"

text \<open>Rendering: \<open>AppLayout\<close> mounts and unmounts its providers; elsewhere they are not mounted.\<close>

definition site_render :: "site \<Rightarrow> site" where
  "site_render s =
     (if in_app (here s) then s\<lparr>site_shell := app_render (site_shell s)\<rparr>
      else s\<lparr>site_shell := (site_shell s)\<lparr>providers := None\<rparr>\<rparr>)"

text \<open>The effects of the page that is shown.\<close>

definition site_effects :: "env \<Rightarrow> site \<Rightarrow> site" where
  "site_effects E s =
     (if in_app (here s)
      then (case app_layout (site_auth s) of RedirectTo p \<Rightarrow> replace_path p s | _ \<Rightarrow> s)
      else case here s of
             LoginR \<Rightarrow> (case login_redirect (site_auth s) of Some p \<Rightarrow> replace_path p s | None \<Rightarrow> s)
           | MagicR t \<Rightarrow>
               (let (p, a) = verify_effect E (verify_now s, site_auth s);
                    s1 = (set_auth a s)\<lparr>verify_now := p\<rparr>
                in case (left_to (verify_now s), left_to p) of (None, Some d) \<Rightarrow> replace_path d s1 | _ \<Rightarrow> s1)
           | _ \<Rightarrow> s)"

definition site_settle :: "env \<Rightarrow> site \<Rightarrow> site" where
  "site_settle E s = site_render (site_effects E (site_render s))"

text \<open>
  What happens: a page load, the end of its boot, a link, a call of the session made by the page
  that is shown, a continuation of the providers, the drawer's handle and backdrop.
\<close>

datatype site_event =
    PageLoad route
  | BootEnds
  | Follow route
  | Act auth_op
  | Provided nat provider_op
  | DrawerToggle
  | DrawerClose

fun page_calls :: "site \<Rightarrow> auth_op \<Rightarrow> bool" where
  "page_calls s (Google code) \<longleftrightarrow> here s = LoginR"
| "page_calls s (RequestLink addr) \<longleftrightarrow> here s = LoginR"
| "page_calls s Logout \<longleftrightarrow> providers (site_shell s) \<noteq> None"
| "page_calls s (ApiCall path ini) \<longleftrightarrow> providers (site_shell s) \<noteq> None"
| "page_calls s _ \<longleftrightarrow> False"

fun site_handle :: "env \<Rightarrow> site \<Rightarrow> site_event \<Rightarrow> site" where
  "site_handle E s (PageLoad r) = site_load r (api (site_auth s)) (mounts (site_shell s))"
| "site_handle E s BootEnds = (if booted s then s else (set_auth (boot E True (site_auth s)) s)\<lparr>booted := True\<rparr>)"
| "site_handle E s (Follow r) = (case r of MagicR t \<Rightarrow> s | _ \<Rightarrow> go r s)"
| "site_handle E s (Act e) = (if page_calls s e then set_auth (auth_step E (site_auth s) e) s else s)"
| "site_handle E s (Provided k e) = s\<lparr>site_shell := shell_step E (site_shell s) (InProviders k e)\<rparr>"
| "site_handle E s DrawerToggle =
     (if providers (site_shell s) = None then s else s\<lparr>site_drawer := drawer_toggle (site_drawer s)\<rparr>)"
| "site_handle E s DrawerClose =
     (if providers (site_shell s) = None then s else s\<lparr>site_drawer := drawer_close (site_drawer s)\<rparr>)"

definition site_step :: "env \<Rightarrow> site \<Rightarrow> site_event \<Rightarrow> site" where
  "site_step E s e = site_settle E (site_handle E s e)"

section \<open>Redirects settle\<close>

lemma go_simps [simp]:
  "site_shell (go r s) = site_shell s" "booted (go r s) = booted s" "here (go r s) = r"
  by (simp_all add: go_def)

lemma replace_path_simps [simp]:
  "replace_path (js ''/'') s = go HomeR s" "replace_path (js ''/login'') s = go LoginR s"
  by (simp_all add: replace_path_def pathname_def js_text)

text \<open>Where a page can rest.\<close>

definition at_rest :: "site \<Rightarrow> bool" where
  "at_rest s \<longleftrightarrow>
     (providers (site_shell s) = None \<longleftrightarrow> \<not> (in_app (here s) \<and> auth_status (site_auth s) = Authed)) \<and>
     (in_app (here s) \<longrightarrow> auth_status (site_auth s) \<noteq> Anon) \<and>
     (here s = LoginR \<longrightarrow> auth_status (site_auth s) \<noteq> Authed) \<and>
     (\<forall>t. here s = MagicR t \<longrightarrow> started (verify_now s) \<or> no_token (verify_token (verify_now s)))"

lemma in_app_simps [simp]: "in_app HomeR" "\<not> in_app LoginR" "\<not> in_app (MagicR t)"
  by (simp_all add: in_app_def)

lemma site_render_simps [simp]:
  "site_auth (site_render s) = site_auth s" "here (site_render s) = here s" "booted (site_render s) = booted s"
  "verify_now (site_render s) = verify_now s" "site_drawer (site_render s) = site_drawer s"
  by (simp_all add: site_render_def app_render_def split: option.split)

lemma set_auth_simps [simp]:
  "site_auth (set_auth a s) = a" "here (set_auth a s) = here s" "booted (set_auth a s) = booted s"
  "verify_now (set_auth a s) = verify_now s" "providers (site_shell (set_auth a s)) = providers (site_shell s)"
  "site_drawer (set_auth a s) = site_drawer s"
  by (simp_all add: set_auth_def)

lemma site_render_providers:
  "providers (site_shell (site_render s)) = None \<longleftrightarrow> \<not> (in_app (here s) \<and> auth_status (site_auth s) = Authed)"
  by (auto simp: site_render_def app_render_def app_layout_Shell providers_mounted_def split: option.split)

lemma magic_effect:
  assumes "verify_effect E (p, a) = (p', a')"
  shows "verify_token p' = verify_token p \<and>
    (if started p \<or> no_token (verify_token p) then p' = p \<and> a' = a
     else started p' \<and> (auth_status a' = Authed \<and> left_to p' = Some (js ''/'') \<or> verify_error p' \<and> left_to p' = left_to p))"
proof -
  have *: "auth_status (snd (auth_magic E t a)) = Authed" if "fst (auth_magic E t a) = Inr u" for t u
    using that by (auto simp: auth_magic_def finish_login_def case_prod_beta Let_def split: sum.splits)
  show ?thesis
    using assms *
    by (auto simp: verify_effect_def Let_def no_token_def case_prod_beta split: option.splits sum.splits if_splits)
qed

lemma effects_rest:
  assumes "s' = site_effects E s"
  shows "(in_app (here s') \<longrightarrow> auth_status (site_auth s') \<noteq> Anon) \<and>
     (here s' = LoginR \<longrightarrow> auth_status (site_auth s') \<noteq> Authed) \<and>
     (\<forall>t. here s' = MagicR t \<longrightarrow> started (verify_now s') \<or> no_token (verify_token (verify_now s')))"
proof (cases "here s")
  case (MagicR t)
  obtain p a where v: "verify_effect E (verify_now s, site_auth s) = (p, a)" by fastforce
  from magic_effect [OF v] show ?thesis
    unfolding assms by (auto simp: site_effects_def MagicR v Let_def split: option.split if_splits)
qed (auto simp: assms site_effects_def in_app_def app_layout_def login_redirect_def split: auth_status.split)

lemma site_settle_rest: "at_rest (site_settle E s)"
  using effects_rest [OF refl, of E "site_render s"]
  unfolding at_rest_def site_settle_def site_render_providers by simp

lemma site_settle_fix: "at_rest s \<Longrightarrow> site_settle E s = s"
proof -
  assume r: "at_rest s"
  have [simp]: "s\<lparr>site_shell := site_shell s\<rparr> = s" "s\<lparr>verify_now := verify_now s\<rparr> = s" by simp_all
  have none: "s\<lparr>site_shell := site_shell s\<lparr>providers := None\<rparr>\<rparr> = s" if "providers (site_shell s) = None"
    using that by (cases s; cases "site_shell s") simp
  have 1: "site_render s = s"
    using r none by (auto simp: at_rest_def site_render_def app_render_def app_layout_Shell split: option.split)
  have 2: "set_auth (site_auth s) s = s" by (simp add: set_auth_def)
  have "site_effects E s = s"
  proof (cases "here s")
    case (MagicR t)
    obtain p a where v: "verify_effect E (verify_now s, site_auth s) = (p, a)" by fastforce
    with magic_effect [OF v] r MagicR 2 show ?thesis
      by (auto simp: at_rest_def site_effects_def v Let_def split: option.split)
  qed (use r in \<open>auto simp: at_rest_def site_effects_def in_app_def app_layout_def login_redirect_def split: auth_status.split\<close>)
  with 1 show ?thesis by (simp add: site_settle_def)
qed

text \<open>
  The page of a magic link has its token, and shows the error once the token was used in vain or
  when there is none; after the boot the session is known.
\<close>

definition verify_ok :: "site \<Rightarrow> bool" where
  "verify_ok s \<longleftrightarrow>
     (\<forall>t. here s = MagicR t \<longrightarrow> verify_token (verify_now s) = t \<and> left_to (verify_now s) = None \<and>
        (started (verify_now s) \<or> no_token t \<longrightarrow> verify_error (verify_now s)))"

definition session_known :: "site \<Rightarrow> bool" where
  "session_known s \<longleftrightarrow> (booted s \<longrightarrow> auth_status (site_auth s) \<noteq> Checking)"

definition site_ok :: "site \<Rightarrow> bool" where
  "site_ok s \<longleftrightarrow> at_rest s \<and> verify_ok s \<and> session_known s"

lemma verify_ok_settle: "verify_ok s \<Longrightarrow> verify_ok (site_settle E s)"
proof (cases "here s")
  case (MagicR t)
  assume ok: "verify_ok s"
  obtain p a where v: "verify_effect E (verify_now s, site_auth s) = (p, a)" by fastforce
  from magic_effect [OF v] ok MagicR show ?thesis
    by (auto simp: verify_ok_def site_settle_def site_effects_def v Let_def split: option.splits if_splits)
qed (auto simp: verify_ok_def site_settle_def site_effects_def in_app_def app_layout_def login_redirect_def
  split: auth_status.split)

lemma magic_status: "auth_status a \<noteq> Checking \<Longrightarrow> auth_status (snd (auth_magic E t a)) \<noteq> Checking"
  by (auto simp: auth_magic_def finish_login_def case_prod_beta Let_def split: sum.splits)

lemma auth_step_status: "auth_status a \<noteq> Checking \<Longrightarrow> auth_status (auth_step E a e) \<noteq> Checking"
  by (cases e) (auto simp: boot_def auth_google_def auth_magic_def finish_login_def auth_request_link_def auth_logout_def
      auth_fetch_def case_prod_beta Let_def split: sum.splits)

lemma boot_status: "auth_status (boot E True a) \<noteq> Checking"
  by (auto simp: boot_def case_prod_beta Let_def split: sum.splits)

lemma session_known_settle: "session_known s \<Longrightarrow> session_known (site_settle E s)"
proof (cases "here s")
  case (MagicR t)
  assume ok: "session_known s"
  have "auth_status (snd (verify_effect E (verify_now s, site_auth s))) \<noteq> Checking" if "auth_status (site_auth s) \<noteq> Checking"
    using that magic_status [OF that]
    by (auto simp: verify_effect_def case_prod_beta Let_def split: option.split sum.split)
  with ok MagicR show ?thesis
    by (auto simp: session_known_def site_settle_def site_effects_def case_prod_beta Let_def replace_path_def split: option.split)
qed (auto simp: session_known_def site_settle_def site_effects_def in_app_def app_layout_def login_redirect_def
  split: auth_status.split)

lemma site_ok_settle: "verify_ok s \<Longrightarrow> session_known s \<Longrightarrow> site_ok (site_settle E s)"
  by (simp add: site_ok_def site_settle_rest verify_ok_settle session_known_settle)

lemma site_load_ok: "verify_ok (site_load r c n) \<and> session_known (site_load r c n)"
  by (simp add: verify_ok_def session_known_def site_load_def verify_mounted_def)

lemma site_handle_ok:
  assumes "verify_ok s" and "session_known s"
  shows "verify_ok (site_handle E s e) \<and> session_known (site_handle E s e)"
proof (cases e)
  case (PageLoad r)
  then show ?thesis by (simp add: site_load_ok)
next
  case (Act op)
  with assms show ?thesis by (auto simp: verify_ok_def session_known_def auth_step_status)
qed (use assms in \<open>auto simp: verify_ok_def session_known_def boot_status split: route.split\<close>)

lemma site_ok_step: "site_ok s \<Longrightarrow> site_ok (site_step E s e)"
  unfolding site_step_def using site_handle_ok [of s E e] by (intro site_ok_settle) (auto simp: site_ok_def)

interpretation sites: machine_invariant "site_step E" site_ok for E
  by unfold_locales (rule site_ok_step)

text \<open>
  C31: Whatever is loaded, followed and answered, the redirects have settled after every event: they
  never send the user round in circles. The shell and its data are there exactly on its own routes
  with a session; a visitor without one is never left on them, nor a user on the sign-in page; after
  the boot nobody waits for the session; and a magic link that is still shown shows its error.
\<close>

theorem redirects_settle:
  "let s = foldl (site_step E) (site_settle E (site_load r c n)) es in
     site_settle E s = s \<and>
     (providers (site_shell s) = None) = (\<not> (in_app (here s) \<and> auth_status (site_auth s) = Authed)) \<and>
     (auth_status (site_auth s) = Anon \<longrightarrow> \<not> in_app (here s)) \<and>
     (auth_status (site_auth s) = Authed \<longrightarrow> here s \<noteq> LoginR) \<and>
     (booted s \<longrightarrow> auth_status (site_auth s) \<noteq> Checking) \<and>
     (here s = MagicR t \<longrightarrow> Lnk (js ''Back to sign in'') (js ''/login'') \<in> set (verify_screen (verify_now s)))"
proof -
  let ?s = "foldl (site_step E) (site_settle E (site_load r c n)) es"
  have ok: "site_ok ?s" using site_load_ok [of r c n] by (intro sites.inv_run site_ok_settle) auto
  then have "site_settle E ?s = ?s" by (intro site_settle_fix) (simp add: site_ok_def)
  with ok show ?thesis
    by (auto simp: Let_def site_ok_def at_rest_def session_known_def verify_ok_def verify_screen_def)
qed

text \<open>A session that comes back and is ended by hand, on the answers of \<open>demo_net\<close>.\<close>

definition demo_site :: "site_event list \<Rightarrow> site" where
  "demo_site es = foldl (site_step demo_net) (site_settle demo_net (site_load (ChatR 7) signed_in 0)) es"

lemma demo_site:
  "(let s = demo_site [BootEnds] in (here s, auth_status (site_auth s), booted s)) = (ChatR 7, Authed, True)"
  "(let s = demo_site [BootEnds, Act Logout] in (here s, auth_status (site_auth s), booted s)) = (LoginR, Anon, True)"
  by code_simp+

theorem redirects_settle_witness:
  "providers (site_shell (demo_site [BootEnds])) \<noteq> None \<and> providers (site_shell (demo_site [BootEnds, Act Logout])) = None \<and>
   site_step demo_net (demo_site [BootEnds, Act Logout]) BootEnds = demo_site [BootEnds, Act Logout]"
proof -
  let ?s = "demo_site [BootEnds]" and ?t = "demo_site [BootEnds, Act Logout]"
  have h: "here ?s = ChatR 7" "auth_status (site_auth ?s) = Authed" "here ?t = LoginR" "booted ?t"
    using demo_site by (simp_all only: Let_def prod.inject)
  have in_chat: "in_app (ChatR 7)" by (simp add: in_app_def)
  have fold: "demo_site es = foldl (site_step demo_net) (site_settle demo_net (site_load (ChatR 7) signed_in 0)) es" for es
    by (simp add: demo_site_def)
  have s: "(providers (site_shell ?s) = None) = (\<not> (in_app (here ?s) \<and> auth_status (site_auth ?s) = Authed))"
    using redirects_settle [of demo_net "ChatR 7" signed_in 0 "[BootEnds]"] unfolding fold Let_def by blast
  have t: "(providers (site_shell ?t) = None) = (\<not> (in_app (here ?t) \<and> auth_status (site_auth ?t) = Authed)) \<and>
      site_settle demo_net ?t = ?t"
    using redirects_settle [of demo_net "ChatR 7" signed_in 0 "[BootEnds, Act Logout]"] unfolding fold Let_def by blast
  show ?thesis using s t h in_chat by (simp add: site_step_def)
qed

section \<open>Where a page load ends\<close>

lemma settle_waiting:
  assumes "in_app r \<or> r = LoginR"
  shows "let s = site_settle E (site_load r c n) in
    site_auth s = auth_start (fresh_client c) \<and> here s = r \<and> \<not> booted s \<and> providers (site_shell s) = None"
  using assms
  by (auto simp: site_settle_def site_effects_def site_load_def app_layout_def login_redirect_def auth_start_def
      site_render_def app_render_def split: option.split)

lemma settle_signed:
  assumes "in_app (here s) \<or> here s = LoginR" and "providers (site_shell s) = None"
  shows "auth_status (site_auth s) = Authed \<Longrightarrow>
      here (site_settle E s) = (if here s = LoginR then HomeR else here s) \<and>
      providers (site_shell (site_settle E s)) = Some providers_mounted"
    and "auth_status (site_auth s) = Anon \<Longrightarrow>
      here (site_settle E s) = LoginR \<and> providers (site_shell (site_settle E s)) = None"
  using assms
  by (auto simp: site_settle_def site_effects_def app_layout_def login_redirect_def site_render_def app_render_def)

text \<open>
  C32: A page load ends: whatever the requests of the boot give, a page of the shell stays where it
  is with fresh providers, and the sign-in page makes way for it, exactly if the refresh gave a
  token and \<open>/api/me\<close> answered; otherwise the visitor is on the sign-in page and nothing of the
  shell is mounted.
\<close>

theorem boot_lands:
  assumes "in_app r \<or> r = LoginR"
  shows "let s = site_step E (site_settle E (site_load r c n)) BootEnds in
     (if (case doRefresh E (setOnUnauthorized True (fresh_client c)) of
            (Inr token, c1) \<Rightarrow> truthy token \<and> (\<exists>u. fst (me E c1) = Inr u)
          | _ \<Rightarrow> False)
      then here s = (if r = LoginR then HomeR else r) \<and> providers (site_shell s) = Some providers_mounted
      else here s = LoginR \<and> providers (site_shell s) = None)"
proof -
  let ?s = "site_settle E (site_load r c n)" and ?b = "boot E True (auth_start (fresh_client c))"
  let ?known = "case doRefresh E (setOnUnauthorized True (fresh_client c)) of
      (Inr token, c1) \<Rightarrow> truthy token \<and> (\<exists>u. fst (me E c1) = Inr u) | _ \<Rightarrow> False"
  have s: "site_auth ?s = auth_start (fresh_client c)" "here ?s = r" "\<not> booted ?s" "providers (site_shell ?s) = None"
    using settle_waiting [OF assms, of E c n] by (simp_all add: Let_def)
  have status: "auth_status ?b = (if ?known then Authed else Anon)"
    using boot_settles [of E "fresh_client c"] by (auto split: prod.splits sum.splits if_splits)
  let ?t = "(set_auth ?b ?s)\<lparr>booted := True\<rparr>"
  have t: "site_auth ?t = ?b" "here ?t = r" "providers (site_shell ?t) = None" using s by simp_all
  show ?thesis
  proof (cases ?known)
    case True
    with t assms settle_signed(1) [of ?t E] status s show ?thesis unfolding Let_def site_step_def by simp
  next
    case False
    with t assms settle_signed(2) [of ?t E] status s show ?thesis unfolding Let_def site_step_def by simp
  qed
qed

theorem boot_lands_witness:
  "here (site_step demo_net (site_settle demo_net (site_load LoginR signed_in 0)) BootEnds) = HomeR"
proof -
  have "case doRefresh demo_net (setOnUnauthorized True (fresh_client signed_in)) of
      (Inr token, c1) \<Rightarrow> truthy token \<and> fst (me demo_net c1) = Inr (JObj []) | _ \<Rightarrow> False"
    by code_simp
  then show ?thesis
    using boot_lands [of LoginR demo_net signed_in 0] by (auto simp: Let_def split: prod.splits sum.splits if_splits)
qed

section \<open>One session at a time\<close>

text \<open>The operations of the providers mounted as number \<open>k\<close>, among the events of the site.\<close>

definition site_ops :: "nat \<Rightarrow> site_event list \<Rightarrow> provider_op list" where
  "site_ops k es = List.map_filter (\<lambda>e. case e of Provided n p \<Rightarrow> if n = k then Some p else None | _ \<Rightarrow> None) es"

lemma site_ops_snoc [simp]:
  "site_ops k [] = []"
  "site_ops k (es @ [Provided n p]) = (if n = k then site_ops k es @ [p] else site_ops k es)"
  by (simp_all add: site_ops_def List.map_filter_def)

lemma site_ops_other:
  assumes "\<And>n p. e \<noteq> Provided n p" shows "site_ops k (es @ [e]) = site_ops k es"
  using assms by (cases e) (auto simp: site_ops_def List.map_filter_def)

text \<open>
  Providers mounted after the \<open>m\<close>-th mount hold what their own operations among \<open>es\<close> made of empty
  ones.
\<close>

definition since :: "nat \<Rightarrow> site_event list \<Rightarrow> site \<Rightarrow> bool" where
  "since m es s \<longleftrightarrow>
     m \<le> mounts (site_shell s) \<and>
     (\<forall>p. providers (site_shell s) = Some p \<longrightarrow>
        m < mounts (site_shell s) \<and>
        (\<exists>pre post. es = pre @ post \<and> p = foldl provider_step providers_mounted (site_ops (mounts (site_shell s)) post)))"

lemma since_same:
  "since m es s \<Longrightarrow> providers (site_shell t) = providers (site_shell s) \<Longrightarrow> mounts (site_shell t) = mounts (site_shell s) \<Longrightarrow>
   since m es t"
  by (simp add: since_def)

lemma since_gone: "m \<le> mounts (site_shell s) \<Longrightarrow> providers (site_shell s) = None \<Longrightarrow> since m es s"
  by (simp add: since_def)

lemma since_event:
  assumes "since m es s" and "\<And>n p. e \<noteq> Provided n p" shows "since m (es @ [e]) s"
  unfolding since_def
proof (intro conjI allI impI)
  fix p
  assume "providers (site_shell s) = Some p"
  with assms(1) obtain pre post where "m < mounts (site_shell s)" "es = pre @ post"
      "p = foldl provider_step providers_mounted (site_ops (mounts (site_shell s)) post)"
    unfolding since_def by blast
  then show "m < mounts (site_shell s)" "\<exists>pre post. es @ [e] = pre @ post \<and>
      p = foldl provider_step providers_mounted (site_ops (mounts (site_shell s)) post)"
    using site_ops_other [OF assms(2)] by (simp, intro exI [of _ pre] exI [of _ "post @ [e]"]) simp
qed (use assms(1) in \<open>simp add: since_def\<close>)

lemma since_provided:
  assumes "since m es s" shows "since m (es @ [Provided k x]) (site_handle E s (Provided k x))"
  unfolding since_def
proof (intro conjI allI impI)
  let ?n = "mounts (site_shell s)"
  fix p
  assume p: "providers (site_shell (site_handle E s (Provided k x))) = Some p"
  then obtain q where q: "providers (site_shell s) = Some q" "p = (if k = ?n then provider_step q x else q)"
    by (auto simp del: split_paired_All split_paired_Ex split: if_splits)
  with assms obtain pre post where "m < ?n" "es = pre @ post" "q = foldl provider_step providers_mounted (site_ops ?n post)"
    unfolding since_def by blast
  with q(2) show "m < mounts (site_shell (site_handle E s (Provided k x)))"
      "\<exists>pre post. es @ [Provided k x] = pre @ post \<and>
         p = foldl provider_step providers_mounted (site_ops (mounts (site_shell (site_handle E s (Provided k x)))) post)"
    by (simp, intro exI [of _ pre] exI [of _ "post @ [Provided k x]"]) simp
qed (use assms in \<open>simp add: since_def\<close>)

lemma set_auth_mounts [simp]: "mounts (site_shell (set_auth a s)) = mounts (site_shell s)"
  by (simp add: set_auth_def)

lemma since_handle: "since m es s \<Longrightarrow> since m (es @ [e]) (site_handle E s e)"
proof (cases e)
  case (PageLoad r)
  assume "since m es s"
  with PageLoad show ?thesis by (intro since_gone) (simp_all add: since_def site_load_def)
next
  case (Provided k x)
  assume "since m es s"
  with Provided show ?thesis by (simp only: since_provided)
qed (auto intro!: since_same [OF since_event] split: route.split)

lemma since_render: "since m es s \<Longrightarrow> since m es (site_render s)"
proof (cases "in_app (here s) \<and> app_layout (site_auth s) = Shell \<and> providers (site_shell s) = None")
  case True
  assume "since m es s"
  then have "m \<le> mounts (site_shell s)" by (simp add: since_def)
  with True have "mounts (site_shell (site_render s)) = Suc (mounts (site_shell s))"
      "providers (site_shell (site_render s)) = Some providers_mounted"
    by (simp_all add: site_render_def app_render_def)
  with \<open>m \<le> mounts (site_shell s)\<close> show ?thesis
    unfolding since_def
    by (intro conjI allI impI exI [of _ es] exI [of _ "[]"]) (simp_all del: split_paired_All split_paired_Ex)
next
  case False
  assume "since m es s"
  moreover have "providers (site_shell (site_render s)) = None \<or> site_shell (site_render s) = site_shell s"
    using False by (auto simp: site_render_def app_render_def split: option.split)
  moreover have "mounts (site_shell s) \<le> mounts (site_shell (site_render s))"
    by (simp add: site_render_def app_render_def split: option.split)
  ultimately show ?thesis by (auto simp: since_def)
qed

lemma since_effects: "since m es s \<Longrightarrow> since m es (site_effects E s)"
  by (erule since_same)
    (simp_all add: site_effects_def replace_path_def case_prod_beta Let_def split: route.split option.split page.split)

lemma since_step: "since m es s \<Longrightarrow> since m (es @ [e]) (site_step E s e)"
  unfolding site_step_def site_settle_def by (intro since_render since_effects since_handle)

lemma since_run: "providers (site_shell s) = None \<Longrightarrow> since (mounts (site_shell s)) es (foldl (site_step E) s es)"
proof (induction es rule: rev_induct)
  case Nil
  then show ?case by (simp add: since_def)
next
  case (snoc e es)
  then show ?case using since_step by simp
qed

text \<open>
  C24: Nothing of one session reaches the next: without a session, and away from the pages of the
  shell, there is no cached data of conversations, messages or usage; and whenever there is some
  again, it is what the operations of the new mount made of empty providers, across sign-outs,
  sign-ins, navigation and page loads, and however late the answers to earlier requests arrive.
\<close>

theorem site_isolated:
  assumes "auth_status (site_auth s) \<noteq> Authed \<or> \<not> in_app (here s)"
    and "s = foldl (site_step E) (site_settle E (site_load r c n)) es1"
  shows "providers (site_shell s) = None \<and>
     (let t = foldl (site_step E) s es2 in
      case providers (site_shell t) of
        None \<Rightarrow> \<not> (in_app (here t) \<and> auth_status (site_auth t) = Authed)
      | Some p \<Rightarrow> mounts (site_shell s) < mounts (site_shell t) \<and>
          (\<exists>pre post. es2 = pre @ post \<and>
             p = foldl provider_step providers_mounted (site_ops (mounts (site_shell t)) post)))"
proof -
  have ok: "site_ok s" "site_ok (foldl (site_step E) s es2)"
    unfolding assms(2) using site_load_ok [of r c n] by (intro sites.inv_run site_ok_settle; simp)+
  with assms(1) have "providers (site_shell s) = None" by (auto simp: site_ok_def at_rest_def)
  with since_run [OF this, of es2 E] ok(2) show ?thesis
    by (auto simp: since_def site_ok_def at_rest_def Let_def simp del: split_paired_All split_paired_Ex split: option.split)
qed

text \<open>
  A page of the shell on which a conversation is created before the sign-out; then a second sign-in,
  and an answer to the first session's listing.
\<close>

definition first_visit :: "site_event list" where
  "first_visit = [BootEnds, Provided 1 (Created (Inr old_chat)), Act Logout]"

definition second_visit :: "site_event list" where
  "second_visit = [Act (Google (js ''code'')), Provided 1 (Listed (Inr [old_chat]))]"

lemma two_visits:
  "(let s = demo_site first_visit; t = foldl (site_step demo_net) s second_visit
    in (here s, auth_status (site_auth s), here t, auth_status (site_auth t), mounts (site_shell t))) =
   (LoginR, Anon, HomeR, Authed, 2)"
  by code_simp

theorem site_isolated_witness:
  "providers (site_shell (demo_site first_visit)) = None \<and>
   providers (site_shell (foldl (site_step demo_net) (demo_site first_visit) second_visit)) = Some providers_mounted"
proof -
  let ?s = "demo_site first_visit"
  let ?t = "foldl (site_step demo_net) ?s second_visit"
  have "auth_status (site_auth ?s) = Anon" "here ?t = HomeR" "auth_status (site_auth ?t) = Authed"
      "mounts (site_shell ?t) = 2"
    using two_visits unfolding Let_def by (simp_all only: prod.inject)
  moreover have "site_ops 2 post = []" if "second_visit = pre @ post" for pre post
  proof -
    have "set post \<subseteq> set second_visit" unfolding that by simp
    then have "list_all (\<lambda>e. case e of Provided k p \<Rightarrow> k \<noteq> 2 | _ \<Rightarrow> True) post"
      by (auto simp: list_all_iff second_visit_def)
    then show ?thesis
      by (induction post) (auto simp: site_ops_def List.map_filter_simps split: site_event.splits)
  qed
  ultimately show ?thesis
    using site_isolated [OF _ demo_site_def [of first_visit], of second_visit]
    by (auto simp: Let_def simp del: split_paired_All split_paired_Ex split: option.splits)
qed

end
