(* ===== verification/Contexts.thy ===== *)
theory Contexts
  imports Routes
begin

text \<open>
  The React contexts of the site: which provider stands around which component
  (\<open>app/layout.tsx\<close>, \<open>app/(app)/layout.tsx\<close>), and the hooks, which throw when the provider they
  belong to is missing above the component that calls them.
\<close>

section \<open>Hooks\<close>

datatype react_context = ToastContext | AuthContext | ConversationsContext | UsageContext | MessagesContext

text \<open>A hook, given the contexts provided above its caller: the message of the \<open>Error\<close> it throws.\<close>

type_synonym hook = "react_context list \<Rightarrow> jstring option"

definition use_context :: "react_context \<Rightarrow> string \<Rightarrow> hook" where
  "use_context c err ctxs = (if c \<in> set ctxs then None else Some (js err))"

definition useToast :: hook where
  "useToast = use_context ToastContext ''useToast must be used within ToastProvider''"

definition useAuth :: hook where
  "useAuth = use_context AuthContext ''useAuth must be used within an AuthProvider''"

definition useConversationsContext :: hook where
  "useConversationsContext =
     use_context ConversationsContext ''useConversationsContext must be used within a ConversationsProvider''"

definition useUsage :: hook where
  "useUsage = use_context UsageContext ''useUsage must be used within a UsageProvider''"

definition useMessages_hook :: hook where
  "useMessages_hook = use_context MessagesContext ''useMessages must be used within a MessagesProvider''"

definition useSendNew :: hook where
  "useSendNew = use_context MessagesContext ''useSendNew must be used within a MessagesProvider''"

definition useSetFeedback :: hook where
  "useSetFeedback = use_context MessagesContext ''useSetFeedback must be used within a MessagesProvider''"

section \<open>Elements\<close>

text \<open>A component with the hooks it calls, the context it provides, and what it renders.\<close>

datatype element = El "hook list" "react_context option" "element list"

text \<open>The errors thrown while rendering an element under the given contexts.\<close>

fun thrown :: "react_context list \<Rightarrow> element \<Rightarrow> jstring list" where
  "thrown ctxs (El hooks provides es) =
     List.map_filter (\<lambda>h. h ctxs) hooks @
     concat (map (thrown (case provides of Some c \<Rightarrow> c # ctxs | None \<Rightarrow> ctxs)) es)"

definition ToastProvider :: "element list \<Rightarrow> element" where
  "ToastProvider es = El [] (Some ToastContext) es"

definition AuthProvider :: "element list \<Rightarrow> element" where
  "AuthProvider es = El [] (Some AuthContext) es"

definition ConversationsProvider :: "element list \<Rightarrow> element" where
  "ConversationsProvider es = El [] (Some ConversationsContext) es"

definition UsageProvider :: "element list \<Rightarrow> element" where
  "UsageProvider es = El [] (Some UsageContext) es"

definition MessagesProvider :: "element list \<Rightarrow> element" where
  "MessagesProvider es = El [useConversationsContext, useUsage] (Some MessagesContext) es"

section \<open>The site's elements\<close>

text \<open>The sidebar with its rows, the settings with the dialog of the account, the usage meter.\<close>

definition row_element :: "Conversation \<Rightarrow> element" where
  "row_element c = El [useToast] None []"

definition settings_element :: element where
  "settings_element = El [useAuth, useToast] None [El [useAuth, useToast] None []]"

definition meter_element :: element where
  "meter_element = El [useUsage] None []"

definition sidebar_element :: "sidebar \<Rightarrow> element" where
  "sidebar_element s =
     El [useConversationsContext] None
       ((if list_loading s \<or> (case list_error s of Some e \<Rightarrow> e \<noteq> [] | None \<Rightarrow> False) then []
         else map row_element (conversations s)) @
        [settings_element, meter_element])"

text \<open>A settled reply has its actions; \<open>useMessages\<close> shows the state of the conversation.\<close>

definition reply_element :: "ChatMessage \<Rightarrow> element list" where
  "reply_element m = (if role m \<noteq> js ''user'' \<and> \<not> streaming m then [El [useToast] None []] else [])"

definition chat_element :: "ConvState \<Rightarrow> element" where
  "chat_element s =
     El [useMessages_hook, useSetFeedback] None
       (if notFound s \<or> loading s then [] else concat (map reply_element (messages s)))"

text \<open>The page of a route, \<open>AppLayout\<close> around those of the shell, and the root layout.\<close>

definition page_element :: "store \<Rightarrow> route \<Rightarrow> element" where
  "page_element st r =
     (case r of
        HomeR \<Rightarrow> El [useSendNew, useToast] None []
      | ChatR i \<Rightarrow> chat_element (conv_state st i)
      | LoginR \<Rightarrow> El [useAuth] None []
      | MagicR t \<Rightarrow> El [] None [El [useAuth] None []]
      | _ \<Rightarrow> El [] None [])"

definition layout_element :: "site \<Rightarrow> element" where
  "layout_element s =
     El [useAuth] None
       (case providers (site_shell s) of
          None \<Rightarrow> []
        | Some (side, used_now, st) \<Rightarrow>
            [ConversationsProvider [UsageProvider [MessagesProvider [sidebar_element side, page_element st (here s)]]]])"

definition RootLayout :: "site \<Rightarrow> element" where
  "RootLayout s =
     ToastProvider
       [AuthProvider [if in_app (here s) then layout_element s else page_element empty_store (here s)],
        El [useToast] None []]"

section \<open>Every hook finds its context\<close>

lemma use_context_simps [simp]:
  "ToastContext \<in> set ctxs \<Longrightarrow> useToast ctxs = None"
  "AuthContext \<in> set ctxs \<Longrightarrow> useAuth ctxs = None"
  "ConversationsContext \<in> set ctxs \<Longrightarrow> useConversationsContext ctxs = None"
  "UsageContext \<in> set ctxs \<Longrightarrow> useUsage ctxs = None"
  "MessagesContext \<in> set ctxs \<Longrightarrow> useMessages_hook ctxs = None"
  "MessagesContext \<in> set ctxs \<Longrightarrow> useSendNew ctxs = None"
  "MessagesContext \<in> set ctxs \<Longrightarrow> useSetFeedback ctxs = None"
  by (simp_all add: useToast_def useAuth_def useConversationsContext_def useUsage_def useMessages_hook_def
      useSendNew_def useSetFeedback_def use_context_def)

lemma map_filter_none [simp]: "List.map_filter f [] = []" "f x = None \<Longrightarrow> List.map_filter f (x # xs) = List.map_filter f xs"
  by (simp_all add: List.map_filter_simps)

lemma thrown_sidebar:
  "{ToastContext, AuthContext, ConversationsContext, UsageContext} \<subseteq> set ctxs \<Longrightarrow> thrown ctxs (sidebar_element s) = []"
  by (auto simp: sidebar_element_def settings_element_def meter_element_def row_element_def)

lemma thrown_page:
  assumes "in_app r \<longrightarrow> MessagesContext \<in> set ctxs" and "ToastContext \<in> set ctxs" and "AuthContext \<in> set ctxs"
  shows "thrown ctxs (page_element st r) = []"
  using assms
  by (cases r) (auto simp: page_element_def chat_element_def reply_element_def in_app_def split: if_splits)

text \<open>
  No hook throws: on every route, signed in or not, with any conversations and messages, each
  component finds the providers of the contexts it uses above it, those of the shell only where the
  shell has mounted them.
\<close>

theorem hooks_in_scope: "thrown [] (RootLayout s) = []"
proof (cases "in_app (here s)")
  case True
  then show ?thesis
    by (cases "providers (site_shell s)")
      (auto simp: RootLayout_def ToastProvider_def AuthProvider_def layout_element_def ConversationsProvider_def
        UsageProvider_def MessagesProvider_def thrown_sidebar thrown_page)
next
  case False
  then show ?thesis
    by (simp add: RootLayout_def ToastProvider_def AuthProvider_def thrown_page)
qed

end
