(* ===== verification/Pages.thy ===== *)
theory Pages
  imports Routes
begin

text \<open>
  The paths of the site: \<open>Number(params.id)\<close> by which a conversation page reads its id off the path,
  \<open>String(params.id)\<close> by which a row knows that it is open, the pages without state (the legal pages,
  the error pages), and the links of every page. The lemmas show that each link leads to the page
  it stands for, also across the redirects.
\<close>

section \<open>Number of a string\<close>

text \<open>\<open>Infinity\<close> or decimal digits with fraction and exponent; \<open>None\<close> is \<open>NaN\<close>.\<close>

definition unsigned_number :: "jstring \<Rightarrow> jsnum option" where
  "unsigned_number s =
     (if s = js ''Infinity'' then Some PosInf
      else let i = takeWhile is_digit s; s1 = dropWhile is_digit s;
               (f, s2) = (case s1 of
                   c # cs \<Rightarrow> if c = ch CHR ''.'' then (takeWhile is_digit cs, dropWhile is_digit cs) else ([], s1)
                 | [] \<Rightarrow> ([], []))
           in if i @ f = [] then None
              else case p_exp s2 of
                Some (e, []) \<Rightarrow> Some (fl (of_int (digits_val (i @ f)) * pow10 (e - int (length f))))
              | _ \<Rightarrow> None)"

definition negated :: "jsnum \<Rightarrow> jsnum" where
  "negated v = (case v of Fin r \<Rightarrow> Fin (- r) | PosInf \<Rightarrow> NegInf | NegInf \<Rightarrow> PosInf)"

definition signed_number :: "jstring \<Rightarrow> jsnum option" where
  "signed_number s =
     (case s of
        c # cs \<Rightarrow>
          if c = ch CHR ''-'' then map_option negated (unsigned_number cs)
          else if c = ch CHR ''+'' then unsigned_number cs
          else unsigned_number s
      | [] \<Rightarrow> None)"

text \<open>The literals with a prefix: \<open>0x\<close>, \<open>0o\<close> and \<open>0b\<close>, without a sign.\<close>

definition radix_of :: "jschar \<Rightarrow> int option" where
  "radix_of c = map_of [(ch CHR ''x'', 16), (ch CHR ''X'', 16), (ch CHR ''o'', 8), (ch CHR ''O'', 8),
     (ch CHR ''b'', 2), (ch CHR ''B'', 2)] c"

fun radix_val :: "int \<Rightarrow> int \<Rightarrow> jstring \<Rightarrow> int option" where
  "radix_val b n [] = Some n"
| "radix_val b n (c # cs) =
     (case hex_val c of Some d \<Rightarrow> if d < b then radix_val b (b * n + d) cs else None | None \<Rightarrow> None)"

definition prefixed_number :: "jstring \<Rightarrow> jsnum option option" where
  "prefixed_number s =
     (case s of
        z # x # ds \<Rightarrow>
          if z = 48
          then map_option (\<lambda>b. if ds = [] then None else map_option (\<lambda>n. fl (of_int n)) (radix_val b 0 ds)) (radix_of x)
          else None
      | _ \<Rightarrow> None)"

text \<open>\<open>Number(text)\<close>.\<close>

definition number_of_text :: "jstring \<Rightarrow> jsnum option" where
  "number_of_text text =
     (let s = trim text in
      if s = [] then Some (Fin 0)
      else case prefixed_number s of Some v \<Rightarrow> v | None \<Rightarrow> signed_number s)"

section \<open>An id as text and back\<close>

lemma is_digit_not [simp]: "\<not> is_digit 45" "\<not> is_digit 43" "\<not> is_digit 46" "\<not> is_digit 47" "\<not> is_digit 73"
  by (simp_all add: is_digit_def)

lemma digit_not_ws: "is_digit c \<Longrightarrow> \<not> is_ws c"
  by (auto simp: is_digit_def is_ws_def)

lemma digit_not_radix: "is_digit c \<Longrightarrow> radix_of c = None"
  by (auto simp: is_digit_def radix_of_def)

lemma unsigned_digits:
  assumes "0 \<le> n" and "n < 2 ^ 53" shows "unsigned_number (digits_str n) = Some (Fin (of_int n))"
proof -
  from digits_str_val [OF assms(1)] have d: "digits_str n \<noteq> []" "\<forall>c \<in> set (digits_str n). is_digit c"
      "digits_val (digits_str n) = n"
    by (auto simp: list_all_iff)
  then have whole: "takeWhile is_digit (digits_str n) = digits_str n" "dropWhile is_digit (digits_str n) = []"
    by simp_all
  have "digits_str n \<noteq> js ''Infinity''" using d(2) by (auto simp: js_text)
  with d assms show ?thesis
    by (simp add: whole unsigned_number_def Let_def p_exp_def pow10_def fl_safe_int)
qed

lemma int_str_chars:
  obtains c cs where "int_str n = c # cs" "c = 45 \<or> is_digit c" "\<forall>d \<in> set cs. is_digit d"
proof (cases "n < 0")
  case True
  with digits_str_val [of "- n"] that [of 45 "digits_str (- n)"] show thesis
    by (simp add: int_str_def js_text list_all_iff)
next
  case False
  with digits_str_val [of n] show thesis
    by (cases "digits_str n") (auto simp: int_str_def list_all_iff intro: that)
qed

lemma trim_int_str [simp]: "trim (int_str n) = int_str n"
proof -
  obtain c cs where i: "int_str n = c # cs" "c = 45 \<or> is_digit c" "\<forall>d \<in> set cs. is_digit d" by (rule int_str_chars)
  have minus: "\<not> is_ws 45" by (simp add: is_ws_def)
  from i minus have "\<not> is_ws (hd (int_str n))" by (auto dest: digit_not_ws)
  moreover from i minus have "\<not> is_ws (last (int_str n))"
    by (cases cs rule: rev_cases) (auto dest: digit_not_ws)
  ultimately show ?thesis by (intro trim_id) simp
qed

text \<open>\<open>Number(String(i)) = i\<close> for the ids of the API.\<close>

lemma number_of_int_str:
  assumes "\<bar>n\<bar> < 2 ^ 53" shows "number_of_text (int_str n) = Some (Fin (of_int n))"
proof -
  obtain c cs where i: "int_str n = c # cs" "c = 45 \<or> is_digit c" "\<forall>d \<in> set cs. is_digit d" by (rule int_str_chars)
  have plain: "prefixed_number (int_str n) = None"
    using i by (cases cs) (auto simp: prefixed_number_def digit_not_radix)
  have "signed_number (int_str n) = Some (Fin (of_int n))"
  proof (cases "n < 0")
    case True
    with assms unsigned_digits [of "- n"] show ?thesis
      by (simp add: int_str_def signed_number_def negated_def js_text)
  next
    case False
    with digits_str_val [of n] obtain d ds where "digits_str n = d # ds" "is_digit d" by (cases "digits_str n") auto
    moreover from this have "d \<noteq> 45 \<and> d \<noteq> 43" by auto
    ultimately show ?thesis
      using False assms unsigned_digits [of n] by (simp add: int_str_def signed_number_def)
  qed
  with plain show ?thesis by (simp add: number_of_text_def Let_def) (simp add: i(1))
qed

lemma int_str_inj:
  assumes "\<bar>i\<bar> < 2 ^ 53" and "\<bar>j\<bar> < 2 ^ 53" shows "int_str i = int_str j \<longleftrightarrow> i = j"
proof
  assume "int_str i = int_str j"
  then have "number_of_text (int_str i) = number_of_text (int_str j)" by (rule arg_cong)
  then have "(of_int i :: rat) = of_int j"
    by (simp only: number_of_int_str [OF assms(1)] number_of_int_str [OF assms(2)] option.inject jsnum.inject)
  then show "i = j" by (simp only: of_int_eq_iff)
qed simp

section \<open>Paths\<close>

text \<open>\<open>useParams().id\<close>: the segment \<open>[id]\<close> of the path of a conversation page.\<close>

definition params_id :: "jstring \<Rightarrow> jstring option" where
  "params_id p =
     (let seg = drop 3 p in
      if starts_with (js ''/c/'') p \<and> seg \<noteq> [] \<and> ch CHR ''/'' \<notin> set seg then Some seg else None)"

text \<open>The id of the conversation that \<open>ConversationPage\<close> shows.\<close>

definition page_id :: "jstring \<Rightarrow> jsnum option" where
  "page_id param = number_of_text param"

text \<open>\<open>isOpen\<close> of a row, by the text of the parameter.\<close>

definition row_isOpen :: "jstring option \<Rightarrow> Conversation \<Rightarrow> bool" where
  "row_isOpen param c \<longleftrightarrow> (case param of Some s \<Rightarrow> s | None \<Rightarrow> js ''undefined'') = int_str (conv_id c)"

text \<open>The route that a path names; a conversation page is one whose id is an integer.\<close>

definition route_at :: "jstring \<Rightarrow> route option" where
  "route_at p =
     (if p = js ''/'' then Some HomeR
      else if p = js ''/login'' then Some LoginR
      else if p = js ''/auth/magic'' then Some (MagicR None)
      else if p = js ''/terms'' then Some TermsR
      else if p = js ''/privacy'' then Some PrivacyR
      else if p = js ''/maintenance'' then Some MaintenanceR
      else case params_id p of
             None \<Rightarrow> None
           | Some seg \<Rightarrow>
               (case page_id seg of
                  Some (Fin x) \<Rightarrow> if of_int \<lfloor>x\<rfloor> = x then Some (ChatR \<lfloor>x\<rfloor>) else None
                | _ \<Rightarrow> None))"

lemma params_id_link [simp]: "params_id (js ''/c/'' @ int_str i) = Some (int_str i)"
proof -
  obtain c cs where i: "int_str i = c # cs" "c = 45 \<or> is_digit c" "\<forall>d \<in> set cs. is_digit d" by (rule int_str_chars)
  then have "47 \<notin> set (int_str i)" by auto
  with i(1) show ?thesis by (simp add: params_id_def js_text starts_with_def)
qed

lemma not_a_link: "js ''/c/'' @ t \<noteq> js ''/''" "js ''/c/'' @ t \<noteq> js ''/login''" "js ''/c/'' @ t \<noteq> js ''/auth/magic''"
    "js ''/c/'' @ t \<noteq> js ''/terms''" "js ''/c/'' @ t \<noteq> js ''/privacy''" "js ''/c/'' @ t \<noteq> js ''/maintenance''"
  by (simp_all add: js_text)

lemma route_at_link: "\<bar>i\<bar> < 2 ^ 53 \<Longrightarrow> route_at (js ''/c/'' @ int_str i) = Some (ChatR i)"
  by (simp only: route_at_def not_a_link if_False params_id_link page_id_def number_of_int_str option.case jsnum.case
      floor_of_int refl if_True)

text \<open>The path of a route leads back to it.\<close>

lemma route_at_pathname:
  assumes "\<And>i. r = ChatR i \<Longrightarrow> \<bar>i\<bar> < 2 ^ 53"
  shows "route_at (pathname r) = Some (case r of MagicR t \<Rightarrow> MagicR None | _ \<Rightarrow> r)"
proof (cases r)
  case (ChatR i)
  with assms show ?thesis by (simp add: pathname_def route_at_link)
qed (simp_all add: pathname_def route_at_def)

lemma row_isOpen_link:
  "\<bar>i\<bar> < 2 ^ 53 \<Longrightarrow> \<bar>conv_id c\<bar> < 2 ^ 53 \<Longrightarrow> row_isOpen (params_id (js ''/c/'' @ int_str i)) c \<longleftrightarrow> conv_id c = i"
  by (auto simp: row_isOpen_def int_str_inj)

section \<open>Pages without state\<close>

definition ErrorFallback :: "'e \<Rightarrow> 'e widget list" where
  "ErrorFallback onReset =
     [Txt (js ''Something went wrong''), Txt (js ''An unexpected error occurred. You can try again.''),
      Btn (js ''Try again'') True onReset]"

text \<open>\<open>error.tsx\<close> of the shell and \<open>global-error.tsx\<close>.\<close>

definition AppError :: "'e \<Rightarrow> 'e widget list" where
  "AppError reset = ErrorFallback reset"

definition GlobalError :: "'e \<Rightarrow> 'e widget list" where
  "GlobalError reset = ErrorFallback reset"

text \<open>The legal pages; their texts, whose only links are absolute addresses, are an argument.\<close>

definition LegalLayout :: "'e widget list \<Rightarrow> 'e widget list" where
  "LegalLayout inside = Lnk (js ''back'') (js ''/'') # inside"

definition MarkdownDoc :: "jstring \<Rightarrow> 'e widget list" where
  "MarkdownDoc markdown = [Txt markdown]"

definition TermsPage :: "jstring \<Rightarrow> 'e widget list" where
  "TermsPage termsMarkdown = MarkdownDoc termsMarkdown"

definition PrivacyPage :: "jstring \<Rightarrow> 'e widget list" where
  "PrivacyPage privacyMarkdown = MarkdownDoc privacyMarkdown"

text \<open>\<open>MagicPage\<close>: the fallback while \<open>Verify\<close> is suspended, then \<open>Verify\<close>.\<close>

definition MagicPage :: "bool \<Rightarrow> verify_page \<Rightarrow> unit widget list" where
  "MagicPage suspended p = (if suspended then [Txt (js ''Signing you in'' @ [0x2026])] else verify_screen p)"

section \<open>Links\<close>

text \<open>The conversations that the sidebar of the site holds.\<close>

definition listed_now :: "site \<Rightarrow> Conversation list" where
  "listed_now s = (case providers (site_shell s) of None \<Rightarrow> [] | Some (side, used_now, st) \<Rightarrow> conversations side)"

text \<open>
  The links a page shows, with their labels; what the pages of the shell render inside \<open>main\<close> has
  none of its own.
\<close>

definition site_links :: "(jstring \<Rightarrow> jstring) \<Rightarrow> shell_ui \<Rightarrow> login_page \<Rightarrow> jstring \<Rightarrow> site \<Rightarrow> (jstring \<times> jstring) list" where
  "site_links toLower u p legal s =
     (case here s of
        HomeR \<Rightarrow> links_of (AppLayout toLower u [] (site_shell s))
      | ChatR i \<Rightarrow> links_of (AppLayout toLower u [] (site_shell s))
      | LoginR \<Rightarrow> links_of (login_screen p)
      | MagicR t \<Rightarrow> links_of (MagicPage False (verify_now s))
      | TermsR \<Rightarrow> links_of (LegalLayout (TermsPage legal :: unit widget list))
      | PrivacyR \<Rightarrow> links_of (LegalLayout (PrivacyPage legal :: unit widget list))
      | MaintenanceR \<Rightarrow> links_of MaintenancePage)"

lemma links_AppLayout:
  "(l, h) \<in> set (links_of (AppLayout toLower u [] (site_shell s))) \<Longrightarrow>
   \<exists>c \<in> set (listed_now s). l = row_label c \<and> h = js ''/c/'' @ int_str (conv_id c)"
  by (auto simp: AppLayout_def listed_now_def sidebar_links split: option.splits if_splits)

text \<open>The fixed links of the pages outside the shell.\<close>

lemma links_of_pages:
  "links_of (login_screen p) =
     [(js ''Terms'', js ''/terms''), (js ''Privacy Policy'', js ''/privacy''), (js ''Adam Lucek'', js ''https://lucek.ai'')]"
  "links_of (MagicPage False v) = (if verify_error v then [(js ''Back to sign in'', js ''/login'')] else [])"
  "links_of MaintenancePage =
     [(js ''Terms'', js ''/terms''), (js ''Privacy Policy'', js ''/privacy''), (js ''Adam Lucek'', js ''https://lucek.ai'')]"
  "links_of (LegalLayout (MarkdownDoc text)) = [(js ''back'', js ''/'')]"
  by (simp_all add: login_screen_def MagicPage_def verify_screen_def MaintenancePage_def LegalLayout_def MarkdownDoc_def)

lemma links_outside:
  assumes "(l, h) \<in> set (site_links toLower u p legal s)" and "\<not> in_app (here s)" and "starts_with (js ''/'') h"
  shows "\<exists>r \<in> {HomeR, LoginR, TermsR, PrivacyR}. h = pathname r"
proof -
  have "\<not> starts_with (js ''/'') (js ''https://lucek.ai'')" by (simp add: js_text starts_with_def)
  with assms have "h \<in> {js ''/'', js ''/login'', js ''/terms'', js ''/privacy''}"
    by (cases "here s") (auto simp: site_links_def links_of_pages TermsPage_def PrivacyPage_def in_app_def split: if_splits)
  then show ?thesis by (auto simp: pathname_def)
qed

text \<open>Where a link ends: the redirects of the shell and of the sign-in page come after it.\<close>

lemma follow_lands:
  assumes "\<And>t. r \<noteq> MagicR t"
  shows "here (site_step E s (Follow r)) =
     (if in_app r \<and> auth_status (site_auth s) = Anon then LoginR
      else if r = LoginR \<and> auth_status (site_auth s) = Authed then HomeR else r)"
  using assms
  by (cases r)
    (auto simp: site_step_def site_settle_def site_effects_def in_app_def app_layout_def login_redirect_def
      split: auth_status.split)


text \<open>The shell of a signed-in user on the conversation 7, with one conversation in the sidebar.\<close>

definition demo_shell :: site where
  "demo_shell = (site_load (ChatR 7) signed_in 0)\<lparr>site_shell :=
     \<lparr>session_auth = (auth_start signed_in)\<lparr>auth_status := Authed\<rparr>,
      providers = Some (mounted\<lparr>conversations := [old_chat], list_loading := False\<rparr>, None, empty_store), mounts = 1\<rparr>\<rparr>"

definition demo_shell_ui :: shell_ui where
  "demo_shell_ui =
     \<lparr>desktop = True, at_conv = Some 7, row_states = (\<lambda>i. row_mounted old_chat mounted),
      settings_now = \<lparr>settings_menu = menu_closed, delete_open = False\<rparr>,
      delete_now = \<lparr>confirm = [], delete_busy = False\<rparr>, collapsed = False, drawer_now = drawer_mounted []\<rparr>"


text \<open>
  Only the canonical spelling of an id marks its row: at \<^verbatim>\<open>/c/01\<close> the page shows conversation 1, its row
  is not open, and deleting it there leaves the page on the deleted conversation.
\<close>

theorem padded_id_stays_on_deleted:
  "route_at (js ''/c/01'') = Some (ChatR 1) \<and> \<not> row_isOpen (params_id (js ''/c/01'')) old_chat \<and>
   fst (snd (confirmDelete old_chat (row_isOpen (params_id (js ''/c/01'')) old_chat) (Inr ()) its)) = None"
proof -
  have "route_at (js ''/c/01'') = Some (ChatR 1)" by code_simp
  moreover have closed: "\<not> row_isOpen (params_id (js ''/c/01'')) old_chat" by code_simp
  ultimately show ?thesis by (cases its) (simp add: confirmDelete_def case_prod_beta split: sum.split)
qed

end
