(* ===== verification/ChatRefinement.thy ===== *)
theory ChatRefinement
  imports ChatPage
begin

text \<open>
  What a conversation promises, as an abstract machine: a log of entries, at most one running reply,
  the error line, and whether the log is being fetched or does not exist. It knows no temporary ids,
  placeholders, controllers or flags. \<open>MessagesProvider\<close>, as a conversation page uses it, implements
  this machine, operation by operation, and conversations do not disturb each other.
\<close>

section \<open>The abstract conversation\<close>

text \<open>An entry: its id once the API has given one, who wrote it, its text, its nodes, its vote.\<close>

record entry =
  entry_id :: "int option"
  who :: jstring
  words :: jstring
  work :: "RunNode list"
  vote_of :: "int option"

record chat =
  entries :: "entry list"
  running_reply :: "RunNode list option"
  problem :: "jstring option"
  fetching :: bool
  missing :: bool

datatype chat_op =
    Nothing
  | Fetched "entry list"
  | FetchFailed bool
  | Say jstring
  | SayFirst jstring
  | Progress turn_event
  | Finish int
  | Fail jstring
  | Cancel
  | Rate int "int option"

definition said :: "jstring \<Rightarrow> entry" where
  "said t = \<lparr>entry_id = None, who = js ''user'', words = t, work = [], vote_of = None\<rparr>"

definition answered_by :: "int \<Rightarrow> RunNode list \<Rightarrow> entry" where
  "answered_by m ns = \<lparr>entry_id = Some m, who = js ''assistant'', words = [], work = ns, vote_of = None\<rparr>"

definition chat_start :: chat where
  "chat_start = \<lparr>entries = [], running_reply = None, problem = None, fetching = True, missing = False\<rparr>"

fun chat_step :: "chat \<Rightarrow> chat_op \<Rightarrow> chat" where
  "chat_step c Nothing = c"
| "chat_step c (Fetched es) = \<lparr>entries = es, running_reply = None, problem = None, fetching = False, missing = False\<rparr>"
| "chat_step c (FetchFailed gone) =
     c\<lparr>problem := (if gone then None else Some (js ''Couldn'' @ [0x2019] @ js ''t load messages'')),
       fetching := False, missing := gone\<rparr>"
| "chat_step c (Say t) = c\<lparr>entries := entries c @ [said t], running_reply := Some [], problem := None\<rparr>"
| "chat_step c (SayFirst t) =
     \<lparr>entries = [said t], running_reply = Some [], problem = None, fetching = False, missing = False\<rparr>"
| "chat_step c (Progress te) = c\<lparr>running_reply := map_option (\<lambda>ns. add_event ns te) (running_reply c)\<rparr>"
| "chat_step c (Finish m) =
     (case running_reply c of
        None \<Rightarrow> c
      | Some ns \<Rightarrow> c\<lparr>entries := entries c @ [answered_by m ns], running_reply := None\<rparr>)"
| "chat_step c (Fail t) = c\<lparr>running_reply := None, problem := Some t\<rparr>"
| "chat_step c Cancel = c\<lparr>running_reply := None\<rparr>"
| "chat_step c (Rate m r) = c\<lparr>entries := patch_by entry_id (Some m) (\<lambda>e. e\<lparr>vote_of := r\<rparr>) (entries c)\<rparr>"

section \<open>The store as such a conversation\<close>

definition entry_of :: "ChatMessage \<Rightarrow> entry" where
  "entry_of m =
     \<lparr>entry_id = (if 0 < msg_id m then Some (msg_id m) else None), who = role m, words = content m,
      work = shown_nodes m, vote_of = feedback m\<rparr>"

definition chat_of :: "int \<Rightarrow> store \<Rightarrow> chat" where
  "chat_of i st =
     (let s = conv_state st i in
      \<lparr>entries = map entry_of (filter (\<lambda>m. \<not> streaming m) (messages s)),
       running_reply = (case filter streaming (messages s) of [] \<Rightarrow> None | p # _ \<Rightarrow> Some (shown_nodes p)),
       problem = conv_error s, fetching = loading s, missing = notFound s\<rparr>)"

text \<open>
  What an operation means for conversation \<open>i\<close>. A handler call counts while the placeholder of its
  turn is in the list.
\<close>

fun meaning :: "store \<Rightarrow> op \<Rightarrow> chat_op" where
  "meaning st (Load i) = Nothing"
| "meaning st (LoadOk i ms) = (if i \<in> getting st then Fetched (map (entry_of \<circ> hydrate) ms) else Nothing)"
| "meaning st (LoadFailed i x) = (if i \<in> getting st then FetchFailed (is_404 x) else Nothing)"
| "meaning st (Send i t) = Say t"
| "meaning st (SendNew i t) = SayFirst t"
| "meaning st (Handle i k te) =
     (if live st i k \<and> assistantId (turns st ! k) \<in> msg_id ` set (messages (conv_state st i))
      then (case te of Done m \<Rightarrow> Finish m | Error t \<Rightarrow> Fail t | _ \<Rightarrow> Progress te) else Nothing)"
| "meaning st (Stop i) = Cancel"
| "meaning st (SetFeedback i m r) = Rate m r"

definition chat_label :: "int \<Rightarrow> store \<Rightarrow> op \<Rightarrow> chat_op" where
  "chat_label i st e = (if op_conv e = i then meaning st e else Nothing)"

text \<open>What a page lets happen; its votes are for messages that have their id.\<close>

definition page_guard :: "store \<Rightarrow> op \<Rightarrow> bool" where
  "page_guard st e \<longleftrightarrow>
     admissible st e \<and> page_allows st e \<and> (case e of SetFeedback i m r \<Rightarrow> 0 < m | _ \<Rightarrow> True)"

section \<open>The running reply is the last message\<close>

definition bare :: "ChatMessage \<Rightarrow> bool" where
  "bare m \<longleftrightarrow> m = (placeholder (msg_id m))\<lparr>nodes := nodes m\<rparr>"

definition tidy :: "ChatMessage list \<Rightarrow> bool" where
  "tidy ms \<longleftrightarrow>
     ms = filter (\<lambda>m. \<not> streaming m) ms @ filter streaming ms \<and> (\<forall>m \<in> set ms. streaming m \<longrightarrow> bare m)"

lemma tidy_idle: "filter streaming ms = [] \<Longrightarrow> tidy ms"
  by (simp add: tidy_def filter_empty_conv)

lemma filter_patch_by:
  assumes "\<And>m. m \<in> set ms \<Longrightarrow> msg_id m = a \<Longrightarrow> P (f m) = P m"
  shows "filter P (patch_by msg_id a f ms) = patch_by msg_id a f (filter P ms)"
  using assms by (induction ms) auto

lemma tidy_patch:
  assumes "tidy ms" and "\<And>m. m \<in> set ms \<Longrightarrow> msg_id m = a \<Longrightarrow> streaming (f m) = streaming m"
    and "\<And>m. m \<in> set ms \<Longrightarrow> msg_id m = a \<Longrightarrow> streaming m \<Longrightarrow> bare m \<Longrightarrow> bare (f m)"
  shows "tidy (patch_by msg_id a f ms)"
proof -
  let ?h = "filter (\<lambda>m. \<not> streaming m) ms" and ?t = "filter streaming ms"
  have "patch_by msg_id a f ms = patch_by msg_id a f (?h @ ?t)" using assms(1) unfolding tidy_def by argo
  moreover have "filter (\<lambda>m. \<not> streaming m) (patch_by msg_id a f ms) = patch_by msg_id a f ?h"
      "filter streaming (patch_by msg_id a f ms) = patch_by msg_id a f ?t"
    using assms(2) by (intro filter_patch_by; simp)+
  moreover have "bare m" if "m \<in> set (patch_by msg_id a f ms)" "streaming m" for m
    using that assms by (auto simp: patch_by_def tidy_def)
  ultimately show ?thesis by (simp add: tidy_def)
qed

lemma bare_nodes: "bare m \<Longrightarrow> bare (update_message_nodes fn m)"
  unfolding bare_def by (cases m) (simp add: placeholder_def update_message_nodes_def)

definition page_ok :: "store \<Rightarrow> bool" where
  "page_ok st \<longleftrightarrow> ids_ok st \<and> refs_ok st \<and> in_step st \<and> (\<forall>i. tidy (messages (conv_state st i)))"

text \<open>A conversation is idle, or its list ends with the one running reply.\<close>

lemma page_list:
  assumes "page_ok st"
  obtains (idle) "\<not> sending (conv_state st i)" "\<forall>m \<in> set (messages (conv_state st i)). \<not> streaming m"
  | (busy) h p where "sending (conv_state st i)" "messages (conv_state st i) = h @ [p]"
      "\<forall>m \<in> set h. \<not> streaming m" "streaming p" "bare p" "msg_id p \<notin> msg_id ` set h" "msg_id p < 0"
proof (cases "sending (conv_state st i)")
  case False
  with in_stepD(1) [of st i] assms idle show thesis by (simp add: page_ok_def filter_empty_conv)
next
  case True
  let ?ms = "messages (conv_state st i)"
  from True obtain k p where p: "filter streaming ?ms = [p]"
    using in_stepD(2) [of st i] assms by (auto simp: page_ok_def running_turn_def)
  have "tidy ?ms" and ids: "messages_ok (turns st) (tempId st) i ?ms" using assms by (simp_all add: page_ok_def ids_ok_def)
  then have ms: "?ms = filter (\<lambda>m. \<not> streaming m) ?ms @ [p]" unfolding tidy_def p by simp
  have "p \<in> set (filter streaming ?ms)" by (simp add: p)
  then have "streaming p" "bare p" "msg_id p < 0"
    using \<open>tidy ?ms\<close> ids by (auto simp: tidy_def messages_ok_def)
  moreover have "msg_id p \<notin> msg_id ` set (filter (\<lambda>m. \<not> streaming m) ?ms)"
  proof -
    have "distinct (map msg_id (filter (\<lambda>m. \<not> streaming m) ?ms @ [p]))"
      using ids unfolding ms [symmetric] by (simp add: messages_ok_def)
    then show ?thesis by simp
  qed
  ultimately show thesis using busy [OF True ms] by simp
qed

lemma conv_state_refs [simp]:
  "conv_state (st\<lparr>loaded := A, getting := B\<rparr>) i = conv_state st i" "conv_state (st\<lparr>getting := B\<rparr>) i = conv_state st i" "conv_state (st\<lparr>loaded := A\<rparr>) i = conv_state st i"
  "conv_state (load j st) i = conv_state st i"
  by (simp_all add: conv_state_def load_def)

lemma tidy_step:
  assumes ok: "page_ok st" and guard: "page_guard st e"
  shows "tidy (messages (conv_state (step st e) i))"
proof (cases "op_conv e = i")
  case False
  with conv_state_cong [OF step_frame] ok show ?thesis by (simp add: page_ok_def)
next
  case own: True
  have now: "tidy (messages (conv_state st i))" using ok by (simp add: page_ok_def)
  have next_ok: "in_step (step st e)"
    using in_step_step [of st e] ok guard by (simp add: page_ok_def page_guard_def)
  have ended: ?thesis if "\<not> sending (conv_state (step st e) i)"
    using in_stepD(1) [OF next_ok that] by (rule tidy_idle)
  have grows: "tidy (messages (map_message a (update_message_nodes fn) (conv_state st i)))" for a fn
    using now by (simp add: map_message_def) (rule tidy_patch, simp_all add: update_message_nodes_def bare_nodes [unfolded update_message_nodes_def])
  show ?thesis
  proof (cases e)
    case (Send j c)
    with own guard have "filter streaming (messages (conv_state st i)) = []"
      using in_stepD(1) ok by (simp add: page_ok_def page_guard_def)
    with Send own show ?thesis
      by (simp add: send_def Let_def conv_state_def patch_def tidy_def filter_empty_conv user_message_def placeholder_def bare_def)
  next
    case (SendNew j c)
    with own show ?thesis
      by (simp add: sendNew_def send_def Let_def conv_state_def patch_def tidy_def user_message_def placeholder_def bare_def)
  next
    case (Handle j k te)
    with own now grows ended show ?thesis
      by (cases te) (auto simp: updateNodes_def onTitle_def live_def onDone_def onError_def map_message_def)
  next
    case (SetFeedback j m r)
    have "\<not> streaming x" if "x \<in> set (messages (conv_state st i))" "msg_id x = m" for x
      using that SetFeedback guard ok by (fastforce simp: page_guard_def page_ok_def ids_ok_def messages_ok_def)
    with SetFeedback own now show ?thesis by (auto simp: setFeedback_def map_message_def intro!: tidy_patch)
  next
    case (LoadOk j ms)
    with own now ended show ?thesis by (auto simp: load_ok_def)
  next
    case (Stop j)
    with own ended show ?thesis by (simp add: stop_def split: option.splits)
  qed (use own now in \<open>auto simp: load_failed_def\<close>)
qed

section \<open>Every operation is one of the abstract conversation\<close>

lemma page_ok_step: "page_ok st \<Longrightarrow> page_guard st e \<Longrightarrow> page_ok (step st e)"
  using tidy_step [of st e] by (auto simp: page_ok_def page_guard_def ids_ok_step refs_ok_step in_step_step)

lemma page_ok_start: "page_ok empty_store"
  using pages.inv_init
  by (auto simp: page_ok_def empty_store_def conv_state_def LOADING_def tidy_def)

text \<open>The two forms of a list, read as a chat.\<close>

lemma chat_of_idle:
  "\<forall>m \<in> set ms. \<not> streaming m \<Longrightarrow> messages (conv_state st i) = ms \<Longrightarrow>
   chat_of i st = \<lparr>entries = map entry_of ms, running_reply = None, problem = conv_error (conv_state st i),
     fetching = loading (conv_state st i), missing = notFound (conv_state st i)\<rparr>"
  by (simp add: chat_of_def Let_def)

lemma chat_of_busy:
  "\<forall>m \<in> set h. \<not> streaming m \<Longrightarrow> streaming p \<Longrightarrow> messages (conv_state st i) = h @ [p] \<Longrightarrow>
   chat_of i st = \<lparr>entries = map entry_of h, running_reply = Some (shown_nodes p), problem = conv_error (conv_state st i),
     fetching = loading (conv_state st i), missing = notFound (conv_state st i)\<rparr>"
  by (simp add: chat_of_def Let_def)

lemma chat_of_same: "conv_state st' i = conv_state st i \<Longrightarrow> chat_of i st' = chat_of i st"
  by (simp add: chat_of_def)

lemma entry_of_simps [simp]:
  "0 < k \<Longrightarrow> entry_id (entry_of m) = Some k \<longleftrightarrow> msg_id m = k"
  "k < 0 \<Longrightarrow> entry_of (user_message k t) = said t"
  "\<not> streaming (user_message k t)" "streaming (placeholder k)" "shown_nodes (placeholder k) = []" "shown_nodes (update_message_nodes fn m) = fn (shown_nodes m)"
  "entry_of (m\<lparr>feedback := r\<rparr>) = (entry_of m)\<lparr>vote_of := r\<rparr>"
  by (auto simp: entry_of_def user_message_def said_def shown_nodes_def placeholder_def update_message_nodes_def)

lemma entry_of_finished: "bare p \<Longrightarrow> 0 < m \<Longrightarrow> entry_of (p\<lparr>msg_id := m, streaming := False\<rparr>) = answered_by m (shown_nodes p)"
  unfolding bare_def by (cases p) (simp add: placeholder_def entry_of_def answered_by_def shown_nodes_def)

lemma entries_voted:
  "0 < k \<Longrightarrow> map entry_of (patch_by msg_id k (\<lambda>m. m\<lparr>feedback := r\<rparr>) ms) =
     patch_by entry_id (Some k) (\<lambda>e. e\<lparr>vote_of := r\<rparr>) (map entry_of ms)"
  by (induction ms) simp_all

lemma handle_refines:
  assumes ok: "page_ok st" and guard: "page_guard st (Handle i k te)" and live: "live st i k"
    and here: "assistantId (turns st ! k) \<in> msg_id ` set (messages (conv_state st i))"
  shows "chat_of i (handle (turns st ! k) te st) = chat_step (chat_of i st) (meaning st (Handle i k te))"
proof -
  let ?a = "assistantId (turns st ! k)"
  have conv: "turn_conv (turns st ! k) = i" and "?a \<in> assistantId ` set (turns st)" using live by (simp_all add: live_def)
  with here ok obtain m where m: "m \<in> set (messages (conv_state st i))" "msg_id m = ?a" "streaming m"
    by (auto simp: page_ok_def in_step_def placeholders_stream_def)
  then obtain h p where busy: "messages (conv_state st i) = h @ [p]" "\<forall>m \<in> set h. \<not> streaming m" "streaming p" "bare p"
      "msg_id p \<notin> msg_id ` set h"
    by (metis page_list [OF ok, of i])
  with m have a: "msg_id p = ?a" by auto
  with busy(5) have absent: "?a \<notin> msg_id ` set h" by simp
  note now = chat_of_busy [OF busy(2,3,1)]
  have grown: "chat_of i (updateNodes i ?a fn st) = (chat_of i st)\<lparr>running_reply := Some (fn (shown_nodes p))\<rparr>" for fn
    using busy absent a unfolding now
    by (subst chat_of_busy [of h "update_message_nodes fn p"]) (simp_all add: updateNodes_def map_message_def, simp add: update_message_nodes_def)
  show ?thesis
  proof (cases te)
    case (Done m)
    then have "0 < m" using guard by (simp add: page_guard_def)
    with Done busy absent a live here conv show ?thesis unfolding now
      by (subst chat_of_idle [of "h @ [p\<lparr>msg_id := m, streaming := False\<rparr>]"])
        (auto simp: onDone_def map_message_def entry_of_finished)
  next
    case (Error t)
    with busy absent a live here conv show ?thesis unfolding now
      by (subst chat_of_idle [of h]) (auto simp: onError_def)
  next
    case (Title t)
    with live here conv show ?thesis
      by (simp add: now) (simp add: onTitle_def chat_of_same [of "add_effect _ st" i st] now)
  qed (use grown live here conv in \<open>simp_all add: now\<close>)
qed

lemma own_refines:
  assumes ok: "page_ok st" and guard: "page_guard st e" and own: "op_conv e = i"
  shows "chat_of i (step st e) = chat_step (chat_of i st) (meaning st e)"
proof (cases e)
  case (Handle j k te)
  show ?thesis
  proof (cases "live st i k \<and> assistantId (turns st ! k) \<in> msg_id ` set (messages (conv_state st i))")
    case True
    with Handle own handle_refines [OF ok, of i k te] guard show ?thesis by simp
  next
    case False
    have "conv_state (handle (turns st ! k) te st) i = conv_state st i"
      if "live st i k" "assistantId (turns st ! k) \<notin> msg_id ` set (messages (conv_state st i))"
      using that guard Handle own
      by (cases te) (auto simp: live_def page_guard_def updateNodes_def map_message_def onTitle_def)
    with False Handle own show ?thesis by (auto intro: chat_of_same)
  qed
next
  case (Send j t)
  with own guard have idle: "\<not> sending (conv_state st i)" by (simp add: page_guard_def)
  then have "\<forall>m \<in> set (messages (conv_state st i)). \<not> streaming m" using page_list [OF ok, of i] by metis
  note now = chat_of_idle [OF this refl]
  have "tempId st \<le> 0" using ok by (simp add: page_ok_def ids_ok_def turns_ok_def)
  with Send own \<open>\<forall>m \<in> _. _\<close> show ?thesis unfolding now
    by (subst chat_of_busy [of "messages (conv_state st i) @ [user_message (tempId st - 1) t]" "placeholder (tempId st - 2)"])
      (auto simp: send_def Let_def conv_state_def patch_def)
next
  case (SendNew j t)
  have "tempId st \<le> 0" using ok by (simp add: page_ok_def ids_ok_def turns_ok_def)
  with SendNew own show ?thesis
    by (subst chat_of_busy [of "[user_message (tempId st - 1) t]" "placeholder (tempId st - 2)"])
      (auto simp: sendNew_def send_def Let_def conv_state_def patch_def)
next
  case (LoadOk j ms)
  have "\<not> streaming (hydrate m)" if "m \<in> set ms" for m
    using that LoadOk guard by (auto simp: page_guard_def hydrate_def split: option.split)
  then have "chat_of i (load_ok i ms st) = chat_step (chat_of i st) (Fetched (map (entry_of \<circ> hydrate) ms))"
    by (subst chat_of_idle [of "map hydrate ms"]) (auto simp: load_ok_def)
  with LoadOk own show ?thesis by simp
next
  case (LoadFailed j x)
  with own show ?thesis by (simp add: chat_of_def load_failed_def Let_def)
next
  case (Stop j)
  have "messages (conv_state (stop i st) i) = filter (\<lambda>m. \<not> streaming m) (messages (conv_state st i))"
      "conv_error (conv_state (stop i st) i) = conv_error (conv_state st i)"
      "loading (conv_state (stop i st) i) = loading (conv_state st i)"
      "notFound (conv_state (stop i st) i) = notFound (conv_state st i)"
    by (simp_all add: stop_def split: option.split)
  with Stop own show ?thesis by (simp add: chat_of_def Let_def filter_empty_conv)
next
  case (SetFeedback j m r)
  with guard have "0 < m" by (simp add: page_guard_def)
  have apart: "\<not> streaming x" if "x \<in> set (messages (conv_state st i))" "msg_id x = m" for x
    using that \<open>0 < m\<close> ok by (fastforce simp: page_ok_def ids_ok_def messages_ok_def)
  let ?f = "\<lambda>m. m\<lparr>feedback := r\<rparr>" and ?ms = "messages (conv_state st i)"
  have "filter (\<lambda>m. \<not> streaming m) (patch_by msg_id m ?f ?ms) = patch_by msg_id m ?f (filter (\<lambda>m. \<not> streaming m) ?ms)"
    by (rule filter_patch_by) simp
  moreover have "filter streaming (patch_by msg_id m ?f ?ms) = filter streaming ?ms"
  proof -
    have "m \<notin> msg_id ` set (filter streaming ?ms)" using apart by auto
    then show ?thesis by (subst filter_patch_by) simp_all
  qed
  ultimately show ?thesis
    using SetFeedback own \<open>0 < m\<close>
    by (simp add: chat_of_def Let_def setFeedback_def map_message_def entries_voted)
next
  case (Load j)
  with own chat_of_same [of "load j st" i st] show ?thesis by simp
qed

lemma step_refines:
  assumes "page_ok st" and "page_guard st e"
  shows "chat_of i (step st e) = chat_step (chat_of i st) (chat_label i st e)"
proof (cases "op_conv e = i")
  case True
  with own_refines [OF assms True] show ?thesis by (simp add: chat_label_def)
next
  case False
  from chat_of_same [OF conv_state_cong [OF step_frame [OF this]]] False show ?thesis by (simp add: chat_label_def)
qed

interpretation chats: refinement step page_guard page_ok "chat_of i" "chat_label i" chat_step for i
  by unfold_locales (rule page_ok_step, assumption+, rule step_refines)

text \<open>
  C7: A conversation is what it promises to be: after every sequence of visits, histories, sends,
  stream events, stops and votes that a page lets happen, in any conversations, what conversation
  \<open>i\<close> holds is what the abstract chat makes of its own operations; it is sending exactly while the
  chat has a running reply, and its list is then the entries of the chat followed by that reply,
  and the entries alone otherwise.
\<close>

theorem conversation_is_chat:
  assumes "guarded step page_guard empty_store es"
  shows "let st = run empty_store es; c = foldl chat_step chat_start (labels step (chat_label i) empty_store es) in
     chat_of i st = c \<and> (sending (conv_state st i) \<longleftrightarrow> running_reply c \<noteq> None) \<and>
     (case running_reply c of
        None \<Rightarrow> map entry_of (messages (conv_state st i)) = entries c
      | Some ns \<Rightarrow> \<exists>h p. messages (conv_state st i) = h @ [p] \<and> map entry_of h = entries c \<and>
          streaming p \<and> shown_nodes p = ns)"
proof -
  let ?st = "run empty_store es" and ?c = "foldl chat_step chat_start (labels step (chat_label i) empty_store es)"
  have ok: "page_ok ?st" by (rule chats.inv_guarded [OF page_ok_start assms])
  have "chat_of i empty_store = chat_start"
    by (simp add: chat_of_def chat_start_def conv_state_def empty_store_def LOADING_def)
  with chats.run_refines [OF page_ok_start assms, of i] have c: "chat_of i ?st = ?c" by simp
  show ?thesis
    using ok
  proof (cases rule: page_list [where i = i])
    case idle
    with chat_of_idle [OF idle(2) refl] show ?thesis unfolding Let_def c [symmetric] by simp
  next
    case (busy h p)
    with chat_of_busy [OF busy(3,4,2)] show ?thesis unfolding Let_def c [symmetric] by auto
  qed
qed

text \<open>A visit, a turn that ends and is voted for, and a turn that is stopped.\<close>

definition demo_ops :: "op list" where
  "demo_ops =
     [Load 1, LoadOk 1 [old_message], Send 1 (js ''hey''), Handle 1 0 (Done 9), SetFeedback 1 9 (Some 1),
      Send 1 (js ''more''), Handle 1 1 (Title (js ''chat'')), Stop 1, Handle 1 1 (Title (js ''late''))]"

theorem conversation_is_chat_witness:
  "map entry_of (messages (conv_state (run empty_store demo_ops) 1)) =
     [entry_of old_message, said (js ''hey''), (answered_by 9 [])\<lparr>vote_of := Some 1\<rparr>, said (js ''more'')]"
proof -
  have guard: "guarded step page_guard empty_store demo_ops" by code_simp
  have "foldl chat_step chat_start (labels step (chat_label 1) empty_store demo_ops) =
      \<lparr>entries = [entry_of old_message, said (js ''hey''), (answered_by 9 [])\<lparr>vote_of := Some 1\<rparr>, said (js ''more'')],
       running_reply = None, problem = None, fetching = False, missing = False\<rparr>"
    by code_simp
  with conversation_is_chat [OF guard, of 1] show ?thesis by (simp add: Let_def)
qed

end
