(* ===== verification/Agent.thy ===== *)
theory Agent
  imports RunLog
begin

text \<open>
  The agent service as the API sees it: \<open>Translator\<close> of \<open>agent/src/events.py\<close>, which turns the
  events of a LangChain run into frames, and the frames that \<open>run\<close> of \<open>agent/src/server.py\<close> streams.
  The events themselves are LangChain's and an argument. The lemmas show that the frames of a run
  announce each node once, before its texts and its children.
\<close>

section \<open>Events of a run\<close>

datatype etype = ModelStream | ToolStart | ToolEnd | ModelEnd | OtherEvent

text \<open>The output of a tool: a message with a content, a plain value, or the text of anything else.\<close>

datatype py_value = WithContent json | PlainValue json | Printed jstring

text \<open>
  An event with what the translator reads off it: missing texts are empty, missing values are
  \<open>null\<close>; \<open>tokens\<close> are the input, output, total and reasoning tokens of the model's answer.
\<close>

record lc_event =
  etype_of :: etype
  run_id :: "jstring option"
  parent_ids :: "jstring list"
  summarizing :: bool
  summary_id :: json
  reasoning_piece :: jstring
  content_piece :: jstring
  tool_name :: jstring
  tool_input :: json
  tool_output :: py_value
  tokens :: "nat \<times> nat \<times> nat \<times> nat"

text \<open>The frames, with the fields that the API reads; \<open>nodeFrame\<close> is its struct.\<close>

record nodeFrame =
  frame_id :: jstring
  frame_parent :: "jstring option"
  frame_type :: jstring
  frame_name :: jstring
  frame_input :: "json option"

datatype agent_frame =
    NodeFrame nodeFrame
  | DeltaFrame jstring jstring
  | NodeEndFrame jstring "json option"
  | UsageFrame nat nat
  | MetaFrame jstring
  | ErrorFrame jstring
  | EndFrame

section \<open>The translator\<close>

record translator =
  open_tools :: "jstring list"
  started :: "jstring list"
  counted :: "nat \<times> nat \<times> nat \<times> nat"
  root_run_id :: "jstring option"

definition Translator :: translator where
  "Translator = \<lparr>open_tools = [], started = [], counted = (0, 0, 0, 0), root_run_id = None\<rparr>"

definition serialize_output :: "py_value \<Rightarrow> json" where
  "serialize_output out = (case out of WithContent c \<Rightarrow> c | PlainValue v \<Rightarrow> v | Printed s \<Rightarrow> JStr s)"

text \<open>\<open>str(run_id)\<close>.\<close>

definition rid_text :: "lc_event \<Rightarrow> jstring" where
  "rid_text e = (case run_id e of Some r \<Rightarrow> r | None \<Rightarrow> js ''None'')"

text \<open>The innermost ancestor that is an open tool.\<close>

definition parent_of_event :: "translator \<Rightarrow> lc_event \<Rightarrow> jstring option" where
  "parent_of_event t e = find (\<lambda>p. p \<in> set (open_tools t)) (rev (parent_ids e))"

definition text_frames ::
  "jstring \<Rightarrow> jstring option \<Rightarrow> jstring \<Rightarrow> jstring \<Rightarrow> translator \<Rightarrow> agent_frame list \<times> translator" where
  "text_frames nid parent ntype txt t =
     (if nid \<notin> set (started t)
      then ([NodeFrame \<lparr>frame_id = nid, frame_parent = parent, frame_type = ntype, frame_name = [], frame_input = None\<rparr>,
             DeltaFrame nid txt], t\<lparr>started := nid # started t\<rparr>)
      else ([DeltaFrame nid txt], t))"

definition on_stream :: "lc_event \<Rightarrow> translator \<Rightarrow> agent_frame list \<times> translator" where
  "on_stream e t =
     (let parent = parent_of_event t e; rid = rid_text e in
      if summarizing e
      then (if content_piece e = [] then ([], t)
            else text_frames (rid @ js '':compaction'') parent (js ''compaction'') (content_piece e) t)
      else
        let (fs, t1) = (if reasoning_piece e = [] then ([], t)
                        else text_frames (rid @ js '':reasoning'') parent (js ''reasoning'') (reasoning_piece e) t);
            (gs, t2) = (if content_piece e = [] then ([], t1)
                        else text_frames (rid @ js '':text'') parent (js ''text'') (content_piece e) t1)
        in (fs @ gs, t2))"

text \<open>\<open>... or {}\<close>: Python's falsy values.\<close>

definition py_or_empty :: "json \<Rightarrow> json" where
  "py_or_empty v = (if v \<in> {JNull, JBool False, JNum (Fin 0), JStr [], JArr [], JObj []} then JObj [] else v)"

definition on_tool_start :: "lc_event \<Rightarrow> translator \<Rightarrow> agent_frame list \<times> translator" where
  "on_tool_start e t =
     (let rid = rid_text e; parent = parent_of_event t e in
      ([NodeFrame \<lparr>frame_id = rid, frame_parent = parent, frame_type = js ''tool'', frame_name = tool_name e,
          frame_input = Some (py_or_empty (tool_input e))\<rparr>],
       t\<lparr>open_tools := rid # open_tools t, started := rid # started t\<rparr>))"

definition on_tool_end :: "lc_event \<Rightarrow> translator \<Rightarrow> agent_frame list \<times> translator" where
  "on_tool_end e t =
     (let rid = rid_text e in
      ([NodeEndFrame rid (Some (serialize_output (tool_output e)))],
       t\<lparr>open_tools := filter (\<lambda>r. r \<noteq> rid) (open_tools t)\<rparr>))"

definition accumulate :: "lc_event \<Rightarrow> translator \<Rightarrow> translator" where
  "accumulate e t =
     (let (a, b, c, d) = counted t; (i, p, n, r) = tokens e in t\<lparr>counted := (a + i, b + p, c + n, d + r)\<rparr>)"

definition model_end :: "lc_event \<Rightarrow> translator \<Rightarrow> agent_frame list \<times> translator" where
  "model_end e t =
     (if summarizing e
      then ([NodeEndFrame (rid_text e @ js '':compaction'') (Some (JObj [(js ''summary_through_id'', summary_id e)]))],
            accumulate e t)
      else ([], accumulate e t))"

definition translate :: "lc_event \<Rightarrow> translator \<Rightarrow> agent_frame list \<times> translator" where
  "translate e t0 =
     (let t = (if root_run_id t0 = None \<and> parent_ids e = [] then t0\<lparr>root_run_id := run_id e\<rparr> else t0) in
      case etype_of e of
        ModelStream \<Rightarrow> on_stream e t
      | ToolStart \<Rightarrow> on_tool_start e t
      | ToolEnd \<Rightarrow> on_tool_end e t
      | ModelEnd \<Rightarrow> model_end e t
      | OtherEvent \<Rightarrow> ([], t))"

fun translate_all :: "lc_event list \<Rightarrow> translator \<Rightarrow> agent_frame list \<times> translator" where
  "translate_all [] t = ([], t)"
| "translate_all (e # es) t =
     (let (fs, t1) = translate e t; (gs, t2) = translate_all es t1 in (fs @ gs, t2))"

definition usage_event :: "translator \<Rightarrow> agent_frame" where
  "usage_event t = (case counted t of (a, b, c, d) \<Rightarrow> UsageFrame a b)"

definition meta_event :: "translator \<Rightarrow> agent_frame list" where
  "meta_event t = (case root_run_id t of None \<Rightarrow> [] | Some r \<Rightarrow> [MetaFrame r])"

text \<open>\<open>gen\<close> of \<open>run\<close>: the events up to the end of the run or to its exception.\<close>

definition gen :: "bool \<Rightarrow> lc_event list \<Rightarrow> bool \<Rightarrow> agent_frame list" where
  "gen tracing events failed =
     (let (fs, t) = translate_all events Translator in
      fs @ (if failed then [ErrorFrame (js ''The agent run failed. Please try again.'')]
            else usage_event t # (if tracing then meta_event t else [])) @ [EndFrame])"

section \<open>Frames in order\<close>

text \<open>
  Each node is announced once and after its parent, and each text is for a node that was announced
  and is not empty; \<open>seen\<close> are the nodes announced before.
\<close>

fun in_order :: "jstring set \<Rightarrow> agent_frame list \<Rightarrow> bool" where
  "in_order seen [] \<longleftrightarrow> True"
| "in_order seen (NodeFrame f # fs) \<longleftrightarrow>
     frame_id f \<notin> seen \<and> (case frame_parent f of None \<Rightarrow> True | Some p \<Rightarrow> p \<in> seen) \<and>
     in_order (insert (frame_id f) seen) fs"
| "in_order seen (DeltaFrame i t # fs) \<longleftrightarrow> i \<in> seen \<and> t \<noteq> [] \<and> in_order seen fs"
| "in_order seen (NodeEndFrame i out # fs) \<longleftrightarrow> out \<noteq> None \<and> in_order seen fs"
| "in_order seen (_ # fs) \<longleftrightarrow> in_order seen fs"

definition announced :: "agent_frame list \<Rightarrow> jstring list" where
  "announced fs = List.map_filter (\<lambda>f. case f of NodeFrame n \<Rightarrow> Some (frame_id n) | _ \<Rightarrow> None) fs"

lemma announced_simps [simp]:
  "announced [] = []"
  "announced (f # fs) = (case f of NodeFrame n \<Rightarrow> frame_id n # announced fs | _ \<Rightarrow> announced fs)"
  "announced (fs @ gs) = announced fs @ announced gs"
  by (simp_all add: announced_def List.map_filter_simps List.map_filter_def split: agent_frame.split)

lemma in_order_append:
  "in_order seen (fs @ gs) \<longleftrightarrow> in_order seen fs \<and> in_order (seen \<union> set (announced fs)) gs"
  by (induction seen fs rule: in_order.induct) auto

lemma announced_set [simp]: "set (announced (if P then fs else gs)) = (if P then set (announced fs) else set (announced gs))"
  by simp

text \<open>
  What the translator knows of the frames it has made: \<open>started\<close> are the announced nodes, and the
  open tools are among them.
\<close>

definition in_touch :: "jstring set \<Rightarrow> translator \<Rightarrow> bool" where
  "in_touch seen t \<longleftrightarrow> set (started t) = seen \<and> set (open_tools t) \<subseteq> seen"

lemma parent_of_event_open: "parent_of_event t e = Some p \<Longrightarrow> p \<in> set (open_tools t)"
  by (auto simp: parent_of_event_def find_Some_iff)

lemma text_frames_in_order:
  assumes "in_touch seen t" and "txt \<noteq> []" and "\<And>p. parent = Some p \<Longrightarrow> p \<in> seen"
    and "text_frames nid parent ntype txt t = (fs, t')"
  shows "in_order seen fs \<and> in_touch (seen \<union> set (announced fs)) t' \<and> set (announced fs) \<subseteq> {nid} \<and> open_tools t' = open_tools t"
  using assms by (auto simp: text_frames_def in_touch_def split: if_splits option.splits)

lemma on_stream_in_order:
  assumes touch: "in_touch seen t" and os: "on_stream e t = (fs, t')"
  shows "in_order seen fs \<and> in_touch (seen \<union> set (announced fs)) t' \<and> (\<forall>i \<in> set (announced fs). 0x3A \<in> set i)"
proof -
  have parent: "p \<in> seen" if "parent_of_event t e = Some p" for p
    using parent_of_event_open [OF that] touch by (auto simp: in_touch_def)
  show ?thesis
  proof (cases "summarizing e")
    case True
    with os touch show ?thesis
      using text_frames_in_order [OF touch _ parent] by (fastforce simp: on_stream_def Let_def js_text split: if_splits)
  next
    case False
    define r where "r = (if reasoning_piece e = [] then ([], t)
      else text_frames (rid_text e @ js '':reasoning'') (parent_of_event t e) (js ''reasoning'') (reasoning_piece e) t)"
    obtain gs t1 where r1: "r = (gs, t1)" by (cases r)
    have 1: "in_order seen gs \<and> in_touch (seen \<union> set (announced gs)) t1 \<and> (\<forall>i \<in> set (announced gs). 0x3A \<in> set i)"
      using r1 touch text_frames_in_order [OF touch _ parent] unfolding r_def by (fastforce simp: js_text split: if_splits)
    obtain hs where fs: "fs = gs @ hs" and hs: "(if content_piece e = [] then ([], t1)
        else text_frames (rid_text e @ js '':text'') (parent_of_event t e) (js ''text'') (content_piece e) t1) = (hs, t')"
      using os False r1 by (auto simp: on_stream_def Let_def r_def split: prod.splits)
    have "in_order (seen \<union> set (announced gs)) hs \<and> in_touch (seen \<union> set (announced gs) \<union> set (announced hs)) t' \<and>
        (\<forall>i \<in> set (announced hs). 0x3A \<in> set i)"
      using hs 1 text_frames_in_order [of "seen \<union> set (announced gs)" t1 "content_piece e" "parent_of_event t e"] parent
      by (fastforce simp: js_text split: if_splits)
    with 1 show ?thesis by (auto simp: fs in_order_append Un_assoc)
  qed
qed

text \<open>The runs of tools, in the order they start.\<close>

definition tool_runs :: "lc_event list \<Rightarrow> jstring list" where
  "tool_runs es = map rid_text (filter (\<lambda>e. etype_of e = ToolStart) es)"

lemma translate_in_order:
  assumes touch: "in_touch seen t" and fresh: "etype_of e = ToolStart \<Longrightarrow> rid_text e \<notin> seen"
    and tr: "translate e t = (fs, t')"
  shows "in_order seen fs \<and> in_touch (seen \<union> set (announced fs)) t' \<and>
     (\<forall>i \<in> set (announced fs). 0x3A \<in> set i \<or> etype_of e = ToolStart \<and> i = rid_text e)"
proof -
  define t1 where "t1 = (if root_run_id t = None \<and> parent_ids e = [] then t\<lparr>root_run_id := run_id e\<rparr> else t)"
  have touch1: "in_touch seen t1" using touch by (simp add: t1_def in_touch_def)
  show ?thesis
  proof (cases "etype_of e")
    case ModelStream
    with tr have "on_stream e t1 = (fs, t')" by (simp add: translate_def t1_def)
    from on_stream_in_order [OF touch1 this] show ?thesis by blast
  next
    case ToolStart
    have "p \<in> seen" if "parent_of_event t1 e = Some p" for p
      using parent_of_event_open [OF that] touch1 by (auto simp: in_touch_def)
    with ToolStart tr fresh touch1 show ?thesis
      by (auto simp: translate_def on_tool_start_def in_touch_def Let_def simp flip: t1_def split: option.splits)
  next
    case ToolEnd
    with tr touch1 show ?thesis
      by (auto simp: translate_def on_tool_end_def in_touch_def Let_def simp flip: t1_def)
  next
    case ModelEnd
    with tr touch1 show ?thesis
      by (auto simp: translate_def model_end_def accumulate_def in_touch_def Let_def simp flip: t1_def split: if_splits prod.splits)
  next
    case OtherEvent
    with tr touch1 show ?thesis by (auto simp: translate_def simp flip: t1_def)
  qed
qed

lemma translate_all_in_order:
  assumes "in_touch seen t" and "distinct (tool_runs es)" and "\<And>r. r \<in> set (tool_runs es) \<Longrightarrow> 0x3A \<notin> set r \<and> r \<notin> seen"
    and "translate_all es t = (fs, t')"
  shows "in_order seen fs"
  using assms
proof (induction es arbitrary: seen t fs)
  case (Cons e es)
  obtain gs t1 where e: "translate e t = (gs, t1)" by (cases "translate e t")
  obtain hs where es: "translate_all es t1 = (hs, t')" and fs: "fs = gs @ hs"
    using Cons.prems(4) e by (auto split: prod.splits)
  have "rid_text e \<notin> seen" if "etype_of e = ToolStart"
    using Cons.prems(3) [of "rid_text e"] that by (simp add: tool_runs_def)
  from translate_in_order [OF Cons.prems(1) this e]
  have 1: "in_order seen gs" "in_touch (seen \<union> set (announced gs)) t1"
      "\<forall>i \<in> set (announced gs). 0x3A \<in> set i \<or> etype_of e = ToolStart \<and> i = rid_text e" by simp_all
  have "in_order (seen \<union> set (announced gs)) hs"
  proof (rule Cons.IH [OF 1(2) _ _ es])
    show "distinct (tool_runs es)" using Cons.prems(2) by (simp add: tool_runs_def split: if_splits)
    fix r assume r: "r \<in> set (tool_runs es)"
    then have "0x3A \<notin> set r \<and> r \<notin> seen" using Cons.prems(3) [of r] by (auto simp: tool_runs_def)
    moreover have "r \<notin> set (announced gs)"
    proof
      assume "r \<in> set (announced gs)"
      with 1(3) calculation have "etype_of e = ToolStart" "r = rid_text e" by auto
      with r Cons.prems(2) show False by (auto simp: tool_runs_def)
    qed
    ultimately show "0x3A \<notin> set r \<and> r \<notin> seen \<union> set (announced gs)" by simp
  qed
  with 1(1) show ?case by (simp add: fs in_order_append)
qed simp

lemma gen_in_order:
  assumes "distinct (tool_runs es)" and "\<And>r. r \<in> set (tool_runs es) \<Longrightarrow> 0x3A \<notin> set r"
  shows "in_order {} (gen tracing es failed)"
proof -
  obtain fs t where t: "translate_all es Translator = (fs, t)" by (cases "translate_all es Translator")
  have "in_touch {} Translator" by (simp add: in_touch_def Translator_def)
  with translate_all_in_order [OF this assms(1) _ t] assms(2) have "in_order {} fs" by simp
  then show ?thesis
    by (auto simp: gen_def t in_order_append usage_event_def meta_event_def split: prod.splits option.splits)
qed

end
