(* ===== verification/Relay.thy ===== *)
theory Relay
  imports Agent MessagesStore View
begin

text \<open>
  The streaming half of \<open>Send\<close> of \<open>api/chat.go\<close>: \<open>dispatchEvent\<close> of \<open>api/agent.go\<close> and the handlers
  that \<open>Send\<close> gives it, which keep the run's log and write the frames the client reads. A frame
  written is the \<open>turn_event\<close> that it stands for. The lemmas show that for frames in order the log
  kept for the database and the log the client builds from the stream are the same.
\<close>

section \<open>The log of a run\<close>

record traceNode =
  trace_id :: jstring
  trace_parent :: "jstring option"
  trace_type :: jstring
  trace_name :: jstring
  trace_input :: "json option"
  trace_output :: "json option"
  trace_text :: jstring

definition nonTrivial :: "traceNode list \<Rightarrow> bool" where
  "nonTrivial ns \<longleftrightarrow> list_ex (\<lambda>n. \<not> (trace_type n = js ''text'' \<and> trace_parent n = None)) ns"

text \<open>
  The variables of \<open>Send\<close> that its handlers change: \<open>byID\<close> holds positions in \<open>run_log\<close> for the pointers
  of the source, \<open>wrote\<close> are the frames so far.
\<close>

record relay =
  run_log :: "traceNode list"
  byID :: "jstring \<rightharpoonup> nat"
  reply :: jstring
  runID :: jstring
  summaryText :: jstring
  summaryThroughID :: "int option"
  tokenUsage :: "nat \<times> nat"
  wrote :: "turn_event list"

definition relay_start :: relay where
  "relay_start = \<lparr>run_log = [], byID = Map.empty, reply = [], runID = [], summaryText = [],
     summaryThroughID = None, tokenUsage = (0, 0), wrote = []\<rparr>"

section \<open>The handlers\<close>

definition writeSSE :: "turn_event \<Rightarrow> relay \<Rightarrow> relay" where
  "writeSSE te r = r\<lparr>wrote := wrote r @ [te]\<rparr>"

text \<open>\<open>omitempty\<close>: an empty string or a missing value is left out of the JSON.\<close>

definition omitempty :: "jstring \<Rightarrow> jstring option" where
  "omitempty s = (if s = [] then None else Some s)"

definition raw :: "json option \<Rightarrow> jsval" where
  "raw v = (case v of None \<Rightarrow> Undefined | Some x \<Rightarrow> Json x)"

text \<open>The JSON of a \<open>nodeFrame\<close> and of a \<open>traceNode\<close>, as the client's \<open>RunNode\<close>.\<close>

definition node_of_frame :: "nodeFrame \<Rightarrow> RunNode" where
  "node_of_frame f = \<lparr>node_id = frame_id f, parent_id = frame_parent f, node_type = kind_of (frame_type f),
     node_text = None, node_name = omitempty (frame_name f), node_input = raw (frame_input f), node_output = Undefined\<rparr>"

definition node_of_trace :: "traceNode \<Rightarrow> RunNode" where
  "node_of_trace n = \<lparr>node_id = trace_id n, parent_id = trace_parent n, node_type = kind_of (trace_type n),
     node_text = omitempty (trace_text n), node_name = omitempty (trace_name n),
     node_input = raw (trace_input n), node_output = raw (trace_output n)\<rparr>"

definition relay_node :: "nodeFrame \<Rightarrow> relay \<Rightarrow> relay" where
  "relay_node f r =
     writeSSE (Node (node_of_frame f))
       (r\<lparr>run_log := run_log r @ [\<lparr>trace_id = frame_id f, trace_parent = frame_parent f, trace_type = frame_type f,
             trace_name = frame_name f, trace_input = frame_input f, trace_output = None, trace_text = []\<rparr>],
          byID := (byID r)(frame_id f \<mapsto> length (run_log r))\<rparr>)"

definition relay_delta :: "jstring \<Rightarrow> jstring \<Rightarrow> relay \<Rightarrow> relay" where
  "relay_delta i t r =
     writeSSE (Delta i t)
       (case byID r i of
          None \<Rightarrow> r
        | Some k \<Rightarrow>
            let n = run_log r ! k in
            r\<lparr>run_log := (run_log r)[k := n\<lparr>trace_text := trace_text n @ t\<rparr>],
              reply := (if trace_type n = js ''text'' \<and> trace_parent n = None then reply r @ t else reply r)\<rparr>)"

text \<open>\<open>strconv.ParseInt(s, 10, 64)\<close>: an optional sign, at least one digit, in range.\<close>

definition parse_digits :: "jstring \<Rightarrow> int option" where
  "parse_digits ds =
     (if ds \<noteq> [] \<and> list_all is_digit ds then Some (foldl (\<lambda>n d. 10 * n + (uint d - 0x30)) 0 ds) else None)"

definition ParseInt :: "jstring \<Rightarrow> int option" where
  "ParseInt s =
     (case (case s of
              c # cs \<Rightarrow> if c = ch CHR ''-'' then map_option uminus (parse_digits cs)
                        else if c = ch CHR ''+'' then parse_digits cs else parse_digits s
            | [] \<Rightarrow> None) of
        Some n \<Rightarrow> if - (2 ^ 63) \<le> n \<and> n < 2 ^ 63 then Some n else None
      | None \<Rightarrow> None)"

definition summary_through :: "json option \<Rightarrow> int option" where
  "summary_through out =
     (case out of
        Some (JObj kvs) \<Rightarrow> (case map_of kvs (js ''summary_through_id'') of Some (JStr s) \<Rightarrow> ParseInt s | _ \<Rightarrow> None)
      | _ \<Rightarrow> None)"

definition relay_node_end :: "jstring \<Rightarrow> json option \<Rightarrow> relay \<Rightarrow> relay" where
  "relay_node_end i out r =
     writeSSE (NodeEnd i (Json (case out of None \<Rightarrow> JNull | Some v \<Rightarrow> v)))
       (case byID r i of
          None \<Rightarrow> r
        | Some k \<Rightarrow>
            let n = run_log r ! k; r1 = r\<lparr>run_log := (run_log r)[k := n\<lparr>trace_output := out\<rparr>]\<rparr> in
            if trace_type n = js ''compaction''
            then (case summary_through out of
                    None \<Rightarrow> r1
                  | Some w \<Rightarrow> r1\<lparr>summaryText := trace_text n, summaryThroughID := Some w\<rparr>)
            else r1)"

section \<open>Reading the agent's stream\<close>

text \<open>\<open>dispatchEvent\<close>: the error of an error frame, or the state after the handler.\<close>

definition dispatchEvent :: "agent_frame \<Rightarrow> relay \<Rightarrow> jstring + relay" where
  "dispatchEvent fr r =
     (case fr of
        NodeFrame f \<Rightarrow> Inr (relay_node f r)
      | DeltaFrame i t \<Rightarrow> Inr (relay_delta i t r)
      | NodeEndFrame i out \<Rightarrow> Inr (relay_node_end i out r)
      | UsageFrame p c \<Rightarrow> Inr (r\<lparr>tokenUsage := (p, c)\<rparr>)
      | MetaFrame rid \<Rightarrow> Inr (r\<lparr>runID := rid\<rparr>)
      | ErrorFrame m \<Rightarrow> Inl (js ''agent: '' @ m)
      | EndFrame \<Rightarrow> Inr r)"

text \<open>
  \<open>agentClient.run\<close>: the frames that arrive, and how the body ends: with the error of the scanner,
  or without one. A request that fails before its body has no frames and an error.
\<close>

fun agent_run :: "agent_frame list \<Rightarrow> jstring option \<Rightarrow> relay \<Rightarrow> jstring option \<times> relay" where
  "agent_run [] ending r = (ending, r)"
| "agent_run (fr # frs) ending r =
     (case dispatchEvent fr r of Inl e \<Rightarrow> (Some e, r) | Inr r1 \<Rightarrow> agent_run frs ending r1)"

section \<open>The two logs agree\<close>

text \<open>
  After frames in order: the kept log has the announced nodes, each once and after its parent, \<open>byID\<close>
  finds them, and the frames written build the same nodes in the client.
\<close>

definition kept_order :: "traceNode list \<Rightarrow> bool" where
  "kept_order ns \<longleftrightarrow>
     distinct (map trace_id ns) \<and>
     (\<forall>k < length ns. \<forall>p. trace_parent (ns ! k) = Some p \<longrightarrow> p \<in> trace_id ` set (take k ns))"

definition logs_agree :: "jstring set \<Rightarrow> relay \<Rightarrow> bool" where
  "logs_agree seen r \<longleftrightarrow>
     kept_order (run_log r) \<and> trace_id ` set (run_log r) = seen \<and>
     (\<forall>i k. byID r i = Some k \<longleftrightarrow> k < length (run_log r) \<and> trace_id (run_log r ! k) = i) \<and>
     turn_nodes (wrote r) = map node_of_trace (run_log r)"

lemma turn_nodes_snoc [simp]: "turn_nodes (tes @ [te]) = add_event (turn_nodes tes) te"
  by (simp add: turn_nodes_def)

lemma writeSSE_simps [simp]:
  "run_log (writeSSE te r) = run_log r" "byID (writeSSE te r) = byID r" "wrote (writeSSE te r) = wrote r @ [te]"
  "reply (writeSSE te r) = reply r" "summaryThroughID (writeSSE te r) = summaryThroughID r"
  by (simp_all add: writeSSE_def)

lemma update_is_patch:
  assumes "distinct (map kf xs)" and "k < length xs" and "kf (xs ! k) = i"
  shows "xs[k := f (xs ! k)] = patch_by kf i f xs"
proof (rule nth_equalityI)
  fix j assume "j < length (xs[k := f (xs ! k)])"
  with assms show "xs[k := f (xs ! k)] ! j = patch_by kf i f xs ! j"
    using nth_eq_iff_index_eq [OF assms(1), of j k] by (auto simp: patch_by_def nth_list_update)
qed simp

lemma kept_order_patch:
  assumes "kept_order ns" and "\<And>n. trace_id (f n) = trace_id n \<and> trace_parent (f n) = trace_parent n"
  shows "kept_order (patch_by trace_id i f ns) \<and> map trace_id (patch_by trace_id i f ns) = map trace_id ns"
proof -
  have ids: "map trace_id (patch_by trace_id i f ns) = map trace_id ns" using assms(2) by (simp add: map_key_patch_by)
  have "trace_id ` set (take k (patch_by trace_id i f ns)) = trace_id ` set (take k ns)" for k
    by (metis ids image_set take_map)
  moreover have "trace_parent (patch_by trace_id i f ns ! k) = trace_parent (ns ! k)" if "k < length ns" for k
    using that assms(2) by (simp add: patch_by_def)
  ultimately show ?thesis using assms(1) ids by (simp add: kept_order_def)
qed

lemma logs_agree_node:
  assumes "logs_agree seen r" and "frame_id f \<notin> seen" and "\<And>p. frame_parent f = Some p \<Longrightarrow> p \<in> seen"
  shows "logs_agree (insert (frame_id f) seen) (relay_node f r)"
proof -
  have fresh: "frame_id f \<notin> trace_id ` set (run_log r)" using assms(1,2) by (auto simp: logs_agree_def)
  then have "trace_id (run_log r ! k) \<noteq> frame_id f" if "k < length (run_log r)" for k
    using that by (metis image_eqI nth_mem)
  with assms fresh show ?thesis
    by (auto simp: logs_agree_def relay_node_def kept_order_def nth_append less_Suc_eq onNode_def
        node_of_trace_def node_of_frame_def omitempty_def raw_def)
qed

lemma map_patch_trace:
  assumes "\<And>n. node_of_trace (f n) = g (node_of_trace n)"
  shows "map node_of_trace (patch_by trace_id i f ns) = patch_by node_id i g (map node_of_trace ns)"
  using assms by (induction ns) (auto simp: node_of_trace_def)

text \<open>A change of one node of the log that the client's list goes through as well.\<close>

lemma logs_agree_change:
  assumes agree: "logs_agree seen r" and i: "byID r i = Some k"
    and keeps: "\<And>n. trace_id (f n) = trace_id n \<and> trace_parent (f n) = trace_parent n"
    and same: "\<And>n. node_of_trace (f n) = g (node_of_trace n)"
    and log': "run_log r' = (run_log r)[k := f (run_log r ! k)]" and "byID r' = byID r"
    and wrote': "turn_nodes (wrote r') = patch_by node_id i g (turn_nodes (wrote r))"
  shows "logs_agree seen r'"
proof -
  have k: "distinct (map trace_id (run_log r))" "k < length (run_log r)" "trace_id (run_log r ! k) = i"
    using agree i by (auto simp: logs_agree_def kept_order_def)
  have log: "run_log r' = patch_by trace_id i f (run_log r)" unfolding log' by (rule update_is_patch [OF k])
  note kept = kept_order_patch [of "run_log r" f i]
  have ids: "map trace_id (run_log r') = map trace_id (run_log r)" and "kept_order (run_log r')"
    using kept agree keeps unfolding log by (auto simp: logs_agree_def)
  moreover have "length (run_log r') = length (run_log r)" by (simp add: log')
  moreover have "trace_id (run_log r' ! j) = trace_id (run_log r ! j)" if "j < length (run_log r)" for j
    using that ids by (metis calculation(3) nth_map)
  moreover have "turn_nodes (wrote r') = map node_of_trace (run_log r')"
    using agree map_patch_trace [where f = f and g = g and i = i and ns = "run_log r", OF same]
    by (simp add: wrote' log logs_agree_def)
  moreover have "trace_id ` set (run_log r') = trace_id ` set (run_log r)" using ids by (metis list.set_map)
  ultimately show ?thesis using agree assms(6) by (auto simp: logs_agree_def)
qed

lemma logs_agree_delta:
  assumes "logs_agree seen r" and "i \<in> seen" and "t \<noteq> []"
  shows "logs_agree seen (relay_delta i t r)"
proof -
  from assms(1,2) obtain k where "k < length (run_log r)" "trace_id (run_log r ! k) = i"
    by (auto simp: logs_agree_def in_set_conv_nth)
  with assms(1) have k: "byID r i = Some k" by (simp add: logs_agree_def)
  show ?thesis
    by (rule logs_agree_change [OF assms(1) k, where f = "\<lambda>n. n\<lparr>trace_text := trace_text n @ t\<rparr>" and
          g = "\<lambda>n. n\<lparr>node_text := Some ((case node_text n of Some u \<Rightarrow> u | None \<Rightarrow> []) @ t)\<rparr>"])
      (use assms(3) in \<open>simp_all add: relay_delta_def k Let_def node_of_trace_def omitempty_def onDelta_def\<close>)
qed

lemma logs_agree_wrote:
  assumes "logs_agree seen r" and "run_log r' = run_log r" and "byID r' = byID r" and "turn_nodes (wrote r') = turn_nodes (wrote r)"
  shows "logs_agree seen r'"
  using assms by (simp add: logs_agree_def)

lemma patch_by_unseen: "i \<notin> node_id ` set ns \<Longrightarrow> patch_by node_id i f ns = ns"
  by simp

lemma logs_agree_node_end:
  assumes "logs_agree seen r" and "out \<noteq> None"
  shows "logs_agree seen (relay_node_end i out r)"
proof (cases "byID r i")
  case None
  then have "k < length (run_log r) \<Longrightarrow> trace_id (run_log r ! k) \<noteq> i" for k
    using assms(1) unfolding logs_agree_def by (metis option.distinct(1))
  then have "i \<notin> trace_id ` set (run_log r)" by (metis imageE in_set_conv_nth)
  then have "i \<notin> node_id ` set (turn_nodes (wrote r))"
    using assms(1) by (auto simp: logs_agree_def node_of_trace_def)
  with None show ?thesis
    by (intro logs_agree_wrote [OF assms(1)]) (simp_all add: relay_node_end_def onNodeEnd_def)
next
  case (Some k)
  from assms(2) obtain v where v: "out = Some v" by blast
  show ?thesis
    by (rule logs_agree_change [OF assms(1) Some, where f = "\<lambda>n. n\<lparr>trace_output := out\<rparr>" and
          g = "\<lambda>n. n\<lparr>node_output := Json v\<rparr>"])
      (simp_all add: relay_node_end_def Some v Let_def node_of_trace_def raw_def onNodeEnd_def split: option.split)
qed

lemma logs_agree_start: "logs_agree {} relay_start"
  by (simp add: logs_agree_def relay_start_def kept_order_def turn_nodes_def)

lemma logs_agree_run:
  "logs_agree seen r \<Longrightarrow> in_order seen frs \<Longrightarrow> \<exists>seen'. logs_agree seen' (snd (agent_run frs ending r))"
proof (induction frs arbitrary: seen r)
  case (Cons fr frs)
  show ?case
  proof (cases fr)
    case (NodeFrame f)
    then have "logs_agree (insert (frame_id f) seen) (relay_node f r)"
      using Cons.prems by (intro logs_agree_node) (auto split: option.splits)
    with NodeFrame Cons show ?thesis by (simp add: dispatchEvent_def)
  next
    case (DeltaFrame i t)
    then have "logs_agree seen (relay_delta i t r)" using Cons.prems by (intro logs_agree_delta) auto
    with DeltaFrame Cons show ?thesis by (simp add: dispatchEvent_def)
  next
    case (NodeEndFrame i out)
    then have "logs_agree seen (relay_node_end i out r)" using Cons.prems by (intro logs_agree_node_end) auto
    with NodeEndFrame Cons show ?thesis by (simp add: dispatchEvent_def)
  next
    case (UsageFrame p c)
    have "logs_agree seen (r\<lparr>tokenUsage := (p, c)\<rparr>)" using Cons.prems(1) by (rule logs_agree_wrote) simp_all
    with UsageFrame Cons show ?thesis by (simp add: dispatchEvent_def)
  next
    case (MetaFrame i)
    have "logs_agree seen (r\<lparr>runID := i\<rparr>)" using Cons.prems(1) by (rule logs_agree_wrote) simp_all
    with MetaFrame Cons show ?thesis by (simp add: dispatchEvent_def)
  qed (use Cons in \<open>auto simp: dispatchEvent_def\<close>)
qed auto

section \<open>The order of the kept log\<close>

lemma node_of_trace_simps [simp]:
  "node_id (node_of_trace n) = trace_id n" "parent_id (node_of_trace n) = trace_parent n"
  "node_type (node_of_trace n) = kind_of (trace_type n)"
  by (simp_all add: node_of_trace_def)

text \<open>On a log in order no parent is missing and none comes after its children.\<close>

lemma kept_order_tree:
  assumes "kept_order ns"
  shows "parents_first (map node_of_trace ns) \<and> no_orphans (map node_of_trace ns)"
proof -
  let ?ns = "map node_of_trace ns"
  have before: "\<exists>q < k. trace_id (ns ! q) = p" if "k < length ns" "trace_parent (ns ! k) = Some p" for k p
  proof -
    have "p \<in> trace_id ` set (take k ns)" using assms that by (simp add: kept_order_def)
    then obtain q where "q < k" "trace_id (ns ! q) = p" using that(1) by (auto simp: in_set_conv_nth)
    then show ?thesis by blast
  qed
  have "p < k" if k: "k < length ns" and "parent_of ?ns k = Some p" for k p
  proof -
    from parent_of_SomeD [OF that(2)] k have p: "p < length ns" "trace_parent (ns ! k) = Some (trace_id (ns ! p))" by auto
    from before [OF k p(2)] obtain q where "q < k" "trace_id (ns ! q) = trace_id (ns ! p)" by blast
    moreover from this have "q = p"
      using assms p(1) k nth_eq_iff_index_eq [of "map trace_id ns" q p] by (simp add: kept_order_def)
    ultimately show ?thesis by simp
  qed
  then have "parents_first ?ns" by (auto simp: parents_first_def list_all_iff split: option.split)
  moreover have "parent_of ?ns k \<noteq> None" if "k < length ns" "has_parent_id (?ns ! k)" for k
  proof -
    from that obtain p where p: "trace_parent (ns ! k) = Some p" "p \<noteq> []" by (auto simp: has_parent_id_def)
    from before [OF that(1) p(1)] obtain q where "q < k" "trace_id (ns ! q) = p" by blast
    with that(1) have "p \<in> node_id ` set ?ns" by (auto simp: image_image intro: image_eqI [where x = "ns ! q"])
    then have "by_id ?ns p \<noteq> None" by (simp only: by_id_None not_not)
    then show ?thesis using p that(1) by (simp add: parent_of_def)
  qed
  ultimately show ?thesis by (simp add: no_orphans_def)
qed

section \<open>What is written\<close>

text \<open>Before it ends, a relayed run writes progress only, in the client's vocabulary.\<close>

definition relayed :: "turn_event \<Rightarrow> bool" where
  "relayed te \<longleftrightarrow> progress_event te \<and> declared te \<and> (case te of Title _ \<Rightarrow> False | _ \<Rightarrow> True)"

lemma dispatch_relayed:
  "dispatchEvent fr r = Inr r' \<Longrightarrow> list_all relayed (wrote r) \<Longrightarrow> list_all relayed (wrote r')"
  by (auto simp: dispatchEvent_def relay_node_def relay_delta_def relay_node_end_def relayed_def node_of_frame_def Let_def
      split: agent_frame.splits option.splits if_splits)

lemma agent_run_relayed: "list_all relayed (wrote r) \<Longrightarrow> list_all relayed (wrote (snd (agent_run frs ending r)))"
  by (induction frs ending r rule: agent_run.induct) (auto simp: dispatch_relayed split: sum.split)

text \<open>A run of a single node: its text is the reply if the node is a top-level text.\<close>

definition single_reply :: "relay \<Rightarrow> bool" where
  "single_reply r \<longleftrightarrow>
     (run_log r = [] \<longrightarrow> reply r = []) \<and>
     (\<forall>n. run_log r = [n] \<longrightarrow>
        reply r = (if trace_type n = js ''text'' \<and> trace_parent n = None then trace_text n else []))"

lemma single_reply_update:
  assumes "single_reply r" and "k < length (run_log r)" and n: "n = run_log r ! k"
    and log: "run_log r' = (run_log r)[k := n']" and "trace_type n' = trace_type n" "trace_parent n' = trace_parent n"
    and t: "trace_text n' = trace_text n @ t"
    and "reply r' = (if trace_type n = js ''text'' \<and> trace_parent n = None then reply r @ t else reply r)"
  shows "single_reply r'"
proof -
  have "run_log r = [n] \<and> n' = m" if "run_log r' = [m]" for m
  proof -
    have "length (run_log r) = 1" using that log by (metis length_list_update length_Cons list.size(3) One_nat_def)
    then obtain x where x: "run_log r = [x]" by (auto simp: length_Suc_conv)
    with assms(2) have "k = 0" by simp
    with that log x n show ?thesis by simp
  qed
  moreover have "run_log r' \<noteq> []" using assms(2) log by auto
  ultimately show ?thesis using assms(1,5-8) by (auto simp: single_reply_def)
qed

definition in_log :: "relay \<Rightarrow> bool" where
  "in_log r \<longleftrightarrow> (\<forall>i k. byID r i = Some k \<longrightarrow> k < length (run_log r))"

lemma single_reply_cong: "run_log r' = run_log r \<Longrightarrow> reply r' = reply r \<Longrightarrow> single_reply r' = single_reply r"
  by (simp add: single_reply_def)

lemma dispatch_single:
  assumes "dispatchEvent fr r = Inr r'" and r: "single_reply r" and log: "in_log r"
  shows "single_reply r' \<and> in_log r'"
proof (cases fr)
  case (NodeFrame f)
  then have r': "r' = relay_node f r" using assms(1) by (simp add: dispatchEvent_def)
  have "single_reply r'" using r by (auto simp: r' relay_node_def single_reply_def)
  moreover have "in_log r'" using log by (auto simp: r' relay_node_def in_log_def less_Suc_eq)
  ultimately show ?thesis ..
next
  case (DeltaFrame i t)
  then have r': "r' = relay_delta i t r" using assms(1) by (simp add: dispatchEvent_def)
  show ?thesis
  proof (cases "byID r i")
    case None
    with r log show ?thesis by (simp add: r' relay_delta_def in_log_def cong: single_reply_cong)
  next
    case (Some k)
    with log have "k < length (run_log r)" by (simp add: in_log_def)
    from single_reply_update [OF r this refl, of r' "(run_log r ! k)\<lparr>trace_text := trace_text (run_log r ! k) @ t\<rparr>" t]
    show ?thesis using Some log by (simp add: r' relay_delta_def Let_def in_log_def)
  qed
next
  case (NodeEndFrame i out)
  then have r': "r' = relay_node_end i out r" using assms(1) by (simp add: dispatchEvent_def)
  show ?thesis
  proof (cases "byID r i")
    case None
    with r log show ?thesis by (simp add: r' relay_node_end_def in_log_def cong: single_reply_cong)
  next
    case (Some k)
    with log have "k < length (run_log r)" by (simp add: in_log_def)
    from single_reply_update [OF r this refl, of r' "(run_log r ! k)\<lparr>trace_output := out\<rparr>" "[]"]
    show ?thesis using Some log by (simp add: r' relay_node_end_def Let_def in_log_def split: option.split)
  qed
qed (use assms in \<open>auto simp: dispatchEvent_def in_log_def cong: single_reply_cong\<close>)

lemma agent_run_single: "single_reply r \<Longrightarrow> in_log r \<Longrightarrow> single_reply (snd (agent_run frs ending r))"
  by (induction frs ending r rule: agent_run.induct) (auto dest: dispatch_single split: sum.split)

section \<open>Properties\<close>

text \<open>
  C3: Whatever order a run's events come in, as long as each tool run starts once, the frames of the
  agent reach the client and the database as the same log: the nodes the client builds from the
  frames that the API writes are the nodes the API keeps. The timeline shows each of them exactly once,
  and the text of the reply is what it shows at its top level. This holds for the frames received
  at any moment, whether the run goes on, fails or is cut off.
\<close>

theorem streamed_log_is_kept_log:
  assumes "distinct (tool_runs es)" and "\<And>r. r \<in> set (tool_runs es) \<Longrightarrow> 0x3A \<notin> set r"
    and "prefix frs (gen tracing es failed)"
  shows "let r = snd (agent_run frs ending relay_start); ns = map node_of_trace (run_log r) in
     turn_nodes (wrote r) = ns \<and>
     (\<exists>ts. buildTree ns = Some ts \<and> mset (concat (map preorder ts)) = mset ns \<and>
        answerText ns = join [0xA, 0xA] (map trim (top_texts (timeline u False ts))))"
proof -
  from assms(3) obtain rest where "gen tracing es failed = frs @ rest" by (auto simp: prefix_def)
  with gen_in_order [OF assms(1,2), of tracing failed] have frs: "in_order {} frs" by (simp add: in_order_append)
  let ?r = "snd (agent_run frs ending relay_start)" and ?ns = "map node_of_trace (run_log (snd (agent_run frs ending relay_start)))"
  from logs_agree_run [OF logs_agree_start frs, of ending] have agree: "turn_nodes (wrote ?r) = ?ns" and "kept_order (run_log ?r)"
    by (auto simp: logs_agree_def)
  then have tree: "parents_first ?ns" "no_orphans ?ns" using kept_order_tree by blast+
  obtain ts where ts: "buildTree ?ns = Some ts" using buildTree_total by blast
  show ?thesis
    unfolding Let_def using agree ts buildTree_complete [OF tree(1) ts] top_texts_copied [OF tree(2) ts] by blast
qed

text \<open>A subagent with a search in it, then the answer; the connection breaks before the search ends.\<close>

definition demo_lc :: "etype \<Rightarrow> string \<Rightarrow> string list \<Rightarrow> string \<Rightarrow> lc_event" where
  "demo_lc k r ps t = \<lparr>etype_of = k, run_id = Some (js r), parent_ids = map js ps, summarizing = False,
     summary_id = JNull, reasoning_piece = [], content_piece = js t, tool_name = js ''search'', tool_input = JNull,
     tool_output = PlainValue JNull, tokens = (1, 2, 3, 0)\<rparr>"

definition demo_run :: "lc_event list" where
  "demo_run = [demo_lc ModelStream ''m'' [] ''Hel'', demo_lc ToolStart ''t'' [''m''] [],
     demo_lc ToolStart ''s'' [''m'', ''t''] [], demo_lc ToolEnd ''s'' [''m'', ''t''] [],
     demo_lc ModelStream ''m'' [] ''lo'']"

theorem streamed_log_is_kept_log_witness:
  "let r = snd (agent_run (take 4 (gen True demo_run False)) (Some []) relay_start) in
   turn_nodes (wrote r) = map node_of_trace (run_log r) \<and> length (run_log r) = 3"
proof -
  have runs: "tool_runs demo_run = [js ''t'', js ''s'']" by code_simp
  have "distinct (tool_runs demo_run)" by (simp add: runs js_text)
  moreover have "0x3A \<notin> set r" if "r \<in> set (tool_runs demo_run)" for r
    using that by (auto simp: runs js_text)
  moreover have "prefix (take 4 (gen True demo_run False)) (gen True demo_run False)" by (rule take_is_prefix)
  ultimately have "turn_nodes (wrote (snd (agent_run (take 4 (gen True demo_run False)) (Some []) relay_start))) =
      map node_of_trace (run_log (snd (agent_run (take 4 (gen True demo_run False)) (Some []) relay_start)))"
    by (rule streamed_log_is_kept_log [of demo_run, unfolded Let_def, THEN conjunct1])
  moreover have "length (run_log (snd (agent_run (take 4 (gen True demo_run False)) (Some []) relay_start))) = 3"
    by code_simp
  ultimately show ?thesis by (simp add: Let_def)
qed

end
