(* ===== verification/ChatApi.thy ===== *)
theory ChatApi
  imports Relay
begin

text \<open>
  The handlers of \<open>api/chat.go\<close> over the tables of \<open>api/migrations\<close>: conversations, messages, votes
  and the two ledgers. A query is a step on the tables or fails; which ones fail is an argument, and
  so are the clock, the users' addresses and the hash of the ledger. \<open>Send\<close> is two functions, up to
  the run and from its end, between which other requests may be served. The lemmas show what the
  agent is given, that the ids are as the client expects them, and that a user's requests touch and
  show nothing of another user.
\<close>

section \<open>Tables\<close>

record conversation_row =
  cid :: int
  cv_user :: int
  cv_title :: "jstring option"
  cv_created :: int
  cv_updated :: int
  cv_summary :: "jstring option"
  watermark :: "int option"

record stored_message =
  mid :: int
  m_conversation :: int
  m_role :: jstring
  m_content :: jstring
  m_created :: int
  m_trace :: "traceNode list option"
  m_run_id :: "jstring option"

text \<open>The two sequences are the ids given last; a vote is kept under its message and its user.\<close>

record database =
  conversations_table :: "conversation_row list"
  messages_table :: "stored_message list"
  message_feedback :: "(int \<times> int) \<rightharpoonup> int"
  token_usage :: "(int \<times> nat \<times> nat) list"
  usage_marks :: "(jstring \<times> int) list"
  last_cid :: int
  last_mid :: int

datatype query =
    OwnsQuery | ListQuery | CreateQuery | MessagesQuery | RenameQuery | DeleteQuery | EmailQuery | MarksQuery
  | InsertUser | SummaryQuery | HistoryQuery | Flusher | InsertReply | TouchQuery | SummaryUpdate | UsageInsert
  | MarkInsert | TitleUpdate | ScanRow | RunIdQuery | FeedbackUpsert | FeedbackDelete

text \<open>
  \<open>Chat\<close>, with the outside world as a request finds it: \<open>hash_of\<close> is \<open>subjectHash\<close> of the canonical
  address, \<open>jsonb\<close> what a JSON value becomes in a column of that type, \<open>time_text\<close> a time in JSON.
\<close>

record chat_server =
  fails :: "query \<Rightarrow> bool"
  runsBudget :: nat
  ownerEmail :: jstring
  email_of :: "int \<Rightarrow> jstring option"
  hash_of :: "jstring \<Rightarrow> jstring"
  clock :: int
  time_text :: "int \<Rightarrow> jstring"
  jsonb :: "json \<Rightarrow> json"

text \<open>A request body as \<open>decodeJSON\<close> finds it.\<close>

datatype 'a body = TooLarge | Malformed | Decoded 'a

datatype api_answer =
    Refused nat jstring
  | ConversationList "conversation_row list"
  | Created conversation_row
  | MessageList "ChatMessage list"
  | NoContent

definition refuse :: "nat \<Rightarrow> string \<Rightarrow> api_answer" where
  "refuse code t = Refused code (js t)"

definition decodeJSON :: "'a body \<Rightarrow> api_answer + 'a" where
  "decodeJSON b =
     (case b of
        TooLarge \<Rightarrow> Inl (refuse 413 ''request too large'')
      | Malformed \<Rightarrow> Inl (refuse 400 ''invalid body'')
      | Decoded v \<Rightarrow> Inr v)"

section \<open>Conversations\<close>

definition owned :: "database \<Rightarrow> int \<Rightarrow> int \<Rightarrow> bool" where
  "owned db i u \<longleftrightarrow> list_ex (\<lambda>c. cid c = i \<and> cv_user c = u) (conversations_table db)"

text \<open>\<open>ownsConversation\<close>: the answer it has written when it is not the caller's.\<close>

definition ownsConversation :: "chat_server \<Rightarrow> int \<Rightarrow> int \<Rightarrow> database \<Rightarrow> api_answer option" where
  "ownsConversation S i u db =
     (if fails S OwnsQuery then Some (refuse 500 ''lookup failed'')
      else if owned db i u then None else Some (refuse 404 ''conversation not found''))"

definition List_conversations :: "chat_server \<Rightarrow> int \<Rightarrow> database \<Rightarrow> api_answer" where
  "List_conversations S u db =
     (if fails S ListQuery then refuse 500 ''could not list conversations''
      else if fails S ScanRow \<and> list_ex (\<lambda>c. cv_user c = u) (conversations_table db) then refuse 500 ''scan failed''
      else ConversationList (sort_key (\<lambda>c. - cv_updated c) (filter (\<lambda>c. cv_user c = u) (conversations_table db))))"

definition Create :: "chat_server \<Rightarrow> int \<Rightarrow> database \<Rightarrow> api_answer \<times> database" where
  "Create S u db =
     (if fails S CreateQuery then (refuse 500 ''could not create conversation'', db)
      else
        let c = \<lparr>cid = last_cid db + 1, cv_user = u, cv_title = None, cv_created = clock S, cv_updated = clock S,
                 cv_summary = None, watermark = None\<rparr>
        in (Created c, db\<lparr>conversations_table := conversations_table db @ [c], last_cid := cid c\<rparr>))"

text \<open>\<open>conversationID\<close> is the id in the path, \<open>None\<close> when it is not a number.\<close>

definition Rename :: "chat_server \<Rightarrow> int \<Rightarrow> int option \<Rightarrow> jstring body \<Rightarrow> database \<Rightarrow> api_answer \<times> database" where
  "Rename S u path b db =
     (case path of
        None \<Rightarrow> (refuse 400 ''invalid conversation id'', db)
      | Some i \<Rightarrow>
          (case decodeJSON b of
             Inl a \<Rightarrow> (a, db)
           | Inr t \<Rightarrow>
               if t = [] then (refuse 400 ''title required'', db)
               else if fails S RenameQuery then (refuse 500 ''update failed'', db)
               else if \<not> owned db i u then (refuse 404 ''conversation not found'', db)
               else (NoContent,
                     db\<lparr>conversations_table :=
                          map (\<lambda>c. if cid c = i \<and> cv_user c = u then c\<lparr>cv_title := Some t\<rparr> else c) (conversations_table db)\<rparr>)))"

text \<open>Messages and votes go with their conversation.\<close>

definition Delete :: "chat_server \<Rightarrow> int \<Rightarrow> int option \<Rightarrow> database \<Rightarrow> api_answer \<times> database" where
  "Delete S u path db =
     (case path of
        None \<Rightarrow> (refuse 400 ''invalid conversation id'', db)
      | Some i \<Rightarrow>
          if fails S DeleteQuery then (refuse 500 ''delete failed'', db)
          else if \<not> owned db i u then (refuse 404 ''conversation not found'', db)
          else
            let gone = mid ` set (filter (\<lambda>m. m_conversation m = i) (messages_table db))
            in (NoContent,
                db\<lparr>conversations_table := filter (\<lambda>c. \<not> (cid c = i \<and> cv_user c = u)) (conversations_table db),
                   messages_table := filter (\<lambda>m. m_conversation m \<noteq> i) (messages_table db),
                   message_feedback := (\<lambda>k. if fst k \<in> gone then None else message_feedback db k)\<rparr>))"

section \<open>Messages\<close>

definition rows_of :: "database \<Rightarrow> int \<Rightarrow> stored_message list" where
  "rows_of db i = sort_key mid (filter (\<lambda>m. m_conversation m = i) (messages_table db))"

definition stored_node :: "chat_server \<Rightarrow> traceNode \<Rightarrow> traceNode" where
  "stored_node S n = n\<lparr>trace_input := map_option (jsonb S) (trace_input n),
     trace_output := map_option (jsonb S) (trace_output n)\<rparr>"

text \<open>A row and the caller's vote, as the \<open>ChatMessage\<close> that the JSON of \<open>message\<close> is for the client.\<close>

definition message_of :: "chat_server \<Rightarrow> int \<Rightarrow> database \<Rightarrow> stored_message \<Rightarrow> ChatMessage" where
  "message_of S u db m =
     \<lparr>msg_id = mid m, role = m_role m, content = m_content m, created_at = time_text S (m_created m),
      trace = map_option (\<lambda>ns. \<lparr>version = 2, trace_nodes = map (node_of_trace \<circ> stored_node S) ns\<rparr>) (m_trace m),
      feedback = message_feedback db (mid m, u), streaming = False, nodes = None\<rparr>"

definition Messages :: "chat_server \<Rightarrow> int \<Rightarrow> int option \<Rightarrow> database \<Rightarrow> api_answer" where
  "Messages S u path db =
     (case path of
        None \<Rightarrow> refuse 400 ''invalid conversation id''
      | Some i \<Rightarrow>
          (case ownsConversation S i u db of
             Some a \<Rightarrow> a
           | None \<Rightarrow>
               if fails S MessagesQuery then refuse 500 ''could not load messages''
               else if fails S ScanRow \<and> rows_of db i \<noteq> [] then refuse 500 ''scan failed''
               else MessageList (map (message_of S u db) (rows_of db i))))"

definition insert_message ::
  "chat_server \<Rightarrow> int \<Rightarrow> jstring \<Rightarrow> jstring \<Rightarrow> traceNode list option \<Rightarrow> jstring option \<Rightarrow> database \<Rightarrow> database" where
  "insert_message S i r c tr rid db =
     db\<lparr>messages_table := messages_table db @
           [\<lparr>mid = last_mid db + 1, m_conversation = i, m_role = r, m_content = c, m_created = clock S,
             m_trace = tr, m_run_id = rid\<rparr>],
        last_mid := last_mid db + 1\<rparr>"

section \<open>Send, up to the run\<close>

record llmMessage =
  llm_id :: jstring
  llm_role :: jstring
  llm_content :: jstring

definition maxMessageChars :: nat where
  "maxMessageChars = 8000"

text \<open>\<open>utf8.RuneCountInString\<close>: a surrogate pair is one rune; a decoded body has no lone surrogates.\<close>

definition rune_count :: "jstring \<Rightarrow> nat" where
  "rune_count s = length (filter (\<lambda>c. \<not> is_low c) s)"

definition summaryFrame :: jstring where
  "summaryFrame = js ''Here is a summary of the earlier conversation so far:'' @ [0xA, 0xA]"

definition budgetWindow :: int where
  "budgetWindow = 24 * 60 * 60 * 1000000"

definition countMarks :: "jstring \<Rightarrow> int \<Rightarrow> database \<Rightarrow> nat" where
  "countMarks subject since db = length (filter (\<lambda>(s, t). s = subject \<and> since < t) (usage_marks db))"

definition history :: "database \<Rightarrow> int \<Rightarrow> int option \<Rightarrow> llmMessage list" where
  "history db i w =
     map (\<lambda>m. \<lparr>llm_id = int_str (mid m), llm_role = m_role m, llm_content = m_content m\<rparr>)
       (filter (\<lambda>m. case w of None \<Rightarrow> True | Some x \<Rightarrow> x < mid m) (rows_of db i))"

definition conversation_of :: "database \<Rightarrow> int \<Rightarrow> conversation_row option" where
  "conversation_of db i = find (\<lambda>c. cid c = i) (conversations_table db)"

text \<open>The messages for the agent, and whether the user's is the first of its conversation.\<close>

definition assemble :: "database \<Rightarrow> int \<Rightarrow> llmMessage list \<times> bool" where
  "assemble db i =
     (let c = conversation_of db i;
          summary = (case c of Some r \<Rightarrow> cv_summary r | None \<Rightarrow> None);
          w = (case c of Some r \<Rightarrow> watermark r | None \<Rightarrow> None);
          rows = history db i w
      in ((case (summary, w) of
             (Some s, Some _) \<Rightarrow> [\<lparr>llm_id = [], llm_role = js ''user'', llm_content = summaryFrame @ s\<rparr>]
           | _ \<Rightarrow> []) @ rows,
          w = None \<and> length rows = 1))"

definition over_budget :: "chat_server \<Rightarrow> jstring \<Rightarrow> database \<Rightarrow> bool" where
  "over_budget S addr db \<longleftrightarrow> runsBudget S \<le> countMarks (hash_of S addr) (clock S - budgetWindow) db"

definition is_owner :: "chat_server \<Rightarrow> jstring \<Rightarrow> bool" where
  "is_owner S addr \<longleftrightarrow> ownerEmail S \<noteq> [] \<and> addr = ownerEmail S"

definition Send_begin ::
  "chat_server \<Rightarrow> int \<Rightarrow> int option \<Rightarrow> jstring body \<Rightarrow> database \<Rightarrow> (api_answer + llmMessage list \<times> bool) \<times> database" where
  "Send_begin S u path b db =
     (case path of
        None \<Rightarrow> (Inl (refuse 400 ''invalid conversation id''), db)
      | Some i \<Rightarrow>
          (case ownsConversation S i u db of
             Some a \<Rightarrow> (Inl a, db)
           | None \<Rightarrow>
               (case decodeJSON b of
                  Inl a \<Rightarrow> (Inl a, db)
                | Inr c \<Rightarrow>
                    if c = [] then (Inl (refuse 400 ''content required''), db)
                    else if maxMessageChars < rune_count c
                    then (Inl (refuse 400 ''message too long (max 8000 characters)''), db)
                    else
                      (case (if fails S EmailQuery then None else email_of S u) of
                         None \<Rightarrow> (Inl (refuse 500 ''usage check failed''), db)
                       | Some addr \<Rightarrow>
                           if \<not> is_owner S addr \<and> fails S MarksQuery then (Inl (refuse 500 ''usage check failed''), db)
                           else if \<not> is_owner S addr \<and> over_budget S addr db
                           then (Inl (refuse 429 ''daily run limit exceeded''), db)
                           else if fails S InsertUser then (Inl (refuse 500 ''could not save message''), db)
                           else
                             let db1 = insert_message S i (js ''user'') c None None db in
                             if fails S SummaryQuery then (Inl (refuse 500 ''could not load conversation''), db1)
                             else if fails S HistoryQuery then (Inl (refuse 500 ''could not load history''), db1)
                             else if fails S ScanRow then (Inl (refuse 500 ''scan failed''), db1)
                             else if fails S Flusher then (Inl (refuse 500 ''streaming unsupported''), db1)
                             else (Inr (assemble db1 i), db1)))))"

section \<open>Send, from the end of the run\<close>

text \<open>\<open>unicode.IsSpace\<close>, \<open>strings.Fields\<close> and \<open>firstWords\<close>.\<close>

definition IsSpace :: "jschar \<Rightarrow> bool" where
  "IsSpace c \<longleftrightarrow>
     (0x9 \<le> c \<and> c \<le> 0xD) \<or> c \<in> {0x20, 0x85, 0xA0, 0x1680, 0x2028, 0x2029, 0x202F, 0x205F, 0x3000} \<or>
     (0x2000 \<le> c \<and> c \<le> 0x200A)"

function Fields :: "jstring \<Rightarrow> jstring list" where
  "Fields s =
     (let t = dropWhile IsSpace s in
      if t = [] then [] else takeWhile (\<lambda>c. \<not> IsSpace c) t # Fields (dropWhile (\<lambda>c. \<not> IsSpace c) t))"
  by pat_completeness auto

termination
proof (relation "measure length")
  fix s t assume t: "t = dropWhile IsSpace s" "t \<noteq> []"
  then have "\<not> IsSpace (hd t)" using hd_dropWhile by blast
  with t(2) have "length (dropWhile (\<lambda>c. \<not> IsSpace c) t) < length t"
    by (cases t) (auto intro: le_imp_less_Suc length_dropWhile_le)
  also have "\<dots> \<le> length s" by (simp add: t length_dropWhile_le)
  finally show "(dropWhile (\<lambda>c. \<not> IsSpace c) t, s) \<in> measure length" by simp
qed simp

declare Fields.simps [simp del]

definition firstWords :: "jstring \<Rightarrow> nat \<Rightarrow> jstring" where
  "firstWords s n = join [0x20] (take n (Fields s))"

text \<open>The updates after the reply is stored; their failures are logged and ignored.\<close>

definition unless_fails :: "chat_server \<Rightarrow> query \<Rightarrow> (database \<Rightarrow> database) \<Rightarrow> database \<Rightarrow> database" where
  "unless_fails S q f db = (if fails S q then db else f db)"

definition update_conversation :: "int \<Rightarrow> (conversation_row \<Rightarrow> conversation_row) \<Rightarrow> database \<Rightarrow> database" where
  "update_conversation i f db = db\<lparr>conversations_table := patch_by cid i f (conversations_table db)\<rparr>"

definition recordUsage :: "int \<Rightarrow> nat \<times> nat \<Rightarrow> database \<Rightarrow> database" where
  "recordUsage u usage db = db\<lparr>token_usage := token_usage db @ [(u, usage)]\<rparr>"

definition recordMark :: "chat_server \<Rightarrow> jstring \<Rightarrow> database \<Rightarrow> database" where
  "recordMark S subject db =
     db\<lparr>usage_marks := filter (\<lambda>(s, t). \<not> (s = subject \<and> t < clock S - budgetWindow))
                          (usage_marks db @ [(subject, clock S)])\<rparr>"

text \<open>What follows the insert of the reply: activity time, summary, ledgers.\<close>

definition after_reply :: "chat_server \<Rightarrow> int \<Rightarrow> jstring \<Rightarrow> int \<Rightarrow> relay \<Rightarrow> database \<Rightarrow> database" where
  "after_reply S u subject i r db1 =
     (let db2 = unless_fails S TouchQuery (update_conversation i (\<lambda>v. v\<lparr>cv_updated := clock S\<rparr>)) db1;
          db3 = (case summaryThroughID r of
                   None \<Rightarrow> db2
                 | Some w \<Rightarrow> if w \<notin> mid ` set (messages_table db2) then db2
                     else unless_fails S SummaryUpdate
                       (update_conversation i (\<lambda>v. v\<lparr>cv_summary := Some (summaryText r), watermark := Some w\<rparr>)) db2);
          db4 = unless_fails S UsageInsert (recordUsage u (tokenUsage r)) db3
      in unless_fails S MarkInsert (recordMark S subject) db4)"

text \<open>
  \<open>subject\<close> is the hash computed before the run. An insert into a conversation that is gone violates
  its foreign key, and so does a watermark that is no message. The answer is the list of frames.
\<close>

definition Send_finish ::
  "chat_server \<Rightarrow> int \<Rightarrow> jstring \<Rightarrow> int \<Rightarrow> jstring \<Rightarrow> bool \<Rightarrow> agent_frame list \<Rightarrow> jstring option \<Rightarrow> database \<Rightarrow>
   turn_event list \<times> database" where
  "Send_finish S u subject i c firstMessage frames ending db =
     (let (err, r) = agent_run frames ending relay_start in
      case err of
        Some _ \<Rightarrow> (wrote r @ [Error (js ''stream failed'')], db)
      | None \<Rightarrow>
          if fails S InsertReply \<or> conversation_of db i = None
          then (wrote r @ [Error (js ''could not save reply'')], db)
          else
            let db1 = insert_message S i (js ''assistant'') (reply r)
                        (if nonTrivial (run_log r) then Some (run_log r) else None) (omitempty (runID r)) db;
                db5 = after_reply S u subject i r db1;
                title = firstWords c 5
            in if firstMessage
               then (wrote r @ [Done (last_mid db1), Title title],
                     unless_fails S TitleUpdate (update_conversation i (\<lambda>v. v\<lparr>cv_title := Some title\<rparr>)) db5)
               else (wrote r @ [Done (last_mid db1)], db5))"

section \<open>Votes\<close>

definition maxFeedbackChars :: nat where
  "maxFeedbackChars = 2000"

text \<open>\<open>messageRunID\<close>: the message's run, or the answer when it is not in a conversation of the caller.\<close>

definition messageRunID :: "chat_server \<Rightarrow> int \<Rightarrow> int \<Rightarrow> database \<Rightarrow> api_answer + jstring option" where
  "messageRunID S m u db =
     (if fails S RunIdQuery then Inl (refuse 500 ''lookup failed'')
      else case find (\<lambda>r. mid r = m \<and> owned db (m_conversation r) u) (messages_table db) of
             None \<Rightarrow> Inl (refuse 404 ''message not found'')
           | Some r \<Rightarrow> Inr (m_run_id r))"

text \<open>The body is a rating and a comment. The mirror to LangSmith is told afterwards and not waited for.\<close>

definition Feedback :: "chat_server \<Rightarrow> int \<Rightarrow> int option \<Rightarrow> (int \<times> jstring) body \<Rightarrow> database \<Rightarrow> api_answer \<times> database" where
  "Feedback S u path b db =
     (case path of
        None \<Rightarrow> (refuse 400 ''invalid message id'', db)
      | Some m \<Rightarrow>
          (case decodeJSON b of
             Inl a \<Rightarrow> (a, db)
           | Inr (score, comment) \<Rightarrow>
               if score \<noteq> - 1 \<and> score \<noteq> 1 then (refuse 400 ''rating must be -1 or 1'', db)
               else if maxFeedbackChars < rune_count comment
               then (refuse 400 ''comment too long (max 2000 characters)'', db)
               else
                 (case messageRunID S m u db of
                    Inl a \<Rightarrow> (a, db)
                  | Inr rid \<Rightarrow>
                      if fails S FeedbackUpsert then (refuse 500 ''feedback failed'', db)
                      else (NoContent, db\<lparr>message_feedback := (message_feedback db)((m, u) \<mapsto> score)\<rparr>))))"

definition ClearFeedback :: "chat_server \<Rightarrow> int \<Rightarrow> int option \<Rightarrow> database \<Rightarrow> api_answer \<times> database" where
  "ClearFeedback S u path db =
     (case path of
        None \<Rightarrow> (refuse 400 ''invalid message id'', db)
      | Some m \<Rightarrow>
          (case messageRunID S m u db of
             Inl a \<Rightarrow> (a, db)
           | Inr rid \<Rightarrow>
               if fails S FeedbackDelete then (refuse 500 ''clear failed'', db)
               else (NoContent, db\<lparr>message_feedback := (message_feedback db)((m, u) := None)\<rparr>)))"

section \<open>Requests\<close>

text \<open>A request of a user; \<open>FinishSend\<close> is the rest of a \<open>BeginSend\<close> once its run has ended.\<close>

datatype api_request =
    ListAll
  | CreateOne
  | GetMessages "int option"
  | RenameOne "int option" "jstring body"
  | DeleteOne "int option"
  | BeginSend "int option" "jstring body"
  | FinishSend jstring int jstring bool "agent_frame list" "jstring option"
  | PutFeedback "int option" "(int \<times> jstring) body"
  | DropFeedback "int option"

datatype api_response = Answer api_answer | Run "llmMessage list" bool | Stream "turn_event list"

fun api_step :: "chat_server \<Rightarrow> int \<Rightarrow> api_request \<Rightarrow> database \<Rightarrow> api_response \<times> database" where
  "api_step S u ListAll db = (Answer (List_conversations S u db), db)"
| "api_step S u CreateOne db = map_prod Answer id (Create S u db)"
| "api_step S u (GetMessages p) db = (Answer (Messages S u p db), db)"
| "api_step S u (RenameOne p b) db = map_prod Answer id (Rename S u p b db)"
| "api_step S u (DeleteOne p) db = map_prod Answer id (Delete S u p db)"
| "api_step S u (BeginSend p b) db =
     map_prod (\<lambda>r. case r of Inl a \<Rightarrow> Answer a | Inr (ms, first) \<Rightarrow> Run ms first) id (Send_begin S u p b db)"
| "api_step S u (FinishSend subject i c first frs ending) db =
     map_prod Stream id (Send_finish S u subject i c first frs ending db)"
| "api_step S u (PutFeedback p b) db = map_prod Answer id (Feedback S u p b db)"
| "api_step S u (DropFeedback p) db = map_prod Answer id (ClearFeedback S u p db)"

end
