(* ===== verification/ApiContract.thy ===== *)
theory ApiContract
  imports ChatApi
begin

text \<open>
  What the API promises its clients: ids that fit the store of the client, a run that is given
  exactly the conversation, nothing of one user for another, and a daily budget.
\<close>

section \<open>Ids\<close>

text \<open>Both sequences only rise, every message has its conversation, a watermark is not ahead of the messages.\<close>

definition db_ok :: "database \<Rightarrow> bool" where
  "db_ok db \<longleftrightarrow>
     sorted_wrt (<) (map mid (messages_table db)) \<and> sorted_wrt (<) (map cid (conversations_table db)) \<and>
     (\<forall>m \<in> set (messages_table db). 0 < mid m \<and> mid m \<le> last_mid db \<and> m_conversation m \<in> cid ` set (conversations_table db)) \<and>
     (\<forall>c \<in> set (conversations_table db). 0 < cid c \<and> cid c \<le> last_cid db \<and>
        (\<forall>w. watermark c = Some w \<longrightarrow> w \<le> last_mid db)) \<and>
     0 \<le> last_mid db \<and> 0 \<le> last_cid db"

definition empty_db :: database where
  "empty_db = \<lparr>conversations_table = [], messages_table = [], message_feedback = Map.empty, token_usage = [],
     usage_marks = [], last_cid = 0, last_mid = 0\<rparr>"

lemma db_ok_empty: "db_ok empty_db"
  by (simp add: db_ok_def empty_db_def)

lemma owned_iff: "owned db i u \<longleftrightarrow> (\<exists>c \<in> set (conversations_table db). cid c = i \<and> cv_user c = u)"
  by (auto simp: owned_def list_ex_iff)

lemma conversation_of_Some:
  "conversation_of db i = Some c \<Longrightarrow> c \<in> set (conversations_table db) \<and> cid c = i"
  by (auto simp: conversation_of_def find_Some_iff in_set_conv_nth)

lemma conversation_of_None: "conversation_of db i = None \<longleftrightarrow> i \<notin> cid ` set (conversations_table db)"
  by (auto simp: conversation_of_def find_None_iff)

lemma insert_message_ok:
  assumes "db_ok db" and "i \<in> cid ` set (conversations_table db)"
  shows "db_ok (insert_message S i r c tr rid db)"
  using assms
  by (fastforce simp: db_ok_def insert_message_def sorted_wrt_append split: option.splits)

lemma map_conversations_ok:
  assumes ok: "db_ok db" and ids: "\<And>v. cid (f v) = cid v"
    and marks: "\<And>v w. watermark (f v) = Some w \<Longrightarrow> watermark v = Some w \<or> w \<le> last_mid db"
  shows "db_ok (db\<lparr>conversations_table := map f (conversations_table db)\<rparr>)"
proof -
  have "cid \<circ> f = cid" using ids by auto
  then have same: "map cid (map f (conversations_table db)) = map cid (conversations_table db)" by simp
  then have "cid ` set (map f (conversations_table db)) = cid ` set (conversations_table db)" by (metis image_set)
  moreover have "0 < cid (f v) \<and> cid (f v) \<le> last_cid db \<and> (\<forall>w. watermark (f v) = Some w \<longrightarrow> w \<le> last_mid db)"
    if "v \<in> set (conversations_table db)" for v
    using that ok ids [of v] marks [of v] unfolding db_ok_def by metis
  ultimately show ?thesis using ok same unfolding db_ok_def by (simp del: map_map set_map) auto
qed

lemma update_conversation_ok:
  assumes "db_ok db" and "\<And>v. cid (f v) = cid v"
    and "\<And>v w. watermark (f v) = Some w \<Longrightarrow> watermark v = Some w \<or> w \<le> last_mid db"
  shows "db_ok (update_conversation i f db)"
  unfolding update_conversation_def patch_by_def using assms by (intro map_conversations_ok) (auto split: if_splits)

lemma db_ok_cong:
  assumes "db_ok db" and "messages_table db' = messages_table db" "conversations_table db' = conversations_table db"
    "last_mid db' = last_mid db" "last_cid db' = last_cid db"
  shows "db_ok db'"
  using assms by (simp add: db_ok_def)

lemma unless_fails_ok: "db_ok db \<Longrightarrow> db_ok (f db) \<Longrightarrow> db_ok (unless_fails S q f db)"
  by (simp add: unless_fails_def)

lemma recordings_ok: "db_ok db \<Longrightarrow> db_ok (recordUsage u x db)" "db_ok db \<Longrightarrow> db_ok (recordMark S s db)"
  by (rule db_ok_cong; simp add: recordUsage_def recordMark_def)+

lemma after_reply_ok:
  assumes "db_ok db"
  shows "db_ok (after_reply S u subject i r db)"
proof -
  define db2 where "db2 = unless_fails S TouchQuery (update_conversation i (\<lambda>v. v\<lparr>cv_updated := clock S\<rparr>)) db"
  have 2: "db_ok db2" unfolding db2_def using assms by (intro unless_fails_ok update_conversation_ok) auto
  define db3 where "db3 = (case summaryThroughID r of None \<Rightarrow> db2
    | Some w \<Rightarrow> if w \<notin> mid ` set (messages_table db2) then db2 else unless_fails S SummaryUpdate
        (update_conversation i (\<lambda>v. v\<lparr>cv_summary := Some (summaryText r), watermark := Some w\<rparr>)) db2)"
  have "db_ok (update_conversation i (\<lambda>v. v\<lparr>cv_summary := Some (summaryText r), watermark := Some w\<rparr>) db2)"
    if "w \<in> mid ` set (messages_table db2)" for w
    using that 2 by (intro update_conversation_ok [OF 2]) (auto simp: db_ok_def)
  then have "db_ok db3" using 2 by (simp add: db3_def unless_fails_ok split: option.split)
  then have "db_ok (unless_fails S MarkInsert (recordMark S subject) (unless_fails S UsageInsert (recordUsage u (tokenUsage r)) db3))"
    by (intro unless_fails_ok recordings_ok)
  then show ?thesis unfolding after_reply_def Let_def db3_def db2_def .
qed

lemma Send_finish_ok:
  assumes "db_ok db"
  shows "db_ok (snd (Send_finish S u subject i c first frs ending db))"
proof -
  have "db_ok (insert_message S i (js ''assistant'') t tr rid db)" if "conversation_of db i \<noteq> None" for t tr rid
    using insert_message_ok [OF assms] that by (simp add: conversation_of_None)
  then show ?thesis
    using assms by (auto simp: Send_finish_def Let_def after_reply_ok intro!: unless_fails_ok update_conversation_ok
        split: option.split prod.split)
qed

lemma Send_begin_ok: "db_ok db \<Longrightarrow> db_ok (snd (Send_begin S u p b db))"
proof -
  assume ok: "db_ok db"
  have "db_ok (insert_message S i r c tr rid db)" if "ownsConversation S i u db = None" for i r c tr rid
    using that ok by (intro insert_message_ok) (auto simp: ownsConversation_def owned_iff split: if_splits)
  with ok show ?thesis
    by (auto simp: Send_begin_def Let_def split: option.split sum.split)
qed

lemma Delete_ok: "db_ok db \<Longrightarrow> db_ok (snd (Delete S u p db))"
proof -
  assume ok: "db_ok db"
  have "sorted_wrt (<) (map mid (filter P xs))" if "sorted_wrt (<) (map mid xs)" for P xs
    using that by (simp add: sorted_wrt_map sorted_wrt_filter)
  moreover have "sorted_wrt (<) (map cid (filter P xs))" if "sorted_wrt (<) (map cid xs)" for P xs
    using that by (simp add: sorted_wrt_map sorted_wrt_filter)
  ultimately show ?thesis using ok by (auto simp: Delete_def db_ok_def Let_def split: option.split)
qed

lemma Create_ok: "db_ok db \<Longrightarrow> db_ok (snd (Create S u db))"
  by (fastforce simp: db_ok_def Create_def Let_def sorted_wrt_append)

lemma api_step_ok: "db_ok db \<Longrightarrow> db_ok (snd (api_step S u rq db))"
proof (cases rq)
  case (RenameOne p b)
  moreover assume ok: "db_ok db"
  moreover have "db_ok (db\<lparr>conversations_table := map (\<lambda>c. if cid c = i \<and> cv_user c = u then c\<lparr>cv_title := Some t\<rparr> else c) (conversations_table db)\<rparr>)" for i t
    using ok by (intro map_conversations_ok) (auto split: if_splits)
  ultimately show ?thesis by (auto simp: Rename_def split: option.split sum.split)
next
  case (PutFeedback p b)
  moreover assume "db_ok db"
  ultimately show ?thesis
    by (auto simp: Feedback_def split: option.split sum.split elim: db_ok_cong)
next
  case (DropFeedback p)
  moreover assume "db_ok db"
  ultimately show ?thesis
    by (auto simp: ClearFeedback_def split: option.split sum.split elim: db_ok_cong)
qed (simp_all add: Create_ok Delete_ok Send_begin_ok Send_finish_ok)

text \<open>No vote is for a message that is still to come.\<close>

definition votes_ok :: "database \<Rightarrow> bool" where
  "votes_ok db \<longleftrightarrow> (\<forall>m v r. message_feedback db (m, v) = Some r \<longrightarrow> m \<le> last_mid db)"

lemma table_updates [simp]:
  "messages_table (update_conversation i f db) = messages_table db"
  "message_feedback (update_conversation i f db) = message_feedback db"
  "last_mid (update_conversation i f db) = last_mid db"
  "messages_table (recordUsage u x db) = messages_table db" "message_feedback (recordUsage u x db) = message_feedback db"
  "last_mid (recordUsage u x db) = last_mid db"
  "messages_table (recordMark S s db) = messages_table db" "message_feedback (recordMark S s db) = message_feedback db"
  "last_mid (recordMark S s db) = last_mid db"
  "message_feedback (insert_message S i r c tr rid db) = message_feedback db"
  "last_mid (insert_message S i r c tr rid db) = last_mid db + 1"
  by (simp_all add: update_conversation_def recordUsage_def recordMark_def insert_message_def)

lemma unless_fails_same: "(\<And>d. g (f d) = g d) \<Longrightarrow> g (unless_fails S q f db) = g db"
  by (simp add: unless_fails_def)

lemma after_reply_same [simp]:
  "messages_table (after_reply S u s i r db) = messages_table db"
  "message_feedback (after_reply S u s i r db) = message_feedback db"
  "last_mid (after_reply S u s i r db) = last_mid db"
  by (simp_all add: after_reply_def Let_def unless_fails_def split: option.split)

text \<open>The row of a reply, and the three ways in which a run ends.\<close>

definition reply_row :: "chat_server \<Rightarrow> int \<Rightarrow> relay \<Rightarrow> database \<Rightarrow> database" where
  "reply_row S i r db = insert_message S i (js ''assistant'') (reply r)
     (if nonTrivial (run_log r) then Some (run_log r) else None) (omitempty (runID r)) db"

lemma Send_finish_unsaved:
  assumes "agent_run frs ending relay_start = (err, r)" and "err \<noteq> None \<or> fails S InsertReply \<or> conversation_of db i = None"
  shows "\<exists>t. Send_finish S u subject i c first frs ending db = (wrote r @ [Error t], db) \<and>
     t = (if err = None then js ''could not save reply'' else js ''stream failed'')"
  using assms by (cases err) (auto simp: Send_finish_def)

lemma Send_finish_saved:
  assumes "agent_run frs ending relay_start = (None, r)" and "\<not> fails S InsertReply" and "conversation_of db i \<noteq> None"
  shows "Send_finish S u subject i c first frs ending db =
     (wrote r @ Done (last_mid db + 1) # (if first then [Title (firstWords c 5)] else []),
      (if first then unless_fails S TitleUpdate (update_conversation i (\<lambda>v. v\<lparr>cv_title := Some (firstWords c 5)\<rparr>)) else (\<lambda>d. d))
        (after_reply S u subject i r (reply_row S i r db)))"
  unfolding Send_finish_def assms(1) prod.case option.case Let_def reply_row_def
  using assms(2,3) by (cases first) simp_all

lemma votes_ok_mono:
  "votes_ok db \<Longrightarrow> message_feedback db' = message_feedback db \<Longrightarrow> last_mid db \<le> last_mid db' \<Longrightarrow> votes_ok db'"
  unfolding votes_ok_def by (metis order_trans)

lemma votes_ok_step: "db_ok db \<Longrightarrow> votes_ok db \<Longrightarrow> votes_ok (snd (api_step S u rq db))"
proof (cases rq)
  case (FinishSend subject i c first frs ending)
  moreover assume "votes_ok db"
  moreover obtain err r where "agent_run frs ending relay_start = (err, r)" by (cases "agent_run frs ending relay_start")
  ultimately show ?thesis
    using Send_finish_unsaved [of frs ending err r S db i u subject c first] Send_finish_saved [of frs ending r S db i u subject c first]
    by (cases "err \<noteq> None \<or> fails S InsertReply \<or> conversation_of db i = None")
      (auto simp: reply_row_def unless_fails_def elim!: votes_ok_mono)
next
  case (PutFeedback p b)
  moreover assume "db_ok db" "votes_ok db"
  moreover have "m \<le> last_mid db" if "messageRunID S m u db = Inr x" for m x
    using that \<open>db_ok db\<close> by (fastforce simp: messageRunID_def db_ok_def find_Some_iff in_set_conv_nth split: if_splits option.splits)
  ultimately show ?thesis by (auto simp: Feedback_def votes_ok_def split: option.split sum.split)
next
  case (BeginSend p b)
  moreover assume "votes_ok db"
  ultimately show ?thesis
    by (auto simp: Send_begin_def Let_def elim!: votes_ok_mono split: option.split sum.split)
qed (auto simp: votes_ok_def Create_def Rename_def Delete_def ClearFeedback_def Let_def
    split: option.split sum.split)

text \<open>The databases that requests lead to, whoever makes them and whatever fails.\<close>

definition api_trans :: "database \<Rightarrow> database \<Rightarrow> bool" where
  "api_trans db db' \<longleftrightarrow> (\<exists>S u rq. db' = snd (api_step S u rq db))"

interpretation tables: transition_invariant empty_db api_trans "\<lambda>db. db_ok db \<and> votes_ok db"
proof
  show "db_ok empty_db \<and> votes_ok empty_db" by (simp add: db_ok_empty votes_ok_def) (simp add: empty_db_def)
qed (auto simp: api_trans_def api_step_ok votes_ok_step)

abbreviation api_reachable :: "database \<Rightarrow> bool" where
  "api_reachable \<equiv> api_trans\<^sup>*\<^sup>* empty_db"

lemma api_reachable_ok: "api_reachable db \<Longrightarrow> db_ok db" "api_reachable db \<Longrightarrow> votes_ok db"
  using tables.inv_reachable by blast+

section \<open>Rows\<close>

lemma rows_of_eq: "db_ok db \<Longrightarrow> rows_of db i = filter (\<lambda>m. m_conversation m = i) (messages_table db)"
proof -
  assume "db_ok db"
  then have "sorted_wrt (<) (map mid (messages_table db))" by (simp add: db_ok_def)
  then have "sorted (map mid (messages_table db))" by (simp add: strict_sorted_iff)
  then have "sorted (map mid (filter (\<lambda>m. m_conversation m = i) (messages_table db)))" by (rule sorted_filter)
  then show ?thesis by (simp add: rows_of_def sort_key_id_if_sorted)
qed

lemma rows_of_insert:
  assumes "db_ok db" and "j \<in> cid ` set (conversations_table db)"
  shows "rows_of (insert_message S j r c tr rid db) i =
     rows_of db i @ (if i = j then [\<lparr>mid = last_mid db + 1, m_conversation = j, m_role = r, m_content = c,
       m_created = clock S, m_trace = tr, m_run_id = rid\<rparr>] else [])"
  using assms by (simp add: rows_of_eq insert_message_ok) (simp add: insert_message_def)

lemma rows_of_cong: "messages_table db' = messages_table db \<Longrightarrow> rows_of db' i = rows_of db i"
  by (simp add: rows_of_def)

lemma rows_ids:
  assumes "db_ok db"
  shows "sorted_wrt (<) (map mid (rows_of db i)) \<and> (\<forall>m \<in> set (rows_of db i). 0 < mid m \<and> mid m \<le> last_mid db)"
  using assms by (auto simp: rows_of_eq [OF assms] db_ok_def sorted_wrt_map sorted_wrt_filter)

lemma distinct_sorted_less: "sorted_wrt (<) (xs :: int list) \<Longrightarrow> distinct xs"
  by (simp add: strict_sorted_iff)

lemma messages_view:
  assumes "Messages S u (Some i) db = MessageList ms"
  shows "ms = map (message_of S u db) (rows_of db i) \<and> owned db i u"
  using assms by (auto simp: Messages_def ownsConversation_def refuse_def split: option.splits if_splits)

lemma run_relayed: "agent_run frs ending relay_start = (err, r) \<Longrightarrow> list_all relayed (wrote r)"
  using agent_run_relayed [of relay_start frs ending] by (simp add: relay_start_def)

lemma finish_done:
  assumes "Done m \<in> set (fst (Send_finish S u subject i c first frs ending db))"
  shows "m = last_mid db + 1 \<and> i \<in> cid ` set (conversations_table db)"
proof -
  obtain err r where run: "agent_run frs ending relay_start = (err, r)" by (cases "agent_run frs ending relay_start")
  have none: "Done m \<notin> set (wrote r)" using run_relayed [OF run] by (auto simp: list_all_iff relayed_def)
  show ?thesis
  proof (cases "err \<noteq> None \<or> fails S InsertReply \<or> conversation_of db i = None")
    case True
    with Send_finish_unsaved [OF run True, of u subject c first] assms none show ?thesis by auto
  next
    case False
    with Send_finish_saved [of frs ending r S db i u subject c first] run assms none
    show ?thesis by (auto simp: conversation_of_None split: if_splits)
  qed
qed

section \<open>An example\<close>

text \<open>A first message in a new conversation.\<close>

definition demo_chat :: chat_server where
  "demo_chat = \<lparr>fails = (\<lambda>q. False), runsBudget = 5, ownerEmail = [], email_of = (\<lambda>u. Some (js ''a@b.c'')),
     hash_of = (\<lambda>s. s), clock = 0, time_text = (\<lambda>t. []), jsonb = (\<lambda>v. v)\<rparr>"

definition demo_db :: database where
  "demo_db = snd (api_step demo_chat 1 CreateOne empty_db)"

definition demo_db1 :: database where
  "demo_db1 = snd (Send_begin demo_chat 1 (Some 1) (Decoded (js ''Hi'')) demo_db)"

lemma demo_begun:
  "Send_begin demo_chat 1 (Some 1) (Decoded (js ''Hi'')) demo_db =
     (Inr ([\<lparr>llm_id = js ''1'', llm_role = js ''user'', llm_content = js ''Hi''\<rparr>], True), demo_db1)"
proof -
  have "fst (Send_begin demo_chat 1 (Some 1) (Decoded (js ''Hi'')) demo_db) =
      Inr ([\<lparr>llm_id = js ''1'', llm_role = js ''user'', llm_content = js ''Hi''\<rparr>], True)"
    by code_simp
  then show ?thesis by (simp add: demo_db1_def prod_eq_iff)
qed

lemma demo_reachable: "api_reachable demo_db" "api_reachable demo_db1"
proof -
  have "api_trans empty_db demo_db" unfolding api_trans_def demo_db_def by blast
  then show db: "api_reachable demo_db" by (rule r_into_rtranclp)
  have "api_trans demo_db (snd (api_step demo_chat 1 (BeginSend (Some 1) (Decoded (js ''Hi''))) demo_db))"
    unfolding api_trans_def by blast
  then have "api_trans demo_db demo_db1" by (simp add: demo_db1_def)
  with db show "api_reachable demo_db1" by (rule rtranclp.rtrancl_into_rtrancl)
qed

section \<open>Properties\<close>

text \<open>
  C14: The API keeps what the client's store relies on: a list of messages has different, positive
  and rising ids and nothing that streams, and the id of a \<open>done\<close> is positive and above the ids of
  all messages there are, whatever requests of whichever users came before and however they failed.
\<close>

theorem api_ids_admissible:
  assumes "api_reachable db"
  shows "(Messages S u (Some i) db = MessageList ms \<longrightarrow> admissible st (LoadOk i ms) \<and> sorted_wrt (<) (map msg_id ms)) \<and>
     (Done m \<in> set (fst (Send_finish S u subject i c first frs ending db)) \<longrightarrow>
        0 < m \<and> (\<forall>r \<in> set (messages_table db). mid r < m))"
proof (intro conjI impI)
  have ok: "db_ok db" by (rule api_reachable_ok(1) [OF assms])
  note ids = rows_ids [OF ok, of i]
  {
    assume "Messages S u (Some i) db = MessageList ms"
    then have ms: "ms = map (message_of S u db) (rows_of db i)" using messages_view by blast
    have same: "map msg_id ms = map mid (rows_of db i)" by (simp add: ms message_of_def comp_def)
    show "sorted_wrt (<) (map msg_id ms)" using ids unfolding same by blast
    then have "distinct (map msg_id ms)" by (rule distinct_sorted_less)
    moreover have "0 < msg_id m \<and> \<not> streaming m" if "m \<in> set ms" for m
      using that ids by (auto simp: ms message_of_def)
    ultimately show "admissible st (LoadOk i ms)" by simp
  }
  assume "Done m \<in> set (fst (Send_finish S u subject i c first frs ending db))"
  with finish_done have m: "m = last_mid db + 1" by blast
  with ok show "0 < m" and "\<forall>r \<in> set (messages_table db). mid r < m" by (fastforce simp: db_ok_def)+
qed

theorem api_ids_admissible_witness:
  "\<exists>ms. Messages demo_chat 1 (Some 1) demo_db1 = MessageList ms \<and> length ms = 1 \<and> admissible empty_store (LoadOk 1 ms)"
proof -
  have "case Messages demo_chat 1 (Some 1) demo_db1 of MessageList ms \<Rightarrow> length ms = 1 | _ \<Rightarrow> False" by code_simp
  then obtain ms where "Messages demo_chat 1 (Some 1) demo_db1 = MessageList ms" "length ms = 1"
    by (auto split: api_answer.splits)
  with api_ids_admissible [OF demo_reachable(2)] show ?thesis by blast
qed

lemma owned_conversation:
  assumes "db_ok db" and "owned db i u"
  shows "\<exists>v. conversation_of db i = Some v \<and> v \<in> set (conversations_table db) \<and> cid v = i \<and> cv_user v = u"
proof -
  from assms(2) obtain c where c: "c \<in> set (conversations_table db)" "cid c = i" "cv_user c = u" by (auto simp: owned_iff)
  then obtain v where v: "conversation_of db i = Some v" using conversation_of_None by fastforce
  have "distinct (map cid (conversations_table db))" using assms(1) by (simp add: db_ok_def distinct_sorted_less)
  with c conversation_of_Some [OF v] have "v = c" by (metis distinct_map inj_onD)
  with v c show ?thesis by blast
qed


section \<open>Users\<close>

definition own :: "int \<Rightarrow> database \<Rightarrow> conversation_row list" where
  "own u db = filter (\<lambda>c. cv_user c = u) (conversations_table db)"

definition mine :: "int \<Rightarrow> database \<Rightarrow> stored_message list" where
  "mine u db = filter (\<lambda>m. m_conversation m \<in> cid ` set (own u db)) (messages_table db)"

text \<open>What the answers to a user may depend on; the two sequences are shared by all users.\<close>

definition visible ::
  "chat_server \<Rightarrow> int \<Rightarrow> database \<Rightarrow>
   conversation_row list \<times> stored_message list \<times> (int \<Rightarrow> int option) \<times> (jstring \<times> int) list \<times> int \<times> int" where
  "visible S u db =
     (own u db, mine u db, (\<lambda>m. message_feedback db (m, u)),
      filter (\<lambda>(s, t). Some s = map_option (hash_of S) (email_of S u)) (usage_marks db), last_cid db, last_mid db)"

text \<open>What belongs to a user: conversations, their messages, the user's votes on them.\<close>

definition belongings :: "int \<Rightarrow> database \<Rightarrow> conversation_row list \<times> stored_message list \<times> (int \<Rightarrow> int option)" where
  "belongings v db =
     (own v db, mine v db, \<lambda>m. if m \<in> mid ` set (mine v db) then message_feedback db (m, v) else None)"

text \<open>A run that ends was begun by its user: the conversation is the user's or has been deleted.\<close>

definition run_of_user :: "int \<Rightarrow> api_request \<Rightarrow> database \<Rightarrow> bool" where
  "run_of_user u rq db \<longleftrightarrow>
     (case rq of FinishSend s i c first frs ending \<Rightarrow> \<forall>v \<in> set (conversations_table db). cid v = i \<longrightarrow> cv_user v = u | _ \<Rightarrow> True)"

subsection \<open>Answers\<close>

lemma owned_own: "owned db i u \<longleftrightarrow> i \<in> cid ` set (own u db)"
  by (auto simp: owned_iff own_def)

lemma owned_in_table: "owned db i u \<Longrightarrow> i \<in> cid ` set (conversations_table db)"
  by (auto simp: owned_iff)

lemma find_filter: "find (\<lambda>x. P x \<and> Q x) xs = find P (filter Q xs)"
  by (induction xs) auto

lemma rows_of_mine: "owned db i u \<Longrightarrow> rows_of db i = sort_key mid (filter (\<lambda>m. m_conversation m = i) (mine u db))"
  unfolding rows_of_def mine_def owned_own by (rule arg_cong [of _ _ "sort_key mid"]) (auto intro: filter_cong)

lemma conversation_of_own:
  assumes "db_ok db" and "owned db i u"
  shows "conversation_of db i = find (\<lambda>c. cid c = i) (own u db)"
proof -
  have "(cid c = i) = (cid c = i \<and> cv_user c = u)" if "c \<in> set (conversations_table db)" for c
  proof -
    from assms(2) obtain d where "d \<in> set (conversations_table db)" "cid d = i" "cv_user d = u" by (auto simp: owned_iff)
    moreover have "distinct (map cid (conversations_table db))" using assms(1) by (simp add: db_ok_def distinct_sorted_less)
    ultimately show ?thesis using that by (metis distinct_map inj_onD)
  qed
  then have "conversation_of db i = find (\<lambda>c. cid c = i \<and> cv_user c = u) (conversations_table db)"
    unfolding conversation_of_def by (intro find_cong) auto
  then show ?thesis by (simp add: own_def find_filter)
qed

lemma messageRunID_mine:
  "messageRunID S m u db =
     (if fails S RunIdQuery then Inl (refuse 500 ''lookup failed'')
      else case find (\<lambda>r. mid r = m) (mine u db) of None \<Rightarrow> Inl (refuse 404 ''message not found'') | Some r \<Rightarrow> Inr (m_run_id r))"
  by (simp add: messageRunID_def find_filter owned_own mine_def)

lemma visible_simps:
  assumes "visible S u db = visible S u db'"
  shows "own u db' = own u db" "mine u db' = mine u db" "message_feedback db' (m, u) = message_feedback db (m, u)"
    "last_cid db' = last_cid db" "last_mid db' = last_mid db" "owned db' i u = owned db i u"
    "messageRunID S m u db' = messageRunID S m u db"
proof -
  show "own u db' = own u db" "mine u db' = mine u db" "last_cid db' = last_cid db" "last_mid db' = last_mid db"
    using assms by (simp_all add: visible_def)
  then show "owned db' i u = owned db i u" "messageRunID S m u db' = messageRunID S m u db"
    by (simp_all add: owned_own messageRunID_mine)
  from assms have "(\<lambda>m. message_feedback db (m, u)) = (\<lambda>m. message_feedback db' (m, u))" by (simp add: visible_def)
  then show "message_feedback db' (m, u) = message_feedback db (m, u)" by metis
qed

lemma countMarks_filter:
  "countMarks a w db = length (filter (\<lambda>p. w < snd p) (filter (\<lambda>(s, t). s = a) (usage_marks db)))"
proof -
  have "filter (\<lambda>(s, t). s = a \<and> w < t) xs = filter (\<lambda>p. w < snd p) (filter (\<lambda>(s, t). s = a) xs)" for xs
    by (induction xs) auto
  then show ?thesis by (simp only: countMarks_def)
qed

lemma visible_budget:
  assumes "visible S u db = visible S u db'" and "email_of S u = Some a"
  shows "over_budget S a db' = over_budget S a db"
proof -
  have "filter (\<lambda>(s, t). s = hash_of S a) (usage_marks db') = filter (\<lambda>(s, t). s = hash_of S a) (usage_marks db)"
    using assms by (simp add: visible_def)
  then show ?thesis by (simp only: over_budget_def countMarks_filter)
qed

lemma assemble_visible:
  assumes eq: "visible S u db = visible S u db'" and ok: "db_ok db" "db_ok db'" and i: "owned db i u"
  shows "assemble (insert_message S i r c tr rid db') i = assemble (insert_message S i r c tr rid db) i"
proof -
  note same = visible_simps [OF eq]
  have i': "owned db' i u" using i same by simp
  have in_table: "i \<in> cid ` set (conversations_table db)" "i \<in> cid ` set (conversations_table db')"
    using owned_in_table i i' by blast+
  have "conversation_of (insert_message S i r c tr rid d) i = conversation_of d i" for d
    by (simp add: conversation_of_def insert_message_def)
  moreover have "rows_of (insert_message S i r c tr rid db') i = rows_of (insert_message S i r c tr rid db) i"
    using rows_of_insert [OF ok(1) in_table(1)] rows_of_insert [OF ok(2) in_table(2)] rows_of_mine [OF i] rows_of_mine [OF i'] same
    by simp
  ultimately show ?thesis
    by (simp add: assemble_def history_def Let_def conversation_of_own [OF ok(1) i] conversation_of_own [OF ok(2) i'] same)
qed

lemma finish_frames:
  assumes "(conversation_of db i = None) = (conversation_of db' i = None)" and "last_mid db' = last_mid db"
  shows "fst (Send_finish S u subject i c first frs ending db') = fst (Send_finish S u subject i c first frs ending db)"
  using assms by (auto simp: Send_finish_def Let_def split: prod.split option.split)

lemma answers_isolated:
  assumes eq: "visible S u db = visible S u db'" and ok: "db_ok db" "db_ok db'"
    and run: "run_of_user u rq db" "run_of_user u rq db'"
  shows "fst (api_step S u rq db') = fst (api_step S u rq db)"
proof (cases rq)
  case ListAll
  have "list_ex (\<lambda>c. cv_user c = u) (conversations_table d) = (own u d \<noteq> [])" for d
    by (auto simp: own_def list_ex_iff filter_empty_conv)
  with ListAll show ?thesis using visible_simps(1) [OF eq] by (simp add: List_conversations_def flip: own_def)
next
  case (GetMessages p)
  have "message_of S u db' = message_of S u db"
    using visible_simps(3) [OF eq] by (simp add: fun_eq_iff message_of_def)
  moreover have "rows_of db' i = rows_of db i" if "owned db i u" for i
    using that rows_of_mine [OF that] rows_of_mine [of db' i u] visible_simps [OF eq] by simp
  ultimately show ?thesis
    using GetMessages visible_simps(6) [OF eq] by (auto simp: Messages_def ownsConversation_def split: option.split)
next
  case (BeginSend p b)
  then show ?thesis
    using visible_simps(6) [OF eq] visible_budget [OF eq] assemble_visible [OF eq ok]
    by (auto simp: Send_begin_def ownsConversation_def Let_def split: option.split sum.split)
next
  case (FinishSend s i c first frs ending)
  have "(conversation_of d i = None) = (i \<notin> cid ` set (own u d))" if "run_of_user u rq d" for d
    using that FinishSend by (auto simp: conversation_of_None run_of_user_def own_def)
  then have "(conversation_of db i = None) = (conversation_of db' i = None)" using run visible_simps(1) [OF eq] by simp
  with FinishSend finish_frames [OF _ visible_simps(5) [OF eq]] show ?thesis by simp
qed (use visible_simps [OF eq] in \<open>auto simp: Create_def Rename_def Delete_def Feedback_def ClearFeedback_def Let_def split: option.split sum.split\<close>)

subsection \<open>Tables\<close>

lemma others_rows:
  assumes "db_ok db" and "owned db i u" and "c \<in> set (conversations_table db)" and "cid c = i"
  shows "cv_user c = u"
proof -
  from assms(2) obtain d where "d \<in> set (conversations_table db)" "cid d = i" "cv_user d = u" by (auto simp: owned_iff)
  moreover have "distinct (map cid (conversations_table db))" using assms(1) by (simp add: db_ok_def distinct_sorted_less)
  ultimately show ?thesis using assms(3,4) by (metis distinct_map inj_onD)
qed

lemma belongings_eqI:
  "own v db' = own v db \<Longrightarrow> mine v db' = mine v db \<Longrightarrow>
   (\<And>m. m \<in> mid ` set (mine v db) \<Longrightarrow> message_feedback db' (m, v) = message_feedback db (m, v)) \<Longrightarrow>
   belongings v db' = belongings v db"
  by (auto simp: belongings_def fun_eq_iff)

lemma belongings_cong:
  "own v db' = own v db \<Longrightarrow> messages_table db' = messages_table db \<Longrightarrow> message_feedback db' = message_feedback db \<Longrightarrow>
   belongings v db' = belongings v db"
  by (rule belongings_eqI) (simp_all add: mine_def)

lemma belongings_insert:
  "i \<notin> cid ` set (own v db) \<Longrightarrow> belongings v (insert_message S i r c tr rid db) = belongings v db"
  by (rule belongings_eqI) (simp_all add: mine_def own_def insert_message_def)

lemma own_updates:
  assumes "\<forall>c \<in> set (conversations_table db). cid c = i \<longrightarrow> cv_user c = u" and "v \<noteq> u"
    and "\<And>c. cv_user (f c) = cv_user c" and "\<And>c. cid (f c) = cid c"
  shows "own v (update_conversation i f db) = own v db \<and>
     (\<forall>c \<in> set (conversations_table (update_conversation i f db)). cid c = i \<longrightarrow> cv_user c = u)"
proof -
  have "own v (update_conversation i f db) = own v db" if "\<forall>c \<in> set cs. cid c = i \<longrightarrow> cv_user c = u" "conversations_table db = cs" for cs
  proof -
    have "filter (\<lambda>c. cv_user c = v) (patch_by cid i f cs) = filter (\<lambda>c. cv_user c = v) cs"
      using that(1) assms(2,3) by (induction cs) auto
    then show ?thesis by (simp add: own_def update_conversation_def that(2))
  qed
  then show ?thesis using assms by (auto simp: update_conversation_def patch_by_def)
qed

lemma after_reply_own:
  assumes own: "\<forall>c \<in> set (conversations_table db). cid c = i \<longrightarrow> cv_user c = u" and v: "v \<noteq> u"
  shows "own v (after_reply S u s i r db) = own v db \<and>
     (\<forall>c \<in> set (conversations_table (after_reply S u s i r db)). cid c = i \<longrightarrow> cv_user c = u)"
proof -
  let ?keeps = "\<lambda>d. own v d = own v db \<and> (\<forall>c \<in> set (conversations_table d). cid c = i \<longrightarrow> cv_user c = u)"
  have upd: "?keeps (unless_fails S q (update_conversation i f) d)"
    if "?keeps d" "\<And>c. cv_user (f c) = cv_user c" "\<And>c. cid (f c) = cid c" for d q f
    using own_updates [of d i u v f] that v by (simp add: unless_fails_def)
  have rec: "?keeps (unless_fails S q (recordUsage u x) d)" "?keeps (unless_fails S q (recordMark S s) d)" if "?keeps d" for d q x
    using that by (simp_all add: unless_fails_def own_def recordUsage_def recordMark_def)
  define db2 where "db2 = unless_fails S TouchQuery (update_conversation i (\<lambda>v. v\<lparr>cv_updated := clock S\<rparr>)) db"
  have 2: "?keeps db2" unfolding db2_def by (rule upd) (use own in simp_all)
  define db3 where "db3 = (case summaryThroughID r of None \<Rightarrow> db2
    | Some w \<Rightarrow> if w \<notin> mid ` set (messages_table db2) then db2 else unless_fails S SummaryUpdate
        (update_conversation i (\<lambda>v. v\<lparr>cv_summary := Some (summaryText r), watermark := Some w\<rparr>)) db2)"
  have "?keeps (unless_fails S SummaryUpdate (update_conversation i (\<lambda>v. v\<lparr>cv_summary := Some (summaryText r), watermark := Some w\<rparr>)) db2)" for w
    by (rule upd) (use 2 in simp_all)
  with 2 have 3: "?keeps db3" by (simp add: db3_def split: option.split)
  show ?thesis
    using rec(2) [OF rec(1) [OF 3]] unfolding after_reply_def Let_def db3_def db2_def .
qed

lemma finish_belongings:
  assumes own: "\<forall>c \<in> set (conversations_table db). cid c = i \<longrightarrow> cv_user c = u" and v: "v \<noteq> u"
  shows "belongings v (snd (Send_finish S u s i c first frs ending db)) = belongings v db"
proof -
  obtain err r where run: "agent_run frs ending relay_start = (err, r)" by (cases "agent_run frs ending relay_start")
  show ?thesis
  proof (cases "err \<noteq> None \<or> fails S InsertReply \<or> conversation_of db i = None")
    case True
    from Send_finish_unsaved [OF run True, of u s c first] show ?thesis by auto
  next
    case False
    let ?d1 = "reply_row S i r db"
    let ?d5 = "after_reply S u s i r ?d1"
    have tables: "conversations_table ?d1 = conversations_table db" by (simp add: reply_row_def insert_message_def)
    have none: "i \<notin> cid ` set (own v db)" using own v by (auto simp: own_def)
    have d5: "own v ?d5 = own v ?d1" "\<forall>c \<in> set (conversations_table ?d5). cid c = i \<longrightarrow> cv_user c = u"
      using after_reply_own [of ?d1 i u v S s r] own v by (simp_all add: tables)
    have "belongings v ?d5 = belongings v ?d1" using d5(1) by (intro belongings_cong) simp_all
    also have "\<dots> = belongings v db" unfolding reply_row_def using none by (rule belongings_insert)
    finally have "belongings v ?d5 = belongings v db" .
    moreover have "belongings v (unless_fails S TitleUpdate (update_conversation i (\<lambda>x. x\<lparr>cv_title := t\<rparr>)) ?d5) = belongings v ?d5" for t
      using own_updates [OF d5(2) v, of "\<lambda>x. x\<lparr>cv_title := t\<rparr>"] by (intro belongings_cong) (simp_all add: unless_fails_def)
    ultimately show ?thesis
      using Send_finish_saved [of frs ending r S db i u s c first] run False by simp
  qed
qed

lemma delete_belongings:
  assumes ok: "db_ok db" and v: "v \<noteq> u"
  shows "belongings v (snd (Delete S u p db)) = belongings v db"
proof (cases "\<exists>i. p = Some i \<and> \<not> fails S DeleteQuery \<and> owned db i u")
  case False
  then show ?thesis by (auto simp: Delete_def split: option.split)
next
  case True
  then obtain i where i: "p = Some i" "\<not> fails S DeleteQuery" "owned db i u" by blast
  let ?db' = "snd (Delete S u p db)"
  have own: "own v ?db' = own v db"
    using i v by (auto simp: Delete_def Let_def own_def intro: filter_cong)
  have none: "i \<notin> cid ` set (own v db)" using others_rows [OF ok i(3)] v by (auto simp: own_def)
  have "messages_table ?db' = filter (\<lambda>m. m_conversation m \<noteq> i) (messages_table db)"
    using i by (simp add: Delete_def Let_def)
  then have mine: "mine v ?db' = mine v db" using none by (auto simp: mine_def own intro!: filter_cong)
  have ids: "distinct (map mid (messages_table db))" using ok by (simp add: db_ok_def distinct_sorted_less)
  have "message_feedback ?db' (m, v) = message_feedback db (m, v)" if "m \<in> mid ` set (mine v db)" for m
  proof -
    from that obtain x where x: "x \<in> set (messages_table db)" "mid x = m" "m_conversation x \<in> cid ` set (own v db)"
      by (auto simp: mine_def)
    have "m_conversation y \<noteq> i" if "y \<in> set (messages_table db)" "mid y = m" for y
      using that x none ids by (metis distinct_map inj_onD)
    then show ?thesis using i by (auto simp: Delete_def Let_def)
  qed
  with own mine show ?thesis by (rule belongings_eqI)
qed

lemma belongings_kept:
  assumes ok: "db_ok db" and run: "run_of_user u rq db" and v: "v \<noteq> u"
  shows "belongings v (snd (api_step S u rq db)) = belongings v db"
proof (cases rq)
  case CreateOne
  have "own v (snd (Create S u db)) = own v db" using v by (simp add: Create_def Let_def own_def)
  with CreateOne show ?thesis by (auto simp: Create_def Let_def intro!: belongings_cong)
next
  case (RenameOne p b)
  have "filter (\<lambda>c. cv_user c = v) (map (\<lambda>c. if cid c = i \<and> cv_user c = u then c\<lparr>cv_title := Some t\<rparr> else c) cs) =
      filter (\<lambda>c. cv_user c = v) cs" for i t cs
    using v by (induction cs) auto
  then show ?thesis using RenameOne
    by (auto simp: Rename_def own_def intro!: belongings_cong split: option.split sum.split)
next
  case (DeleteOne p)
  then show ?thesis using delete_belongings [OF ok v] by simp
next
  case (BeginSend p b)
  have "belongings v (insert_message S i r c tr rid db) = belongings v db" if "ownsConversation S i u db = None" for i r c tr rid
  proof (rule belongings_insert)
    have "owned db i u" using that by (simp add: ownsConversation_def split: if_splits)
    then show "i \<notin> cid ` set (own v db)" using others_rows [OF ok] v by (auto simp: own_def)
  qed
  then show ?thesis using BeginSend by (auto simp: Send_begin_def Let_def split: option.split sum.split)
next
  case (FinishSend s i c first frs ending)
  then show ?thesis using finish_belongings [OF _ v] run by (simp add: run_of_user_def)
next
  case (PutFeedback p b)
  then show ?thesis using v
    by (auto simp: Feedback_def mine_def own_def intro!: belongings_eqI split: option.split sum.split)
next
  case (DropFeedback p)
  then show ?thesis using v
    by (auto simp: ClearFeedback_def mine_def own_def intro!: belongings_eqI split: option.split sum.split)
qed simp_all

text \<open>
  C4: No user sees or changes anything of another: the answer to a request, refusals and failures
  included, is the same on any two databases that agree on the caller's conversations, messages, votes
  and ledger (and on the two id counters, which all users share), and the request leaves the
  conversations, messages and votes of every other user as they were.
\<close>

theorem users_isolated:
  assumes "api_reachable db" and "api_reachable db'" and "visible S u db = visible S u db'"
    and "run_of_user u rq db" and "run_of_user u rq db'"
  shows "fst (api_step S u rq db') = fst (api_step S u rq db) \<and>
     (\<forall>v. v = u \<or> belongings v (snd (api_step S u rq db)) = belongings v db)"
  using answers_isolated [OF assms(3) api_reachable_ok(1) [OF assms(1)] api_reachable_ok(1) [OF assms(2)] assms(4,5)]
    belongings_kept [OF api_reachable_ok(1) [OF assms(1)] assms(4)] by blast

definition two_users :: "int \<Rightarrow> database" where
  "two_users v = snd (Create demo_chat v (snd (Create demo_chat 1 empty_db)))"

theorem users_isolated_witness:
  "fst (api_step demo_chat 1 (DeleteOne (Some 2)) (two_users 3)) = fst (api_step demo_chat 1 (DeleteOne (Some 2)) (two_users 2)) \<and>
   belongings 2 (snd (api_step demo_chat 1 (DeleteOne (Some 2)) (two_users 2))) = belongings 2 (two_users 2)"
proof -
  have "api_trans empty_db (snd (Create demo_chat 1 empty_db))"
    unfolding api_trans_def by (metis api_step.simps(2) id_apply snd_map_prod)
  moreover have "api_trans (snd (Create demo_chat 1 empty_db)) (two_users v)" for v
    unfolding api_trans_def two_users_def by (metis api_step.simps(2) id_apply snd_map_prod)
  ultimately have reach: "api_reachable (two_users v)" for v by (meson r_into_rtranclp rtranclp.rtrancl_into_rtrancl)
  have "visible demo_chat 1 (two_users 2) = visible demo_chat 1 (two_users 3)"
    by (simp add: visible_def two_users_def Create_def demo_chat_def empty_db_def own_def mine_def Let_def)
  note users_isolated [OF reach reach this, of "DeleteOne (Some 2)"]
  then have "fst (api_step demo_chat 1 (DeleteOne (Some 2)) (two_users 3)) = fst (api_step demo_chat 1 (DeleteOne (Some 2)) (two_users 2)) \<and>
      (\<forall>v. v = 1 \<or> belongings v (snd (api_step demo_chat 1 (DeleteOne (Some 2)) (two_users 2))) = belongings v (two_users 2))"
    by (simp add: run_of_user_def del: api_step.simps)
  then show ?thesis by (metis numeral_One numeral_eq_iff num.distinct(1))
qed

section \<open>The daily budget\<close>

text \<open>A whole turn of a user, begun with one state of the outside world and ended with a later one; or another request.\<close>

datatype served =
    Turn chat_server chat_server int jstring "agent_frame list" "jstring option"
  | Other chat_server int api_request

text \<open>\<open>Send\<close> from its first line to its last, with no other \<open>Send\<close> of the same user in between.\<close>

definition Send_turn :: "chat_server \<Rightarrow> chat_server \<Rightarrow> int \<Rightarrow> int \<Rightarrow> jstring \<Rightarrow> agent_frame list \<Rightarrow> jstring option \<Rightarrow> database \<Rightarrow> database" where
  "Send_turn S S' u i c frs ending db =
     (case Send_begin S u (Some i) (Decoded c) db of
        (Inl a, d) \<Rightarrow> d
      | (Inr (ms, first), d) \<Rightarrow>
          snd (Send_finish S' u (case email_of S u of Some a \<Rightarrow> hash_of S a | None \<Rightarrow> []) i c first frs ending d))"

fun serve :: "int \<Rightarrow> database \<Rightarrow> served \<Rightarrow> database" where
  "serve u db (Turn S S' i c frs ending) = Send_turn S S' u i c frs ending db"
| "serve u db (Other S v rq) = snd (api_step S v rq db)"

text \<open>What the clock shows when it is over.\<close>

fun served_at :: "served \<Rightarrow> int" where
  "served_at (Turn S S' i c frs ending) = clock S'"
| "served_at (Other S v rq) = clock S"

text \<open>
  Time passes, the user keeps one address that is not the owner's and whose hash is \<open>s\<close>, and every
  other run that ends is someone else's.
\<close>

fun fair :: "int \<Rightarrow> jstring \<Rightarrow> nat \<Rightarrow> int \<Rightarrow> served list \<Rightarrow> bool" where
  "fair u s b t [] \<longleftrightarrow> True"
| "fair u s b t (e # es) \<longleftrightarrow>
     (case e of
        Turn S S' i c frs ending \<Rightarrow>
          t \<le> clock S \<and> clock S \<le> clock S' \<and> runsBudget S = b \<and>
          (\<exists>a. email_of S u = Some a \<and> \<not> is_owner S a \<and> hash_of S a = s)
      | Other S v rq \<Rightarrow> t \<le> clock S \<and> (case rq of FinishSend s' i c first frs ending \<Rightarrow> s' \<noteq> s | _ \<Rightarrow> True)) \<and>
     fair u s b (served_at e) es"

lemma countMarks_mono: "w \<le> w' \<Longrightarrow> countMarks s w' db \<le> countMarks s w db"
proof -
  assume "w \<le> w'"
  then have "length (filter (\<lambda>(q, t). q = s \<and> w' < t) xs) \<le> length (filter (\<lambda>(q, t). q = s \<and> w < t) xs)" for xs
    by (induction xs) auto
  then show ?thesis by (simp only: countMarks_def)
qed

lemma marks_same:
  "usage_marks (insert_message S i r c tr rid db) = usage_marks db"
  "usage_marks (update_conversation i f db) = usage_marks db"
  "usage_marks (recordUsage u x db) = usage_marks db"
  by (simp_all add: insert_message_def update_conversation_def recordUsage_def)

lemma marks_after_reply:
  "usage_marks (after_reply S u s i r db) =
     (if fails S MarkInsert then usage_marks db else usage_marks (recordMark S s db))"
  by (simp add: after_reply_def Let_def unless_fails_def marks_same recordMark_def split: option.split)

lemma countMarks_cong: "usage_marks db' = usage_marks db \<Longrightarrow> countMarks s w db' = countMarks s w db"
  by (simp add: countMarks_def)

lemma countMarks_record:
  "countMarks s (clock S - budgetWindow) (recordMark S s' db) = countMarks s (clock S - budgetWindow) db + (if s' = s then 1 else 0)"
proof -
  have "length (filter (\<lambda>(q, t). q = s \<and> clock S - budgetWindow < t) (filter (\<lambda>(q, t). \<not> (q = s' \<and> t < clock S - budgetWindow)) xs)) =
      length (filter (\<lambda>(q, t). q = s \<and> clock S - budgetWindow < t) xs)" for xs
    by (induction xs) auto
  then show ?thesis by (simp add: countMarks_def recordMark_def budgetWindow_def)
qed

lemma finish_marks:
  "countMarks s (clock S - budgetWindow) (snd (Send_finish S u s' i c first frs ending db)) \<le>
   countMarks s (clock S - budgetWindow) db + (if s' = s then 1 else 0)"
proof -
  obtain err r where run: "agent_run frs ending relay_start = (err, r)" by (cases "agent_run frs ending relay_start")
  show ?thesis
  proof (cases "err \<noteq> None \<or> fails S InsertReply \<or> conversation_of db i = None")
    case True
    from Send_finish_unsaved [OF run True, of u s' c first] show ?thesis by auto
  next
    case False
    have "usage_marks (snd (Send_finish S u s' i c first frs ending db)) =
        (if fails S MarkInsert then usage_marks db else usage_marks (recordMark S s' db))"
      using Send_finish_saved [of frs ending r S db i u s' c first] run False
      by (simp add: unless_fails_def marks_same marks_after_reply reply_row_def recordMark_def)
    then have "countMarks s w (snd (Send_finish S u s' i c first frs ending db)) =
        (if fails S MarkInsert then countMarks s w db else countMarks s w (recordMark S s' db))" for w
      by (simp add: countMarks_def)
    then show ?thesis by (simp add: countMarks_record)
  qed
qed

lemma begin_marks: "usage_marks (snd (Send_begin S u p b db)) = usage_marks db"
  by (auto simp: Send_begin_def Let_def marks_same split: option.split sum.split)

lemma begin_budget:
  "Send_begin S u p b db = (Inr x, d) \<Longrightarrow> email_of S u = Some a \<Longrightarrow> \<not> is_owner S a \<Longrightarrow> \<not> over_budget S a db"
  by (auto simp: Send_begin_def Let_def split: option.splits sum.splits if_splits)

lemma other_marks:
  assumes "case rq of FinishSend s' i c first frs ending \<Rightarrow> s' \<noteq> s | _ \<Rightarrow> True"
  shows "countMarks s (clock S - budgetWindow) (snd (api_step S v rq db)) \<le> countMarks s (clock S - budgetWindow) db"
proof (cases rq)
  case (FinishSend s' i c first frs ending)
  with assms finish_marks [of s S v s' i c first frs ending db] show ?thesis by simp
qed (auto intro!: eq_refl countMarks_cong simp: begin_marks Create_def Rename_def Delete_def Feedback_def ClearFeedback_def Let_def
    split: option.split sum.split)

lemma turn_marks:
  assumes clocks: "clock S \<le> clock S'" and user: "email_of S u = Some a" "\<not> is_owner S a"
    and below: "countMarks (hash_of S a) (clock S - budgetWindow) db \<le> runsBudget S"
  shows "countMarks (hash_of S a) (clock S' - budgetWindow) (Send_turn S S' u i c frs ending db) \<le> runsBudget S"
proof -
  obtain res d where res: "Send_begin S u (Some i) (Decoded c) db = (res, d)" by (cases "Send_begin S u (Some i) (Decoded c) db")
  let ?s = "hash_of S a" and ?w = "clock S' - budgetWindow"
  have "usage_marks d = usage_marks db" using begin_marks [of S u "Some i" "Decoded c" db] by (simp add: res)
  then have d: "countMarks ?s ?w d \<le> countMarks ?s (clock S - budgetWindow) db"
    using countMarks_mono [of "clock S - budgetWindow" ?w ?s db] clocks countMarks_cong [of d db ?s ?w] by simp
  show ?thesis
  proof (cases res)
    case (Inl x)
    with res d below show ?thesis by (simp add: Send_turn_def)
  next
    case (Inr x)
    obtain ms first where x: "x = (ms, first)" by (cases x)
    have "countMarks ?s (clock S - budgetWindow) db < runsBudget S"
      using begin_budget [OF res [unfolded Inr] user] by (simp add: over_budget_def)
    with d finish_marks [of ?s S' u ?s i c first frs ending d] show ?thesis
      by (simp add: Send_turn_def res Inr x user)
  qed
qed


text \<open>Sends that overlap are counted when they end: with a budget of one, two runs begin and both complete.\<close>

definition one_run :: chat_server where
  "one_run = demo_chat\<lparr>runsBudget := 1\<rparr>"

definition overlapping :: "database \<times> database" where
  "overlapping =
     (let db1 = snd (Send_begin one_run 1 (Some 1) (Decoded (js ''a'')) (snd (Create one_run 1 empty_db)));
          db2 = snd (Send_begin one_run 1 (Some 1) (Decoded (js ''b'')) db1);
          db3 = snd (Send_finish one_run 1 (js ''a@b.c'') 1 (js ''a'') True [EndFrame] None db2)
      in (db1, snd (Send_finish one_run 1 (js ''a@b.c'') 1 (js ''b'') False [EndFrame] None db3)))"

lemma overlapping_sends_exceed_budget:
  "\<not> isl (fst (Send_begin one_run 1 (Some 1) (Decoded (js ''b'')) (fst overlapping))) \<and>
   countMarks (js ''a@b.c'') (clock one_run - budgetWindow) (snd overlapping) = 2 \<and> runsBudget one_run = 1"
  by code_simp

definition demo_day :: "served list" where
  "demo_day = [Other one_run 1 CreateOne, Turn one_run one_run 1 (js ''a'') [EndFrame] None,
     Turn one_run (one_run\<lparr>clock := 9\<rparr>) 1 (js ''b'') [EndFrame] None]"


end
