(* ===== verification/Pipeline.thy ===== *)
theory Pipeline
  imports ApiContract
begin

text \<open>
  A turn across the three programs: the frames of the agent, what the API writes and stores of them,
  and what the client's message store holds when the stream has been read. The lemmas show that the
  page shows after a turn what it will show after a reload.
\<close>

section \<open>From the bytes to the store\<close>

text \<open>
  The handler calls of a stream, cast to their declared types, as operations of the message store
  for turn \<open>k\<close> of conversation \<open>i\<close>.
\<close>

definition deliver :: "int \<Rightarrow> nat \<Rightarrow> handler_call list \<Rightarrow> store \<Rightarrow> store" where
  "deliver i k calls st = run st (map (Handle i k) (List.map_filter cast_call calls))"

lemma map_filter_casts: "list_all declared tes \<Longrightarrow> List.map_filter cast_call (map call_of tes) = tes"
  by (induction tes) (simp_all add: List.map_filter_simps cast_call_of)

lemma deliver_calls:
  "list_all declared tes \<Longrightarrow> deliver i k (map call_of tes) st = run st (map (Handle i k) tes)"
  by (simp add: deliver_def map_filter_casts)

lemma events_of_handles: "events_of i k (map (Handle i k) tes) = tes"
  by (induction tes) (simp_all add: events_of_def List.map_filter_simps)

lemma only_turn_handles: "list_all progress_event tes \<Longrightarrow> only_turn i k (map (Handle i k) tes)"
  by (auto simp: only_turn_def list_all_iff)

lemma sendMessage_streams:
  assumes "fst (authFetch E (conversation_path i @ js ''/messages'') (sendMessage_request c) cl) = Inr res"
    and "ok res" and "stream res = Some pieces" and "read_loop utf8_init [] pieces = (calls, None)"
  shows "fst (sendMessage E i c cl) = (calls, None)"
  using assms by (simp add: sendMessage_def swallow_abort_def case_prod_beta)

section \<open>Endings with titles\<close>

text \<open>The API names a conversation after \<open>done\<close>; a title changes nothing but the list of conversations.\<close>

lemma titles_run:
  "live st i k \<Longrightarrow> run st (map (Handle i k) (map Title ts)) = st\<lparr>effects := effects st @ map (PatchTitle i) ts\<rparr>"
proof (induction ts arbitrary: st)
  case (Cons t ts)
  have "live (add_effect (PatchTitle i t) st) i k" using Cons.prems by (simp add: live_def)
  with Cons show ?case by (simp add: onTitle_def live_def)
qed simp

lemma conv_state_effects [simp]: "conv_state (st\<lparr>effects := es\<rparr>) i = conv_state st i"
  by (simp add: conv_state_def)

lemma turn_done_titles:
  assumes "store_reachable st" and "list_all progress_event tes" and k: "k = length (turns st)"
    and fin: "fin = run st (Send i c # map (Handle i k) (tes @ Done m # map Title ts))"
  shows "\<exists>p pre. messages (conv_state fin i) = messages (conv_state st i) @ [user_message (tempId st - 1) c, p] \<and>
     p = (placeholder m)\<lparr>streaming := False, nodes := nodes p\<rparr> \<and> shown_nodes p = turn_nodes tes \<and>
     \<not> sending (conv_state fin i) \<and> conv_error (conv_state fin i) = None \<and>
     effects fin = pre @ RefreshUsage # map (PatchTitle i) ts"
proof -
  let ?es = "map (Handle i k) tes"
  let ?s = "run st (Send i c # ?es)" and ?f = "run st (Send i c # ?es @ [Handle i k (Done m)])"
  note only = only_turn_handles [OF assms(2), of i k, unfolded k]
  note ended = turn_done [OF assms(1) only, where c = c and m = m, unfolded Let_def events_of_handles, folded k]
  from turn_running [OF assms(1) only, where c = c, folded k] have live: "live ?s i k" by (simp add: under_way_def)
  then have fin_s: "?f = onDone i (assistantId (turns ?s ! k)) m ?s" by (simp add: live_def)
  have "effects ?f = effects ?s @ [RefreshUsage]" unfolding fin_s by (simp add: onDone_def)
  moreover have "live ?f i k" using live unfolding fin_s by (simp add: live_def onDone_def)
  from titles_run [OF this] have "fin = ?f\<lparr>effects := effects ?f @ map (PatchTitle i) ts\<rparr>"
    by (simp add: fin del: map_map)
  ultimately show ?thesis using ended by auto
qed

section \<open>The same message, live and reloaded\<close>

text \<open>
  What a reload shows for a message: the same; or, for a run that was one block of text and nothing
  else, that text without its timeline.
\<close>

definition agrees :: "ui \<Rightarrow> ChatMessage \<Rightarrow> ChatMessage \<Rightarrow> bool" where
  "agrees u a b \<longleftrightarrow>
     message_view u a = message_view u b \<or>
     (\<exists>t m f. message_view u a = Reply (if trim t = [] then [] else [Prose t False False]) (Some (m, trim t, f)) \<and>
        message_view u b = PlainReply t False (Some (m, t, f)))"

definition reloaded :: "chat_server \<Rightarrow> int \<Rightarrow> database \<Rightarrow> int \<Rightarrow> ChatMessage list" where
  "reloaded S u db i = map (hydrate \<circ> message_of S u db) (rows_of db i)"

text \<open>A log that \<open>jsonb\<close> gives back as it was, and that is more than one block of text only with more in it.\<close>

definition storable :: "chat_server \<Rightarrow> traceNode list \<Rightarrow> bool" where
  "storable S ns \<longleftrightarrow> list_all (\<lambda>n. stored_node S n = n) ns \<and> (nonTrivial ns \<or> length ns \<le> 1)"

lemma buildTree_singleton:
  assumes "parent_id n = None"
  shows "buildTree [n] = Some [TreeNode n []]"
  using assms by (simp add: buildTree_def index_forest_def link_nodes_def link_node_def parent_of_def)

lemma reply_agrees:
  assumes live: "p = (placeholder m)\<lparr>streaming := False, nodes := nodes p\<rparr>" "shown_nodes p = map node_of_trace ns"
    and ns: "storable S ns" and single: "\<And>n. ns = [n] \<Longrightarrow> \<not> nonTrivial ns \<Longrightarrow> t = trace_text n" "ns = [] \<Longrightarrow> t = []"
    and row: "mid r = m" "m_role r = js ''assistant''" "m_content r = t"
      "m_trace r = (if nonTrivial ns then Some ns else None)" "message_feedback db (m, u) = None"
  shows "agrees ui p (hydrate (message_of S u db r))"
proof -
  have p: "msg_id p = m" "role p = js ''assistant''" "content p = []" "\<not> streaming p" "feedback p = None"
    by (subst live(1), simp add: placeholder_def)+
  have keep: "map (node_of_trace \<circ> stored_node S) ns = map node_of_trace ns"
    using ns by (auto simp: storable_def list_all_iff)
  show ?thesis
  proof (cases "nonTrivial ns")
    case True
    have "shown_nodes (hydrate (message_of S u db r)) = shown_nodes p"
      using True row keep live(2) by (simp add: message_of_def hydrate_def shown_nodes_def)
    moreover have "msg_id (hydrate (message_of S u db r)) = m" "role (hydrate (message_of S u db r)) = js ''assistant''"
        "\<not> streaming (hydrate (message_of S u db r))" "feedback (hydrate (message_of S u db r)) = None"
      using True row by (simp_all add: message_of_def hydrate_def)
    moreover have "shown_nodes p \<noteq> []" using True live(2) by (auto simp: nonTrivial_def)
    moreover obtain ts where "buildTree (shown_nodes p) = Some ts" using buildTree_total by blast
    ultimately have "message_view ui p = message_view ui (hydrate (message_of S u db r))"
      using p by (simp add: message_view_def AssistantMessage_def reply_actions_def js_text)
    then show ?thesis by (simp add: agrees_def)
  next
    case False
    have b: "message_view ui (hydrate (message_of S u db r)) = PlainReply t False (Some (m, t, None))"
      using False row by (simp add: message_of_def hydrate_def message_view_def AssistantMessage_def reply_actions_def shown_nodes_def js_text)
    show ?thesis
    proof (cases ns)
      case Nil
      then have "message_view ui p = PlainReply [] False (Some (m, [], None))"
        using p live(2) by (simp add: message_view_def AssistantMessage_def reply_actions_def js_text)
      then show ?thesis using b single(2) Nil by (simp add: agrees_def)
    next
      case (Cons n rest)
      with ns False have one: "ns = [n]" by (simp add: storable_def)
      have n: "trace_type n = js ''text''" "trace_parent n = None" using False one by (auto simp: nonTrivial_def)
      have t: "t = trace_text n" using single(1) one False by blast
      let ?n = "node_of_trace n"
      have "text_or_empty (node_text ?n) = t"
        by (simp add: node_of_trace_def omitempty_def text_or_empty_def t)
      moreover have "node_type ?n = TextKind" using n by (simp add: kind_of_def js_text)
      moreover have "parent_id ?n = None" using n by simp
      ultimately have "message_view ui p = Reply (if trim t = [] then [] else [Prose t False False]) (Some (m, trim t, None))"
        using p live(2) one
        by (simp add: message_view_def AssistantMessage_def reply_actions_def js_text buildTree_singleton timeline_def
            TextBlock_def answerText_def has_parent_id_def text_or_empty_def [symmetric])
      then show ?thesis using b by (auto simp: agrees_def)
    qed
  qed
qed

lemma bubble_agrees:
  assumes "m_role r = js ''user''" and "m_content r = c" and "m_trace r = None"
  shows "agrees ui (user_message k c) (hydrate (message_of S u db r))"
  using assms by (simp add: agrees_def message_of_def hydrate_def message_view_def user_message_def)

lemma reloaded_votes:
  assumes "\<And>r. r \<in> set rs \<Longrightarrow> message_feedback db' (mid r, u) = message_feedback db (mid r, u)"
  shows "map (hydrate \<circ> message_of S u db') rs = map (hydrate \<circ> message_of S u db) rs"
  using assms by (simp add: message_of_def)

lemma begun_rows:
  assumes "db_ok db" and "Send_begin S u (Some i) (Decoded c) db = (Inr (msgs, first), db1)"
  shows "\<exists>q. rows_of db1 i = rows_of db i @ [q] \<and> m_role q = js ''user'' \<and> m_content q = c \<and> m_trace q = None"
proof -
  from assms(2) have db1: "db1 = insert_message S i (js ''user'') c None None db" "owned db i u"
    by (auto simp: Send_begin_def ownsConversation_def decodeJSON_def Let_def split: option.splits if_splits)
  then have "i \<in> cid ` set (conversations_table db)" by (auto simp: owned_iff)
  from rows_of_insert [OF assms(1) this] show ?thesis unfolding db1(1) by simp
qed

text \<open>What a \<open>Send\<close> leaves: the frames it wrote end the turn, and the tables have what they say.\<close>

lemma send_result:
  assumes ok: "db_ok db" and frs: "in_order {} frs"
    and log: "storable R (run_log (snd (agent_run frs ending relay_start)))"
    and sent: "Send_finish S u subject i c first frs ending db = (tes, db')"
  obtains (stored) ts m r where "tes = ts @ Done m # (if first then [Title (firstWords c 5)] else [])"
      "list_all relayed ts" "m = last_mid db + 1" "rows_of db' i = rows_of db i @ [r]"
      "message_feedback db' = message_feedback db"
      "\<And>p ui. p = (placeholder m)\<lparr>streaming := False, nodes := nodes p\<rparr> \<Longrightarrow> shown_nodes p = turn_nodes ts \<Longrightarrow>
         message_feedback db (m, u) = None \<Longrightarrow> agrees ui p (hydrate (message_of R u db' r))"
  | (failed) ts e where "tes = ts @ [Error e]" "list_all relayed ts" "db' = db"
      "e \<in> {js ''stream failed'', js ''could not save reply''}"
proof -
  obtain err r where run: "agent_run frs ending relay_start = (err, r)" by (cases "agent_run frs ending relay_start")
  show thesis
  proof (cases "err \<noteq> None \<or> fails S InsertReply \<or> conversation_of db i = None")
    case True
    from Send_finish_unsaved [OF run True, of u subject c first] sent failed [OF _ run_relayed [OF run]]
    show thesis by (auto split: if_splits)
  next
    case False
    have "single_reply relay_start" "in_log relay_start" by (simp_all add: relay_start_def single_reply_def in_log_def)
    from agent_run_single [OF this, of frs ending] have single: "single_reply r" by (simp add: run)
    obtain seen where agree: "logs_agree seen r"
      using logs_agree_run [OF logs_agree_start frs, of ending] by (auto simp: run)
    let ?row = "\<lparr>mid = last_mid db + 1, m_conversation = i, m_role = js ''assistant'', m_content = reply r,
       m_created = clock S, m_trace = (if nonTrivial (run_log r) then Some (run_log r) else None), m_run_id = omitempty (runID r)\<rparr>"
    from False run sent Send_finish_saved [of frs ending r S db i u subject c first]
    have eq: "tes = wrote r @ Done (last_mid db + 1) # (if first then [Title (firstWords c 5)] else [])"
        and db': "messages_table db' = messages_table (reply_row S i r db)" "message_feedback db' = message_feedback db"
      by (auto simp: unless_fails_def reply_row_def split: if_splits)
    have "i \<in> cid ` set (conversations_table db)" using False by (simp add: conversation_of_None)
    from rows_of_insert [OF ok this] have rows: "rows_of db' i = rows_of db i @ [?row]"
      using rows_of_cong [OF db'(1)] by (simp add: reply_row_def)
    have "agrees ui p (hydrate (message_of R u db' ?row))"
      if "p = (placeholder (last_mid db + 1))\<lparr>streaming := False, nodes := nodes p\<rparr>" "shown_nodes p = turn_nodes (wrote r)"
        "message_feedback db (last_mid db + 1, u) = None" for p ui
    proof (rule reply_agrees [OF that(1)])
      show "shown_nodes p = map node_of_trace (run_log r)" using that(2) agree by (simp add: logs_agree_def)
      show "storable R (run_log r)" using log by (simp add: run)
      show "reply r = trace_text n" if "run_log r = [n]" "\<not> nonTrivial (run_log r)" for n
        using single that by (auto simp: single_reply_def nonTrivial_def)
      show "reply r = []" if "run_log r = []" using single that by (simp add: single_reply_def)
    qed (use that(3) db'(2) in simp_all)
    from stored [OF eq run_relayed [OF run] refl rows db'(2) this] show thesis .
  qed
qed

text \<open>The two ways a relayed turn ends in the client.\<close>

lemma relayed_events: "list_all relayed ts \<Longrightarrow> list_all progress_event ts \<and> list_all declared ts"
  by (auto simp: list_all_iff relayed_def)

lemma turn_failed_delivered:
  assumes "store_reachable st" and "list_all progress_event ts" and "k = length (turns st)"
  shows "let fin = run st (Send i c # map (Handle i k) (ts @ [Error e])) in
     messages (conv_state fin i) = messages (conv_state st i) @ [user_message (tempId st - 1) c] \<and>
     \<not> sending (conv_state fin i) \<and> conv_error (conv_state fin i) = Some e"
  using turn_failed [OF assms(1) only_turn_handles [OF assms(2)], of i c e] assms(3) by (simp add: Let_def)

text \<open>
  After the frames of a \<open>Send\<close>, the conversation in the client is what a reload gives: message for
  message, with the error line only if the reply was not stored.
\<close>

lemma send_delivered:
  assumes st: "store_reachable st" and ok: "db_ok db" "votes_ok db" and frs: "in_order {} frs"
    and log: "storable R (run_log (snd (agent_run frs ending relay_start)))"
    and sent: "Send_finish S u subject i c first frs ending db = (tes, db')"
    and rows: "rows_of db i = old @ [q]" "m_role q = js ''user''" "m_content q = c" "m_trace q = None"
    and shown: "list_all2 (agrees ui) (messages (conv_state st i)) (map (hydrate \<circ> message_of R u db) old)"
    and fin: "fin = deliver i (length (turns st)) (map call_of tes) (step st (Send i c))"
  shows "list_all2 (agrees ui) (messages (conv_state fin i)) (reloaded R u db' i) \<and> \<not> sending (conv_state fin i) \<and>
     (if db' = db then conv_error (conv_state fin i) \<in> {Some (js ''stream failed''), Some (js ''could not save reply'')}
      else conv_error (conv_state fin i) = None)"
  using ok(1) frs log sent
proof (cases rule: send_result)
  case (stored ts m r)
  let ?k = "length (turns st)" and ?titles = "if first then [firstWords c 5] else []"
  have tes: "tes = ts @ Done m # map Title ?titles" using stored(1) by simp
  have "list_all declared tes" using relayed_events [OF stored(2)] by (simp add: tes)
  then have "fin = run st (Send i c # map (Handle i ?k) (ts @ Done m # map Title ?titles))"
    unfolding fin by (simp add: deliver_calls tes del: map_append)
  from turn_done_titles [OF st _ refl this] relayed_events [OF stored(2)]
  obtain p where p: "messages (conv_state fin i) = messages (conv_state st i) @ [user_message (tempId st - 1) c, p]"
      "p = (placeholder m)\<lparr>streaming := False, nodes := nodes p\<rparr>" "shown_nodes p = turn_nodes ts"
      "\<not> sending (conv_state fin i)" "conv_error (conv_state fin i) = None"
    by auto
  have "message_feedback db (m, u) = None"
    using ok(2) stored(3) unfolding votes_ok_def by (metis add_le_same_cancel1 not_one_le_zero option.exhaust)
  from stored(6) [OF p(2,3) this] have reply: "agrees ui p (hydrate (message_of R u db' r))" .
  have same: "map (hydrate \<circ> message_of R u db') old = map (hydrate \<circ> message_of R u db) old"
    using stored(5) by (intro reloaded_votes) simp
  have "list_all2 (agrees ui) (messages (conv_state st i)) (map (hydrate \<circ> message_of R u db') old)"
    unfolding same by (rule shown)
  then have "list_all2 (agrees ui) (messages (conv_state st i) @ [user_message (tempId st - 1) c, p])
      (map (hydrate \<circ> message_of R u db') old @ [hydrate (message_of R u db' q), hydrate (message_of R u db' r)])"
    using reply bubble_agrees [OF rows(2-4)] by (intro list_all2_appendI) simp_all
  then have "list_all2 (agrees ui) (messages (conv_state fin i)) (reloaded R u db' i)"
    by (simp add: p(1) reloaded_def stored(4) rows(1))
  moreover have "db' \<noteq> db" using stored(4) by auto
  ultimately show ?thesis using p(4,5) by simp
next
  case (failed ts e)
  have "list_all declared tes" using relayed_events [OF failed(2)] by (simp add: failed(1))
  then have "fin = run st (Send i c # map (Handle i (length (turns st))) (ts @ [Error e]))"
    unfolding fin by (simp add: deliver_calls failed(1) del: map_append)
  with turn_failed_delivered [OF st _ refl, of ts i c e] relayed_events [OF failed(2)]
  have "messages (conv_state fin i) = messages (conv_state st i) @ [user_message (tempId st - 1) c]"
      "\<not> sending (conv_state fin i)" "conv_error (conv_state fin i) = Some e"
    by (simp_all add: Let_def)
  with shown bubble_agrees [OF rows(2-4)] failed(3,4) show ?thesis
    by (simp add: reloaded_def rows(1) list_all2_appendI)
qed

end
