(* ===== verification/Sessions.thy ===== *)
theory Sessions
  imports ChatApi
begin

text \<open>
  The sessions of the API: \<open>api/auth_handlers.go\<close>, \<open>api/auth.go\<close>, the sign-in link of
  \<open>api/magic_auth.go\<close>, \<open>api/google_auth.go\<close> and \<open>Account.Delete\<close>. A refresh is two steps, the claim of the cookie's
  token and the issue of the next one, between which other requests may be served. Randomness, the
  clock, the hash, the mailer and Google are arguments. The lemmas show that a token is redeemed once, that a reused one ends
  its family, and that a browser that refreshes one call at a time keeps its session.
\<close>

section \<open>Tables\<close>

record refresh_token =
  token_hash :: jstring
  token_user :: int
  family_id :: jstring
  expires_at :: int
  revoked :: bool

record magic_link =
  link_hash :: jstring
  link_email :: jstring
  link_expires :: int

record auth_db =
  users_table :: "(int \<times> jstring) list"
  refresh_tokens :: "refresh_token list"
  magic_links :: "magic_link list"
  last_user :: int

datatype auth_query =
    ClaimQuery | ReuseQuery | RevokeFamily | PurgeQuery | MintToken | TokenInsert | LogoutDelete | UserQuery | UserInsert
  | RandomBytes | LinkInsert | LinkDelete | SendLink | ExistsQuery | MeQuery | UserDelete

text \<open>
  \<open>Auth\<close>, with the outside world as a request finds it: \<open>mint\<close> makes the access token of a user,
  \<open>lower\<close> is \<open>strings.ToLower\<close>, \<open>throttled\<close> says which keys are over their limit, \<open>valid_address\<close> and
  \<open>disposable\<close> are the libraries for addresses, and \<open>google\<close> is the address of a code that Google's
  exchange and verification accept.
\<close>

record auth_server =
  auth_fails :: "auth_query \<Rightarrow> bool"
  hashToken :: "jstring \<Rightarrow> jstring"
  mint :: "int \<Rightarrow> int \<Rightarrow> jstring"
  user_of :: "jstring \<Rightarrow> int option"
  lower :: "jstring \<Rightarrow> jstring"
  signupOpen :: bool
  throttled :: "jstring \<Rightarrow> bool"
  valid_address :: "jstring \<Rightarrow> bool"
  disposable :: "jstring \<Rightarrow> bool"
  google :: "jstring \<Rightarrow> jstring option"
  auth_now :: int

definition refreshTokenTTL :: int where
  "refreshTokenTTL = 30 * 24 * 60 * 60 * 1000000"

definition magicTokenTTL :: int where
  "magicTokenTTL = 15 * 60 * 1000000"

text \<open>An answer; \<open>Session\<close> carries the access token and the cookie, \<open>Cleared\<close> clears the cookie.\<close>

datatype auth_answer =
    Answer api_answer
  | Session jstring jstring
  | Cleared
  | Account int jstring
  | Sent

definition deny :: "nat \<Rightarrow> string \<Rightarrow> auth_answer" where
  "deny code t = Answer (refuse code t)"

section \<open>Refresh\<close>

definition claimable :: "int \<Rightarrow> jstring \<Rightarrow> refresh_token \<Rightarrow> bool" where
  "claimable t h r \<longleftrightarrow> token_hash r = h \<and> \<not> revoked r \<and> t < expires_at r"

text \<open>The first half of \<open>Refresh\<close>: the claimed user and family, or the treatment as theft.\<close>

definition claim :: "auth_server \<Rightarrow> jstring \<Rightarrow> auth_db \<Rightarrow> (int \<times> jstring) option \<times> auth_db" where
  "claim S cookie db =
     (let h = hashToken S cookie in
      case (if cookie = [] \<or> auth_fails S ClaimQuery then None else find (claimable (auth_now S) h) (refresh_tokens db)) of
        Some r \<Rightarrow>
          (Some (token_user r, family_id r),
           db\<lparr>refresh_tokens := map (\<lambda>x. if claimable (auth_now S) h x then x\<lparr>revoked := True\<rparr> else x) (refresh_tokens db)\<rparr>)
      | None \<Rightarrow>
          (None,
           case (if cookie = [] \<or> auth_fails S ReuseQuery then None
                 else find (\<lambda>r. token_hash r = h \<and> revoked r) (refresh_tokens db)) of
             None \<Rightarrow> db
           | Some r \<Rightarrow>
               if auth_fails S RevokeFamily then db
               else db\<lparr>refresh_tokens := patch_by family_id (family_id r) (\<lambda>x. x\<lparr>revoked := True\<rparr>) (refresh_tokens db)\<rparr>))"

definition purgeExpiredRefreshTokens :: "auth_server \<Rightarrow> auth_db \<Rightarrow> auth_db" where
  "purgeExpiredRefreshTokens S db =
     (if auth_fails S PurgeQuery then db
      else db\<lparr>refresh_tokens := filter (\<lambda>r. \<not> expires_at r < auth_now S) (refresh_tokens db)\<rparr>)"

text \<open>
  \<open>token_hash\<close> is the primary key and \<open>user_id\<close> a foreign key: a second row with the same hash, or a
  row of a deleted user, is refused. \<open>tok\<close> is the random token.
\<close>

definition issueTokens :: "auth_server \<Rightarrow> int \<Rightarrow> jstring \<Rightarrow> jstring \<Rightarrow> auth_db \<Rightarrow> auth_answer \<times> auth_db" where
  "issueTokens S u family tok db =
     (if auth_fails S MintToken then (deny 500 ''could not mint token'', db)
      else if auth_fails S RandomBytes then (deny 500 ''could not create refresh token'', db)
      else if auth_fails S TokenInsert \<or> hashToken S tok \<in> token_hash ` set (refresh_tokens db) \<or>
        u \<notin> fst ` set (users_table db)
      then (deny 500 ''could not store refresh token'', db)
      else (Session (mint S u (auth_now S)) tok,
            db\<lparr>refresh_tokens := refresh_tokens db @
                [\<lparr>token_hash = hashToken S tok, token_user = u, family_id = family,
                  expires_at = auth_now S + refreshTokenTTL, revoked = False\<rparr>]\<rparr>))"

text \<open>\<open>Refresh\<close> from its first line to its last.\<close>

definition Refresh :: "auth_server \<Rightarrow> jstring \<Rightarrow> jstring \<Rightarrow> auth_db \<Rightarrow> auth_answer \<times> auth_db" where
  "Refresh S cookie tok db =
     (case claim S cookie db of
        (None, db1) \<Rightarrow> (deny 401 ''invalid refresh token'', db1)
      | (Some (u, family), db1) \<Rightarrow> issueTokens S u family tok (purgeExpiredRefreshTokens S db1))"

definition Logout :: "auth_server \<Rightarrow> jstring \<Rightarrow> auth_db \<Rightarrow> auth_answer \<times> auth_db" where
  "Logout S cookie db =
     (Cleared,
      if cookie = [] \<or> auth_fails S LogoutDelete then db
      else db\<lparr>refresh_tokens := filter (\<lambda>r. token_hash r \<noteq> hashToken S cookie) (refresh_tokens db)\<rparr>)"

section \<open>Signing in\<close>

definition TrimSpace :: "jstring \<Rightarrow> jstring" where
  "TrimSpace s = rev (dropWhile IsSpace (rev (dropWhile IsSpace s)))"

definition normalizeEmail :: "auth_server \<Rightarrow> jstring \<Rightarrow> jstring" where
  "normalizeEmail S s = lower S (TrimSpace s)"

definition completeLogin :: "auth_server \<Rightarrow> jstring \<Rightarrow> jstring \<Rightarrow> jstring \<Rightarrow> auth_db \<Rightarrow> auth_answer \<times> auth_db" where
  "completeLogin S family tok verifiedEmail db =
     (let addr = normalizeEmail S verifiedEmail in
      if auth_fails S UserQuery then (deny 500 ''could not create user'', db)
      else
        case find (\<lambda>(i, a). a = addr) (users_table db) of
          Some (u, a) \<Rightarrow>
            if auth_fails S RandomBytes then (deny 500 ''could not start session'', db)
            else issueTokens S u family tok db
        | None \<Rightarrow>
            if \<not> signupOpen S then (deny 403 ''signups are closed'', db)
            else if auth_fails S UserInsert then (deny 500 ''could not create user'', db)
            else
              let u = last_user db + 1; db1 = db\<lparr>users_table := users_table db @ [(u, addr)], last_user := u\<rparr> in
              if auth_fails S RandomBytes then (deny 500 ''could not start session'', db1)
              else issueTokens S u family tok db1)"

definition Google :: "auth_server \<Rightarrow> jstring \<Rightarrow> jstring \<Rightarrow> jstring body \<Rightarrow> auth_db \<Rightarrow> auth_answer \<times> auth_db" where
  "Google S family tok b db =
     (case decodeJSON b of
        Inl a \<Rightarrow> (Answer a, db)
      | Inr code \<Rightarrow>
          if code = [] then (deny 400 ''code required'', db)
          else case google S code of
                 None \<Rightarrow> (deny 401 ''invalid google token'', db)
               | Some addr \<Rightarrow>
                   if addr = [] then (deny 401 ''invalid google token'', db) else completeLogin S family tok addr db)"

text \<open>The text before and after the last \<open>c\<close>.\<close>

definition split_last :: "16 word \<Rightarrow> jstring \<Rightarrow> (jstring \<times> jstring) option" where
  "split_last c s =
     (let domain = takeWhile (\<lambda>x. x \<noteq> c) (rev s)
      in if length domain = length s then None else Some (rev (drop (Suc (length domain)) (rev s)), rev domain))"

definition canonicalizeEmail :: "auth_server \<Rightarrow> jstring \<Rightarrow> jstring" where
  "canonicalizeEmail S s =
     (let e = normalizeEmail S s in
      case split_last (of_char (CHR ''@'')) e of
        None \<Rightarrow> e
      | Some (part, domain) \<Rightarrow>
          let part1 = takeWhile (\<lambda>x. x \<noteq> of_char (CHR ''+'')) part;
              domain1 = (if domain = js ''googlemail.com'' then js ''gmail.com'' else domain);
              part2 = (if domain1 = js ''gmail.com'' then filter (\<lambda>x. x \<noteq> of_char (CHR ''.'')) part1 else part1)
          in part2 @ js ''@'' @ domain1)"

definition isDisposableEmail :: "auth_server \<Rightarrow> jstring \<Rightarrow> bool" where
  "isDisposableEmail S e =
     (case split_last (of_char (CHR ''@'')) e of None \<Rightarrow> False | Some (part, domain) \<Rightarrow> domain \<noteq> [] \<and> disposable S e)"

text \<open>\<open>ip\<close> is the source address, \<open>clientIP\<close>.\<close>

definition MagicRequest :: "auth_server \<Rightarrow> jstring \<Rightarrow> jstring \<Rightarrow> jstring body \<Rightarrow> auth_db \<Rightarrow> auth_answer \<times> auth_db" where
  "MagicRequest S ip tok b db =
     (case decodeJSON b of
        Inl a \<Rightarrow> (Answer a, db)
      | Inr addr \<Rightarrow>
          if \<not> valid_address S addr then (deny 400 ''a valid email is required'', db)
          else if list_ex (throttled S) [js ''ip:'' @ ip, js ''email:'' @ canonicalizeEmail S addr]
          then (deny 429 ''rate limit exceeded'', db)
          else
            let i = normalizeEmail S addr in
            if isDisposableEmail S i then (Sent, db)
            else if (auth_fails S ExistsQuery \<or> i \<notin> snd ` set (users_table db)) \<and> \<not> signupOpen S then (Sent, db)
            else if auth_fails S RandomBytes \<or> auth_fails S LinkInsert \<or> hashToken S tok \<in> link_hash ` set (magic_links db)
            then (deny 500 ''could not create link'', db)
            else
              let db1 = db\<lparr>magic_links := magic_links db @
                    [\<lparr>link_hash = hashToken S tok, link_email = i, link_expires = auth_now S + magicTokenTTL\<rparr>]\<rparr>
              in (if auth_fails S SendLink then deny 500 ''could not send link'' else Sent, db1))"

definition MagicVerify :: "auth_server \<Rightarrow> jstring \<Rightarrow> jstring \<Rightarrow> jstring body \<Rightarrow> auth_db \<Rightarrow> auth_answer \<times> auth_db" where
  "MagicVerify S family tok b db =
     (case decodeJSON b of
        Inl a \<Rightarrow> (Answer a, db)
      | Inr t \<Rightarrow>
          if t = [] then (deny 400 ''token required'', db)
          else
            case (if auth_fails S LinkDelete then None
                  else find (\<lambda>l. link_hash l = hashToken S t \<and> auth_now S < link_expires l) (magic_links db)) of
              None \<Rightarrow> (deny 401 ''invalid or expired link'', db)
            | Some l \<Rightarrow>
                completeLogin S family tok (link_email l)
                  (db\<lparr>magic_links := filter (\<lambda>x. \<not> (link_hash x = hashToken S t \<and> auth_now S < link_expires x)) (magic_links db)\<rparr>))"

section \<open>Access tokens\<close>

text \<open>\<open>Middleware\<close>: the user of the bearer token (\<open>user_of\<close> is \<open>parseAccessToken\<close>), or the refusal.\<close>

definition Middleware :: "auth_server \<Rightarrow> jstring \<Rightarrow> auth_answer + int" where
  "Middleware S header =
     (if \<not> prefix (js ''Bearer '') header \<or> drop 7 header = [] then Inl (deny 401 ''missing bearer token'')
      else case user_of S (drop 7 header) of None \<Rightarrow> Inl (deny 401 ''invalid token'') | Some u \<Rightarrow> Inr u)"

definition Me :: "auth_server \<Rightarrow> jstring \<Rightarrow> auth_db \<Rightarrow> auth_answer" where
  "Me S header db =
     (case Middleware S header of
        Inl a \<Rightarrow> a
      | Inr u \<Rightarrow>
          (case (if auth_fails S MeQuery then None else map_of (users_table db) u) of
             None \<Rightarrow> deny 401 ''unknown user''
           | Some a \<Rightarrow> Account u a))"

text \<open>\<open>Account.Delete\<close>; the tokens of a deleted user go with it (\<open>on delete cascade\<close>).\<close>

definition DeleteAccount :: "auth_server \<Rightarrow> jstring \<Rightarrow> jstring body \<Rightarrow> auth_db \<Rightarrow> auth_answer \<times> auth_db" where
  "DeleteAccount S header b db =
     (case Middleware S header of
        Inl a \<Rightarrow> (a, db)
      | Inr u \<Rightarrow>
          (case decodeJSON b of
             Inl a \<Rightarrow> (Answer a, db)
           | Inr confirm_email \<Rightarrow>
               if auth_fails S UserDelete then (deny 500 ''could not delete account'', db)
               else if (u, normalizeEmail S confirm_email) \<notin> set (users_table db)
               then (deny 400 ''email confirmation does not match'', db)
               else (Cleared,
                     db\<lparr>users_table := filter (\<lambda>(i, a). i \<noteq> u) (users_table db),
                        refresh_tokens := filter (\<lambda>r. token_user r \<noteq> u) (refresh_tokens db)\<rparr>)))"

section \<open>Overlapping requests\<close>

text \<open>\<open>claimed\<close> are the users and families of refreshes that are between their two halves.\<close>

record auth_state =
  tables :: auth_db
  claimed :: "(int \<times> jstring) list"

datatype auth_event =
    Claim jstring
  | Issue nat jstring
  | SignIn jstring jstring "jstring body"
  | SignOut jstring
  | AskLink jstring jstring "jstring body"
  | UseLink jstring jstring "jstring body"
  | CloseAccount jstring "jstring body"

fun session_step :: "auth_state \<Rightarrow> auth_server \<times> auth_event \<Rightarrow> auth_state" where
  "session_step st (S, Claim cookie) =
     (let (res, db) = claim S cookie (tables st)
      in st\<lparr>tables := db, claimed := claimed st @ (case res of None \<Rightarrow> [] | Some c \<Rightarrow> [c])\<rparr>)"
| "session_step st (S, Issue k tok) =
     (if k < length (claimed st)
      then (case claimed st ! k of
              (u, family) \<Rightarrow>
                st\<lparr>tables := snd (issueTokens S u family tok (purgeExpiredRefreshTokens S (tables st))),
                   claimed := take k (claimed st) @ drop (Suc k) (claimed st)\<rparr>)
      else st)"
| "session_step st (S, SignIn family tok b) = st\<lparr>tables := snd (Google S family tok b (tables st))\<rparr>"
| "session_step st (S, SignOut cookie) = st\<lparr>tables := snd (Logout S cookie (tables st))\<rparr>"
| "session_step st (S, AskLink ip tok b) = st\<lparr>tables := snd (MagicRequest S ip tok b (tables st))\<rparr>"
| "session_step st (S, UseLink family tok b) = st\<lparr>tables := snd (MagicVerify S family tok b (tables st))\<rparr>"
| "session_step st (S, CloseAccount header b) = st\<lparr>tables := snd (DeleteAccount S header b (tables st))\<rparr>"

section \<open>What a step does to the tokens\<close>

abbreviation tokens :: "auth_state \<Rightarrow> refresh_token list" where
  "tokens st \<equiv> refresh_tokens (tables st)"

abbreviation hashes :: "auth_state \<Rightarrow> jstring list" where
  "hashes st \<equiv> map token_hash (tokens st)"

text \<open>The random token and the family that an event brings along.\<close>

definition brings :: "auth_state \<Rightarrow> auth_event \<Rightarrow> (jstring \<times> jstring) option" where
  "brings st e =
     (case e of
        Issue k tok \<Rightarrow> if k < length (claimed st) then Some (tok, snd (claimed st ! k)) else None
      | SignIn family tok a \<Rightarrow> Some (tok, family)
      | UseLink family tok t \<Rightarrow> Some (tok, family)
      | _ \<Rightarrow> None)"

definition revokes :: "refresh_token list \<Rightarrow> refresh_token list \<Rightarrow> bool" where
  "revokes xs ys \<longleftrightarrow> (\<exists>P. ys = map (\<lambda>x. if P x then x\<lparr>revoked := True\<rparr> else x) xs)"

lemma revokes_intros [simp]:
  "revokes xs xs" "revokes xs (map (\<lambda>x. if P x then x\<lparr>revoked := True\<rparr> else x) xs)"
proof -
  have "xs = map (\<lambda>x. if False then x\<lparr>revoked := True\<rparr> else x) xs" by simp
  then show "revokes xs xs" unfolding revokes_def by (rule exI [of _ "\<lambda>x. False"])
  show "revokes xs (map (\<lambda>x. if P x then x\<lparr>revoked := True\<rparr> else x) xs)" unfolding revokes_def by blast
qed

lemma claim_tokens: "revokes (refresh_tokens db) (refresh_tokens (snd (claim S c db)))"
  by (simp add: claim_def Let_def patch_by_def split: option.split)

lemma claim_Some:
  assumes "fst (claim S c db) = Some (u, f)"
  shows "\<exists>r \<in> set (refresh_tokens db). find (claimable (auth_now S) (hashToken S c)) (refresh_tokens db) = Some r \<and>
     claimable (auth_now S) (hashToken S c) r \<and> token_user r = u \<and> family_id r = f \<and>
     refresh_tokens (snd (claim S c db)) =
       map (\<lambda>x. if claimable (auth_now S) (hashToken S c) x then x\<lparr>revoked := True\<rparr> else x) (refresh_tokens db)"
proof (cases "if c = [] \<or> auth_fails S ClaimQuery then None else find (claimable (auth_now S) (hashToken S c)) (refresh_tokens db)")
  case None
  with assms show ?thesis by (simp add: claim_def Let_def)
next
  case (Some r)
  then have "find (claimable (auth_now S) (hashToken S c)) (refresh_tokens db) = Some r" by (simp split: if_splits)
  moreover from this have "r \<in> set (refresh_tokens db)" "claimable (auth_now S) (hashToken S c) r"
    by (auto simp: find_Some_iff)
  ultimately show ?thesis using assms Some by (intro bexI [of _ r]) (simp_all add: claim_def Let_def)
qed

text \<open>At most one token more, of a hash that was not there.\<close>

definition issued :: "auth_server \<Rightarrow> jstring \<Rightarrow> jstring \<Rightarrow> int \<Rightarrow> refresh_token" where
  "issued S tok family u = \<lparr>token_hash = hashToken S tok, token_user = u, family_id = family,
     expires_at = auth_now S + refreshTokenTTL, revoked = False\<rparr>"

definition grows :: "auth_server \<Rightarrow> jstring \<Rightarrow> jstring \<Rightarrow> refresh_token list \<Rightarrow> refresh_token list \<Rightarrow> bool" where
  "grows S tok family xs ys \<longleftrightarrow>
     ys = xs \<or> hashToken S tok \<notin> token_hash ` set xs \<and> (\<exists>u. ys = xs @ [issued S tok family u])"

lemma grows_refl [simp]: "grows S tok family xs xs"
  by (simp add: grows_def)

lemma issue_grows [simp]:
  "refresh_tokens d = xs \<Longrightarrow> grows S tok family xs (refresh_tokens (snd (issueTokens S u family tok d)))"
  by (auto simp: grows_def issueTokens_def issued_def)

lemma login_grows [simp]:
  "refresh_tokens d = xs \<Longrightarrow> grows S tok family xs (refresh_tokens (snd (completeLogin S family tok a d)))"
  by (simp add: completeLogin_def Let_def split: option.split)

lemma google_grows: "grows S tok family (refresh_tokens db) (refresh_tokens (snd (Google S family tok b db)))"
  by (simp add: Google_def split: option.split sum.split)

lemma verify_grows: "grows S tok family (refresh_tokens db) (refresh_tokens (snd (MagicVerify S family tok t db)))"
  by (simp add: MagicVerify_def split: option.split sum.split)

lemma link_tokens: "refresh_tokens (snd (MagicRequest S ip tok a db)) = refresh_tokens db"
  by (simp add: MagicRequest_def Let_def split: sum.split)

lemma delete_tokens: "set (refresh_tokens (snd (DeleteAccount S header a db))) \<subseteq> set (refresh_tokens db)"
  by (auto simp: DeleteAccount_def split: sum.split)

lemma grows_new: "grows S tok family xs ys \<Longrightarrow> r \<in> set ys \<Longrightarrow> r \<in> set xs \<or> token_hash r = hashToken S tok \<and> family_id r = family"
  by (auto simp: grows_def issued_def)

lemma revokes_old: "revokes xs ys \<Longrightarrow> r \<in> set ys \<Longrightarrow> \<exists>x \<in> set xs. r = x \<or> r = x\<lparr>revoked := True\<rparr>"
  by (auto simp: revokes_def)

lemma purge_tokens: "set (refresh_tokens (purgeExpiredRefreshTokens S db)) \<subseteq> set (refresh_tokens db)"
  by (auto simp: purgeExpiredRefreshTokens_def)

text \<open>A token after a step was there before, revoked or not, or has been brought by the step.\<close>

lemma step_tokens:
  assumes "r' \<in> set (tokens (session_step st (S, e)))"
  shows "(\<exists>r \<in> set (tokens st). r' = r \<or> r' = r\<lparr>revoked := True\<rparr>) \<or>
     (\<exists>tok family. brings st e = Some (tok, family) \<and> token_hash r' = hashToken S tok \<and> family_id r' = family)"
proof (cases e)
  case (Claim c)
  then show ?thesis using assms revokes_old [OF claim_tokens, of r' S c "tables st"] by (simp add: case_prod_beta Let_def)
next
  case (Issue k tok)
  show ?thesis
  proof (cases "k < length (claimed st)")
    case True
    obtain u f where uf: "claimed st ! k = (u, f)" by (cases "claimed st ! k")
    let ?db = "purgeExpiredRefreshTokens S (tables st)"
    have "r' \<in> set (refresh_tokens (snd (issueTokens S u f tok ?db)))" using assms Issue True uf by simp
    from grows_new [OF issue_grows [OF refl] this] purge_tokens [of S "tables st"] show ?thesis
      using Issue True uf by (auto simp: brings_def)
  qed (use assms Issue in auto)
next
  case (SignIn family tok a)
  then show ?thesis
    using assms grows_new [OF google_grows, of r' S family tok a "tables st"] by (auto simp: brings_def)
next
  case (SignOut c)
  then show ?thesis using assms by (auto simp: Logout_def split: if_splits)
next
  case (AskLink ip tok a)
  then show ?thesis using assms by (auto simp: link_tokens)
next
  case (UseLink family tok t)
  then show ?thesis
    using assms grows_new [OF verify_grows, of r' S family tok t "tables st"] by (auto simp: brings_def)
next
  case (CloseAccount header a)
  then show ?thesis using assms delete_tokens [of S header a "tables st"] by auto
qed

lemma step_claimed:
  assumes "x \<in> set (claimed (session_step st (S, e)))"
  shows "x \<in> set (claimed st) \<or> (\<exists>r \<in> set (tokens st). \<not> revoked r \<and> family_id r = snd x)"
proof (cases e)
  case (Claim c)
  have "\<exists>r \<in> set (tokens st). \<not> revoked r \<and> family_id r = snd x" if "fst (claim S c (tables st)) = Some x"
    using claim_Some [of S c "tables st" "fst x" "snd x"] that by (auto simp: claimable_def)
  with Claim assms show ?thesis by (auto simp: case_prod_beta Let_def split: option.splits)
next
  case (Issue k tok)
  with assms show ?thesis by (auto split: if_splits prod.splits dest: in_set_takeD in_set_dropD)
qed (use assms in auto)

section \<open>Redeemed once\<close>

definition spent :: "jstring \<Rightarrow> auth_state \<Rightarrow> bool" where
  "spent h st \<longleftrightarrow> (\<forall>r \<in> set (tokens st). token_hash r = h \<longrightarrow> revoked r)"

text \<open>No event of a run makes a token of hash \<open>h\<close> again, and all servers use one hash.\<close>

fun no_reissue :: "(jstring \<Rightarrow> jstring) \<Rightarrow> jstring \<Rightarrow> auth_state \<Rightarrow> (auth_server \<times> auth_event) list \<Rightarrow> bool" where
  "no_reissue H h st [] \<longleftrightarrow> True"
| "no_reissue H h st ((S, e) # es) \<longleftrightarrow>
     hashToken S = H \<and> (case brings st e of Some (tok, family) \<Rightarrow> H tok \<noteq> h | None \<Rightarrow> True) \<and>
     no_reissue H h (session_step st (S, e)) es"

lemma spent_step:
  assumes "spent h st" and "case brings st e of Some (tok, family) \<Rightarrow> hashToken S tok \<noteq> h | None \<Rightarrow> True"
  shows "spent h (session_step st (S, e))"
  unfolding spent_def using step_tokens [of _ st S e] assms by (fastforce simp: spent_def)

lemma spent_run: "spent h st \<Longrightarrow> no_reissue H h st es \<Longrightarrow> spent h (foldl session_step st es)"
proof (induction es arbitrary: st)
  case (Cons x es)
  obtain S e where x: "x = (S, e)" by (cases x)
  with Cons.prems have "spent h (session_step st (S, e))"
    by (intro spent_step) (auto split: option.splits)
  with Cons x show ?case by simp
qed simp

lemma spent_claim: "spent (hashToken S c) st \<Longrightarrow> fst (claim S c (tables st)) = None"
proof -
  assume "spent (hashToken S c) st"
  then have "find (claimable (auth_now S) (hashToken S c)) (tokens st) = None"
    by (auto simp: find_None_iff claimable_def spent_def)
  then show ?thesis by (simp add: claim_def Let_def)
qed

lemma claim_spends:
  assumes "distinct (map token_hash (tokens st))" and "fst (claim S c (tables st)) = Some x"
  shows "spent (hashToken S c) (session_step st (S, Claim c))"
proof -
  from claim_Some [of S c "tables st" "fst x" "snd x"] assms(2)
  obtain r where r: "r \<in> set (tokens st)" "claimable (auth_now S) (hashToken S c) r"
      "refresh_tokens (snd (claim S c (tables st))) =
        map (\<lambda>x. if claimable (auth_now S) (hashToken S c) x then x\<lparr>revoked := True\<rparr> else x) (tokens st)"
    by auto
  have "y = r" if "y \<in> set (tokens st)" "token_hash y = hashToken S c" for y
    using that r(1,2) assms(1) by (metis claimable_def distinct_map inj_onD)
  with r show ?thesis by (auto simp: spent_def case_prod_beta Let_def)
qed

section \<open>A family that was reused\<close>

definition dead_family :: "jstring \<Rightarrow> auth_state \<Rightarrow> bool" where
  "dead_family f st \<longleftrightarrow> (\<forall>r \<in> set (tokens st). family_id r = f \<longrightarrow> revoked r) \<and> f \<notin> snd ` set (claimed st)"

text \<open>Sign-ins draw a family of their own.\<close>

definition other_family :: "jstring \<Rightarrow> auth_event \<Rightarrow> bool" where
  "other_family f e \<longleftrightarrow> (case e of SignIn g tok a \<Rightarrow> g \<noteq> f | UseLink g tok t \<Rightarrow> g \<noteq> f | _ \<Rightarrow> True)"

lemma dead_family_step:
  assumes dead: "dead_family f st" and other: "other_family f e"
  shows "dead_family f (session_step st (S, e))"
proof -
  have "g \<noteq> f" if "brings st e = Some (tok, g)" for tok g
    using that dead other by (auto simp: brings_def other_family_def dead_family_def split: auth_event.splits if_splits)
  then have "revoked r" if "r \<in> set (tokens (session_step st (S, e)))" "family_id r = f" for r
    using step_tokens [OF that(1)] that(2) dead unfolding dead_family_def by auto
  moreover have "snd x \<noteq> f" if "x \<in> set (claimed (session_step st (S, e)))" for x
    using step_claimed [OF that] dead unfolding dead_family_def by auto
  ultimately show ?thesis by (auto simp: dead_family_def)
qed

lemma reuse_kills:
  assumes r: "r \<in> set (tokens st)" "revoked r" "token_hash r = hashToken S c" and c: "c \<noteq> []"
    and dist: "distinct (hashes st)" and none: "family_id r \<notin> snd ` set (claimed st)"
    and ok: "\<not> auth_fails S ReuseQuery" "\<not> auth_fails S RevokeFamily"
  shows "dead_family (family_id r) (session_step st (S, Claim c))"
proof -
  have only: "x = r" if "x \<in> set (tokens st)" "token_hash x = hashToken S c" for x
    using that r(1,3) dist by (metis distinct_map inj_onD)
  have "find (claimable (auth_now S) (hashToken S c)) (tokens st) = None"
    using only r(2) by (auto simp: find_None_iff claimable_def)
  moreover obtain x where x: "find (\<lambda>r. token_hash r = hashToken S c \<and> revoked r) (tokens st) = Some x"
    using r by (cases "find (\<lambda>r. token_hash r = hashToken S c \<and> revoked r) (tokens st)") (auto simp: find_None_iff)
  moreover from x have "x = r" by (intro only) (auto simp: find_Some_iff)
  ultimately have "claim S c (tables st) =
      (None, (tables st)\<lparr>refresh_tokens := patch_by family_id (family_id r) (\<lambda>x. x\<lparr>revoked := True\<rparr>) (tokens st)\<rparr>)"
    using c ok by (simp add: claim_def Let_def)
  with none show ?thesis by (auto simp: dead_family_def patch_by_def)
qed

lemma dead_family_run: "dead_family f st \<Longrightarrow> \<forall>x \<in> set es. other_family f (snd x) \<Longrightarrow> dead_family f (foldl session_step st es)"
proof (induction es arbitrary: st)
  case (Cons x es)
  then show ?case using dead_family_step [of f st "snd x" "fst x"] by simp
qed simp

lemma dead_family_claim: "dead_family f st \<Longrightarrow> fst (claim S c (tables st)) \<noteq> Some (u, f)"
  using claim_Some [of S c "tables st" u f] by (auto simp: claimable_def dead_family_def)

section \<open>Distinct tokens, standing users\<close>

lemma revokes_hashes: "revokes xs ys \<Longrightarrow> map token_hash ys = map token_hash xs"
  by (auto simp: revokes_def intro: nth_equalityI)

lemma grows_distinct: "grows S tok family xs ys \<Longrightarrow> distinct (map token_hash xs) \<Longrightarrow> distinct (map token_hash ys)"
  by (auto simp: grows_def issued_def)

lemma distinct_map_filter_hash: "distinct (map token_hash xs) \<Longrightarrow> distinct (map token_hash (filter P xs))"
  by (induction xs) auto

lemma purge_hashes: "distinct (map token_hash (refresh_tokens db)) \<Longrightarrow>
    distinct (map token_hash (refresh_tokens (purgeExpiredRefreshTokens S db)))"
  by (simp add: purgeExpiredRefreshTokens_def distinct_map_filter_hash)

lemma step_distinct: "distinct (hashes st) \<Longrightarrow> distinct (hashes (session_step st (S, e)))"
proof (cases e)
  case (Claim c)
  then show "distinct (hashes st) \<Longrightarrow> ?thesis"
    using revokes_hashes [OF claim_tokens, of S c "tables st"] by (simp add: case_prod_beta Let_def)
next
  case (Issue k tok)
  assume d: "distinct (hashes st)"
  with grows_distinct [OF issue_grows [OF refl] purge_hashes [OF d]] Issue show ?thesis
    by (simp split: prod.split)
next
  case (SignIn family tok a)
  then show "distinct (hashes st) \<Longrightarrow> ?thesis" using grows_distinct [OF google_grows] by simp
next
  case (UseLink family tok t)
  then show "distinct (hashes st) \<Longrightarrow> ?thesis" using grows_distinct [OF verify_grows] by simp
qed (simp_all add: Logout_def DeleteAccount_def link_tokens distinct_map_filter_hash split: sum.split)

lemma run_distinct: "distinct (hashes st) \<Longrightarrow> distinct (hashes (foldl session_step st es))"
proof (induction es arbitrary: st)
  case (Cons x es)
  then show ?case using step_distinct [of st "fst x" "snd x"] by simp
qed simp

text \<open>Only the deletion of an account takes a user away.\<close>

definition closes :: "int \<Rightarrow> auth_server \<Rightarrow> auth_event \<Rightarrow> bool" where
  "closes u S e \<longleftrightarrow> (case e of CloseAccount header a \<Rightarrow> Middleware S header = Inr u | _ \<Rightarrow> False)"

abbreviation user_ids :: "auth_db \<Rightarrow> int set" where
  "user_ids db \<equiv> fst ` set (users_table db)"

lemma claim_users [simp]: "users_table (snd (claim S c db)) = users_table db"
  by (simp add: claim_def Let_def split: option.split)

lemma issue_users [simp]: "users_table (snd (issueTokens S u family tok db)) = users_table db"
  by (simp add: issueTokens_def)

lemma purge_users [simp]: "users_table (purgeExpiredRefreshTokens S db) = users_table db"
  by (simp add: purgeExpiredRefreshTokens_def)

lemma login_users: "user_ids db \<subseteq> user_ids (snd (completeLogin S family tok a db))"
  by (auto simp: completeLogin_def Let_def split: option.split)

lemma google_users: "user_ids db \<subseteq> user_ids (snd (Google S family tok b db))"
  using login_users by (simp add: Google_def split: option.split sum.split)

lemma verify_users: "user_ids db \<subseteq> user_ids (snd (MagicVerify S family tok t db))"
proof -
  have "user_ids db \<subseteq> user_ids (snd (completeLogin S family tok a (db\<lparr>magic_links := ls\<rparr>)))" for a ls
    using login_users [of "db\<lparr>magic_links := ls\<rparr>"] by simp
  then show ?thesis by (simp add: MagicVerify_def split: option.split sum.split)
qed

lemma step_users:
  assumes "u \<in> user_ids (tables st)" and "\<not> closes u S e"
  shows "u \<in> user_ids (tables (session_step st (S, e)))"
proof (cases e)
  case (Claim c)
  with assms show ?thesis by (simp add: case_prod_beta Let_def)
next
  case (Issue k tok)
  with assms show ?thesis by (simp split: prod.split)
next
  case (SignIn family tok a)
  with assms show ?thesis using google_users [of "tables st" S family tok a] by auto
next
  case (UseLink family tok t)
  with assms show ?thesis using verify_users [of "tables st" S family tok t] by auto
next
  case (CloseAccount header a)
  then show ?thesis using assms by (force simp: DeleteAccount_def closes_def split: sum.split)
qed (use assms in \<open>auto simp: Logout_def MagicRequest_def Let_def split: sum.split\<close>)

section \<open>A browser among other requests\<close>

text \<open>
  A browser of user \<open>u\<close>: it holds the cookie \<open>c\<close> until \<open>t\<close>, or the API has claimed the cookie and not
  yet issued the next one.
\<close>

datatype browser = Holding jstring int | Refreshing

fun keeps_session :: "(jstring \<Rightarrow> jstring) \<Rightarrow> int \<Rightarrow> jstring \<Rightarrow> auth_state \<Rightarrow> browser \<Rightarrow> bool" where
  "keeps_session H u f st (Holding c t) \<longleftrightarrow>
     distinct (hashes st) \<and> u \<in> user_ids (tables st) \<and> c \<noteq> [] \<and>
     \<lparr>token_hash = H c, token_user = u, family_id = f, expires_at = t, revoked = False\<rparr> \<in> set (tokens st)"
| "keeps_session H u f st Refreshing \<longleftrightarrow>
     distinct (hashes st) \<and> u \<in> user_ids (tables st) \<and> (u, f) \<in> set (claimed st)"

text \<open>What the browser does, one refresh at a time, in time, with the queries of the API succeeding.\<close>

fun own_move :: "(jstring \<Rightarrow> jstring) \<Rightarrow> int \<Rightarrow> jstring \<Rightarrow> auth_state \<Rightarrow> browser \<Rightarrow> auth_server \<Rightarrow> auth_event \<Rightarrow> bool" where
  "own_move H u f st (Holding c t) S (Claim c') \<longleftrightarrow> c' = c \<and> auth_now S < t \<and> \<not> auth_fails S ClaimQuery"
| "own_move H u f st Refreshing S (Issue k tok) \<longleftrightarrow>
     k < length (claimed st) \<and> claimed st ! k = (u, f) \<and> tok \<noteq> [] \<and> H tok \<notin> set (hashes st) \<and>
     \<not> auth_fails S MintToken \<and> \<not> auth_fails S RandomBytes \<and> \<not> auth_fails S TokenInsert"
| "own_move H u f st b S e \<longleftrightarrow> False"

text \<open>
  What all others may do meanwhile: anything but present a token of the family, finish the browser's
  refresh, sign the browser's own cookie out, close the account, or run after the cookie has expired.
\<close>

definition foreign_move :: "(jstring \<Rightarrow> jstring) \<Rightarrow> int \<Rightarrow> jstring \<Rightarrow> auth_state \<Rightarrow> browser \<Rightarrow> auth_server \<Rightarrow> auth_event \<Rightarrow> bool" where
  "foreign_move H u f st b S e \<longleftrightarrow>
     \<not> closes u S e \<and> (case b of Holding c t \<Rightarrow> auth_now S \<le> t | Refreshing \<Rightarrow> True) \<and>
     (case e of
        Claim c' \<Rightarrow> (\<forall>r \<in> set (tokens st). token_hash r = H c' \<longrightarrow> family_id r \<noteq> f)
      | SignOut c' \<Rightarrow> (case b of Holding c t \<Rightarrow> H c' \<noteq> H c | Refreshing \<Rightarrow> True)
      | Issue k tok \<Rightarrow> (case b of Holding c t \<Rightarrow> True | Refreshing \<Rightarrow> k < length (claimed st) \<longrightarrow> claimed st ! k \<noteq> (u, f))
      | _ \<Rightarrow> True)"

fun browser_after :: "browser \<Rightarrow> auth_server \<Rightarrow> auth_event \<Rightarrow> browser" where
  "browser_after b S (Claim c) = Refreshing"
| "browser_after b S (Issue k tok) = Holding tok (auth_now S + refreshTokenTTL)"
| "browser_after b S e = b"

text \<open>A run of own (\<open>True\<close>) and foreign steps, and where it leads.\<close>

fun honest :: "(jstring \<Rightarrow> jstring) \<Rightarrow> int \<Rightarrow> jstring \<Rightarrow> auth_state \<Rightarrow> browser \<Rightarrow> (bool \<times> auth_server \<times> auth_event) list \<Rightarrow> bool" where
  "honest H u f st b [] \<longleftrightarrow> True"
| "honest H u f st b ((own, S, e) # es) \<longleftrightarrow>
     hashToken S = H \<and> (if own then own_move H u f st b S e else foreign_move H u f st b S e) \<and>
     honest H u f (session_step st (S, e)) (if own then browser_after b S e else b) es"

fun browsed :: "auth_state \<Rightarrow> browser \<Rightarrow> (bool \<times> auth_server \<times> auth_event) list \<Rightarrow> auth_state \<times> browser" where
  "browsed st b [] = (st, b)"
| "browsed st b ((own, S, e) # es) = browsed (session_step st (S, e)) (if own then browser_after b S e else b) es"

lemma claim_own:
  assumes "keeps_session H u f st (Holding c t)" and "hashToken S = H" and "auth_now S < t" and "\<not> auth_fails S ClaimQuery"
  shows "fst (claim S c (tables st)) = Some (u, f)"
proof -
  let ?r = "\<lparr>token_hash = H c, token_user = u, family_id = f, expires_at = t, revoked = False\<rparr>"
  from assms have r: "?r \<in> set (tokens st)" "claimable (auth_now S) (hashToken S c) ?r"
    by (auto simp: claimable_def)
  then obtain x where x: "find (claimable (auth_now S) (hashToken S c)) (tokens st) = Some x"
    by (cases "find (claimable (auth_now S) (hashToken S c)) (tokens st)") (auto simp: find_None_iff)
  then have "x \<in> set (tokens st)" "token_hash x = H c" using assms(2) by (auto simp: find_Some_iff claimable_def)
  with r(1) assms(1) have "x = ?r"
    by (metis (mono_tags) distinct_map inj_onD keeps_session.simps(1) refresh_token.select_convs(1))
  with x assms show ?thesis by (simp add: claim_def Let_def)
qed

lemma own_step:
  assumes "keeps_session H u f st b" and "own_move H u f st b S e" and "hashToken S = H"
  shows "keeps_session H u f (session_step st (S, e)) (browser_after b S e)"
proof (cases b)
  case (Holding c t)
  with assms(2) have e: "e = Claim c" and ok: "auth_now S < t" "\<not> auth_fails S ClaimQuery" by (cases e; simp)+
  from Holding assms have "fst (claim S c (tables st)) = Some (u, f)" by (intro claim_own [OF _ _ ok]) auto
  with e Holding assms step_distinct [of st S e] show ?thesis by (simp add: case_prod_beta Let_def)
next
  case Refreshing
  with assms(2) obtain k tok where e: "e = Issue k tok" by (cases e) auto
  let ?db = "purgeExpiredRefreshTokens S (tables st)"
  have "hashToken S tok \<notin> token_hash ` set (refresh_tokens ?db)"
    using assms e Refreshing purge_tokens [of S "tables st"] by auto
  then show ?thesis using assms e Refreshing step_distinct [of st S e] by (simp add: issueTokens_def)
qed

lemma delete_keeps: "r \<in> set (refresh_tokens db) \<Longrightarrow> Middleware S header \<noteq> Inr (token_user r) \<Longrightarrow>
    r \<in> set (refresh_tokens (snd (DeleteAccount S header a db)))"
  by (auto simp: DeleteAccount_def split: sum.split)

lemma grows_keeps: "grows S tok family xs ys \<Longrightarrow> r \<in> set xs \<Longrightarrow> r \<in> set ys"
  by (auto simp: grows_def)

lemma claim_foreign:
  assumes "r \<in> set (refresh_tokens db)" and "\<forall>x \<in> set (refresh_tokens db). token_hash x = hashToken S c \<longrightarrow> family_id x \<noteq> family_id r"
  shows "r \<in> set (refresh_tokens (snd (claim S c db)))"
proof -
  from assms have "\<not> claimable (auth_now S) (hashToken S c) r" by (auto simp: claimable_def)
  moreover have "family_id x \<noteq> family_id r"
    if "find (\<lambda>r. token_hash r = hashToken S c \<and> revoked r) (refresh_tokens db) = Some x" for x
    using that assms(2) by (auto simp: find_Some_iff)
  ultimately show ?thesis
    using assms(1) by (force simp: claim_def Let_def patch_by_def split: option.split if_splits)
qed

lemma kept_claim: "x \<in> set xs \<Longrightarrow> k < length xs \<Longrightarrow> xs ! k \<noteq> x \<Longrightarrow> x \<in> set (take k xs @ drop (Suc k) xs)"
  using id_take_nth_drop [of k xs] by (metis Un_iff insert_iff list.set(2) set_append)

lemma foreign_step:
  assumes keeps: "keeps_session H u f st b" and move: "foreign_move H u f st b S e" and hash: "hashToken S = H"
  shows "keeps_session H u f (session_step st (S, e)) b"
proof -
  have users: "u \<in> user_ids (tables (session_step st (S, e)))"
    using keeps move by (intro step_users) (cases b; simp add: foreign_move_def)+
  have dist: "distinct (hashes (session_step st (S, e)))"
    using keeps by (intro step_distinct) (cases b; simp)
  show ?thesis
  proof (cases b)
    case (Holding c t)
    let ?r = "\<lparr>token_hash = H c, token_user = u, family_id = f, expires_at = t, revoked = False\<rparr>"
    have r: "?r \<in> set (tokens st)" using keeps Holding by simp
    have "?r \<in> set (tokens (session_step st (S, e)))"
    proof (cases e)
      case (Claim c')
      with move r hash show ?thesis
        using claim_foreign [of ?r "tables st" S c'] by (simp add: foreign_move_def case_prod_beta Let_def)
    next
      case (Issue k tok)
      have "?r \<in> set (refresh_tokens (purgeExpiredRefreshTokens S (tables st)))"
        using r move Holding by (simp add: foreign_move_def purgeExpiredRefreshTokens_def)
      from grows_keeps [OF issue_grows [OF refl] this] Issue r show ?thesis by (simp split: prod.split)
    next
      case (SignIn family tok a)
      with grows_keeps [OF google_grows r] show ?thesis by simp
    next
      case (UseLink family tok t)
      with grows_keeps [OF verify_grows r] show ?thesis by simp
    next
      case (CloseAccount header a)
      with delete_keeps [OF r] move show ?thesis by (simp add: foreign_move_def closes_def)
    qed (use r move hash Holding in \<open>auto simp: foreign_move_def Logout_def link_tokens\<close>)
    with users dist Holding keeps show ?thesis by simp
  next
    case Refreshing
    have "(u, f) \<in> set (claimed (session_step st (S, e)))"
      using keeps move Refreshing
      by (cases e) (auto simp: foreign_move_def case_prod_beta Let_def split: prod.split dest: kept_claim)
    with users dist Refreshing show ?thesis by simp
  qed
qed

lemma honest_run: "keeps_session H u f st b \<Longrightarrow> honest H u f st b es \<Longrightarrow>
    keeps_session H u f (fst (browsed st b es)) (snd (browsed st b es))"
proof (induction H u f st b es rule: honest.induct)
  case (2 H u f st b own S e es)
  then have "keeps_session H u f (session_step st (S, e)) (if own then browser_after b S e else b)"
    using own_step [of H u f st b S e] foreign_step [of H u f st b S e] by (simp split: if_splits)
  with 2 show ?case by simp
qed simp

lemma claim_pair:
  assumes "fst (claim S c db) = Some x"
  obtains db1 where "claim S c db = (Some x, db1)" "snd (claim S c db) = db1"
  using assms by (cases "claim S c db") simp

text \<open>\<open>Refresh\<close> is its two halves.\<close>

lemma Refresh_steps:
  assumes "fst (claim S c (tables st)) = Some (u, f)"
  shows "tables (session_step (session_step (st\<lparr>claimed := []\<rparr>) (S, Claim c)) (S, Issue 0 tok)) = snd (Refresh S c tok (tables st))"
proof -
  from assms obtain db1 where "claim S c (tables st) = (Some (u, f), db1)" by (rule claim_pair)
  then show ?thesis by (simp add: Refresh_def)
qed

lemma refresh_own:
  assumes "keeps_session H u f st (Holding c t)" and "hashToken S = H" and "auth_now S < t" and "tok \<noteq> []"
    and "H tok \<notin> set (hashes st)"
    and "\<not> auth_fails S ClaimQuery" and "\<not> auth_fails S MintToken" and "\<not> auth_fails S RandomBytes" and "\<not> auth_fails S TokenInsert"
  shows "fst (Refresh S c tok (tables st)) = Session (mint S u (auth_now S)) tok \<and>
    keeps_session H u f (st\<lparr>tables := snd (Refresh S c tok (tables st))\<rparr>) (Holding tok (auth_now S + refreshTokenTTL))"
proof -
  let ?st = "st\<lparr>claimed := []\<rparr>" and ?db = "snd (claim S c (tables st))"
  let ?st1 = "session_step ?st (S, Claim c)" and ?b = "Holding c t"
  from assms have got: "fst (claim S c (tables st)) = Some (u, f)" by (intro claim_own)
  have h1: "token_hash ` set (refresh_tokens ?db) = set (hashes st)"
    using arg_cong [OF revokes_hashes [OF claim_tokens, of S c "tables st"], of set] by simp
  have k1: "keeps_session H u f ?st1 Refreshing"
    using own_step [of H u f ?st ?b S "Claim c"] assms by simp
  have m1: "own_move H u f ?st1 Refreshing S (Issue 0 tok)"
    using assms got h1 by (simp add: case_prod_beta Let_def)
  from own_step [OF k1 m1] assms(2)
  have k2: "keeps_session H u f (session_step ?st1 (S, Issue 0 tok)) (Holding tok (auth_now S + refreshTokenTTL))" by simp
  from got obtain db1 where db1: "claim S c (tables st) = (Some (u, f), db1)" "?db = db1" by (rule claim_pair)
  have "u \<in> user_ids db1" using assms(1) claim_users [of S c "tables st"] db1(2) by simp
  moreover have "hashToken S tok \<notin> token_hash ` set (refresh_tokens (purgeExpiredRefreshTokens S db1))"
    using h1 db1(2) assms(2,5) image_mono [OF purge_tokens, of token_hash S db1] by auto
  ultimately have "fst (Refresh S c tok (tables st)) = Session (mint S u (auth_now S)) tok"
    using db1(1) assms by (simp add: Refresh_def issueTokens_def)
  with k2 show ?thesis unfolding keeps_session.simps Refresh_steps [OF got] by simp
qed

section \<open>The results\<close>

definition no_users :: auth_state where
  "no_users = \<lparr>tables = \<lparr>users_table = [], refresh_tokens = [], magic_links = [], last_user = 0\<rparr>, claimed = []\<rparr>"

text \<open>A server whose queries succeed, at time \<open>t\<close>, with the identity as the hash.\<close>

definition demo_auth :: "int \<Rightarrow> auth_server" where
  "demo_auth t = \<lparr>auth_fails = (\<lambda>q. False), hashToken = (\<lambda>x. x), mint = (\<lambda>u n. js ''jwt''), user_of = (\<lambda>x. None),
     lower = (\<lambda>x. x), signupOpen = True, throttled = (\<lambda>k. False), valid_address = (\<lambda>a. True),
     disposable = (\<lambda>a. False), google = Some, auth_now = t\<rparr>"

lemma demo_hash: "hashToken (demo_auth t) = (\<lambda>x. x)"
  by (simp add: demo_auth_def)

definition demo_in :: "(auth_server \<times> auth_event) list" where
  "demo_in = [(demo_auth 1, SignIn (js ''f'') (js ''A'') (Decoded (js ''a@b.c'')))]"

text \<open>
  C11: A refresh token is redeemed at most once. Once a claim of it has succeeded, in whatever state requests
  have brought the tables to, no later presentation of it succeeds, however refreshes, sign-ins and sign-outs are interleaved and
  whatever queries fail; unless the random source repeats itself.
\<close>

theorem token_redeemed_once:
  assumes "st = foldl session_step no_users before"
    and "hashToken S = H" and "fst (claim S c (tables st)) = Some x"
    and "no_reissue H (H c) (session_step st (S, Claim c)) after"
    and "hashToken S' = H" and "H c' = H c"
  shows "fst (claim S' c' (tables (foldl session_step (session_step st (S, Claim c)) after))) = None"
proof -
  have "distinct (hashes st)" unfolding assms(1) by (rule run_distinct) (simp add: no_users_def)
  from claim_spends [OF this assms(3)] assms have "spent (H c) (session_step st (S, Claim c))" by simp
  from spent_run [OF this assms(4)] assms show ?thesis by (intro spent_claim) simp
qed

lemma token_redeemed_once_witness:
  "fst (claim (demo_auth 3) (js ''A'') (tables (foldl session_step
     (session_step (foldl session_step no_users demo_in) (demo_auth 2, Claim (js ''A''))) [(demo_auth 3, Issue 0 (js ''B''))]))) = None"
proof (rule token_redeemed_once [where before = demo_in and H = "\<lambda>x. x" and x = "(1, js ''f'')", OF refl])
  let ?st = "foldl session_step no_users demo_in"
  show "fst (claim (demo_auth 2) (js ''A'') (tables ?st)) = Some (1, js ''f'')" by code_simp
  have "brings (session_step ?st (demo_auth 2, Claim (js ''A''))) (Issue 0 (js ''B'')) = Some (js ''B'', js ''f'')" by code_simp
  then show "no_reissue (\<lambda>x. x) (js ''A'') (session_step ?st (demo_auth 2, Claim (js ''A''))) [(demo_auth 3, Issue 0 (js ''B''))]"
    by (simp add: demo_auth_def js_def)
qed (simp_all add: demo_auth_def)



text \<open>
  C10: A browser that refreshes one call at a time keeps its session. Whatever other requests are served
  between and inside its refreshes, as long as none presents a token of its family, signs it out or
  closes its account and it comes back before its cookie expires, each refresh answers with an access token of its own user
  and leaves it with the next cookie.
\<close>

theorem honest_browser_keeps_session:
  assumes "keeps_session H u f st b" and "honest H u f st b es"
    and "browsed st b es = (st', Holding c t)"
    and "hashToken S = H" and "auth_now S < t" and "tok \<noteq> []" and "H tok \<notin> set (hashes st')"
    and "\<not> auth_fails S ClaimQuery" and "\<not> auth_fails S MintToken" and "\<not> auth_fails S RandomBytes" and "\<not> auth_fails S TokenInsert"
  shows "fst (Refresh S c tok (tables st')) = Session (mint S u (auth_now S)) tok \<and>
    keeps_session H u f (st'\<lparr>tables := snd (Refresh S c tok (tables st'))\<rparr>) (Holding tok (auth_now S + refreshTokenTTL))"
proof -
  have k: "keeps_session H u f st' (Holding c t)" using honest_run [OF assms(1,2)] assms(3) by simp
  from refresh_own [OF this assms(4-11)] show ?thesis .
qed

definition demo_moves :: "(bool \<times> auth_server \<times> auth_event) list" where
  "demo_moves = [(True, demo_auth 2, Claim (js ''A'')), (False, demo_auth 2, SignIn (js ''g'') (js ''C'') (Decoded (js ''d@b.c''))),
     (True, demo_auth 3, Issue 0 (js ''B'')), (False, demo_auth 4, SignOut (js ''C''))]"

lemma honest_browser_keeps_session_witness:
  "fst (Refresh (demo_auth 5) (js ''B'') (js ''D'')
     (tables (fst (browsed (foldl session_step no_users demo_in) (Holding (js ''A'') (1 + refreshTokenTTL)) demo_moves)))) =
   Session (js ''jwt'') (js ''D'')"
proof -
  let ?st = "foldl session_step no_users demo_in" and ?b = "Holding (js ''A'') (1 + refreshTokenTTL)"
  have "keeps_session (\<lambda>x. x) 1 (js ''f'') ?st ?b" by code_simp
  moreover have "honest (\<lambda>x. x) 1 (js ''f'') ?st ?b demo_moves"
    unfolding demo_moves_def honest.simps demo_hash by (intro conjI refl TrueI; code_simp)
  moreover have "browsed ?st ?b demo_moves = (fst (browsed ?st ?b demo_moves), Holding (js ''B'') (3 + refreshTokenTTL))" by code_simp
  ultimately have "fst (Refresh (demo_auth 5) (js ''B'') (js ''D'') (tables (fst (browsed ?st ?b demo_moves)))) =
      Session (mint (demo_auth 5) 1 (auth_now (demo_auth 5))) (js ''D'') \<and>
    keeps_session (\<lambda>x. x) 1 (js ''f'')
      (fst (browsed ?st ?b demo_moves)\<lparr>tables := snd (Refresh (demo_auth 5) (js ''B'') (js ''D'') (tables (fst (browsed ?st ?b demo_moves))))\<rparr>)
      (Holding (js ''D'') (auth_now (demo_auth 5) + refreshTokenTTL))"
    by (rule honest_browser_keeps_session [OF _ _ _ demo_hash]) code_simp+
  then show ?thesis by (simp add: demo_auth_def)
qed

text \<open>
  The condition is needed. Two tabs that start together present the same cookie, and the second one is
  treated as a thief: after its refusal the cookie of the first is revoked too. The same happens to a single
  browser when the answer of a refresh is lost and it presents the old cookie again.
\<close>

lemma two_tabs_lose_session:
  "let st = foldl session_step no_users (demo_in @ [(demo_auth 2, Claim (js ''A'')), (demo_auth 2, Issue 0 (js ''B''))]) in
   fst (Refresh (demo_auth 3) (js ''B'') (js ''C'') (tables st)) = Session (js ''jwt'') (js ''C'') \<and>
   fst (Refresh (demo_auth 3) (js ''A'') (js ''C'') (tables st)) = deny 401 ''invalid refresh token'' \<and>
   fst (Refresh (demo_auth 4) (js ''B'') (js ''D'') (snd (Refresh (demo_auth 3) (js ''A'') (js ''C'') (tables st)))) =
     deny 401 ''invalid refresh token''"
  by code_simp

text \<open>
  Nor does the treatment always end the family: when the old token is presented between the halves of the
  first refresh, the token issued afterwards is not revoked.
\<close>

lemma late_issue_survives_reuse:
  "let st = foldl session_step no_users (demo_in @ [(demo_auth 2, Claim (js ''A'')), (demo_auth 2, Claim (js ''A'')),
     (demo_auth 2, Issue 0 (js ''B''))]) in
   fst (Refresh (demo_auth 3) (js ''B'') (js ''C'') (tables st)) = Session (js ''jwt'') (js ''C'')"
  by code_simp

end
