(* ===== verification/Spec2Isabelle.thy ===== *)
theory Spec2Isabelle
  imports AuthConcurrency JsonFuel Contexts Pages ChatRefinement Pipeline Sessions
begin

text \<open>
  Verification of a chat: its web client (\<^verbatim>\<open>web/src\<close>, TypeScript and React), its API server (\<^verbatim>\<open>api\<close>,
  Go) and the event translation of its agent (\<^verbatim>\<open>agent/src\<close>, Python). Sources of the client are named
  relative to \<^verbatim>\<open>web/src\<close>; definitions keep the names of the functions and components they model.

  \<^bold>\<open>The program.\<close> A turn starts in the client, which posts the user's message. \<^verbatim>\<open>api/chat.go\<close> stores it,
  gives the agent the conversation, relays the frames of \<^verbatim>\<open>agent/src/events.py\<close> to the client as they
  come, keeps them as nodes, and stores these with the reply. A reload reads the stored rows.
  \<^verbatim>\<open>lib/api.ts\<close> talks to the API server: it keeps the access token, refreshes it once for
  all calls that were rejected, and reads the answer of a turn as a stream of server-sent events.
  \<^verbatim>\<open>lib/messages-context.tsx\<close> turns these events into the messages of each conversation,
  \<^verbatim>\<open>lib/run-log.ts\<close> derives the timeline, the answer text and the plan from the nodes of a reply, and
  \<^verbatim>\<open>components/\<close> and \<^verbatim>\<open>app/\<close> show them. \<^verbatim>\<open>lib/auth-context.tsx\<close>, \<^verbatim>\<open>conversations-context.tsx\<close>,
  \<^verbatim>\<open>usage-context.tsx\<close> and \<^verbatim>\<open>toast-context.tsx\<close> hold the other shared state; \<^verbatim>\<open>proxy.ts\<close> and
  \<^verbatim>\<open>lib/csp.ts\<close> run on the web server. \<^verbatim>\<open>api/auth_handlers.go\<close> rotates the refresh tokens of the sessions.

  \<^bold>\<open>The theories.\<close>
  \<^item> \<open>Prelude\<close>: JavaScript strings as lists of 16-bit code units, list and map helpers, and the
    locales \<open>machine_invariant\<close> and \<open>transition_invariant\<close> (an invariant kept by every step holds
    after every run), \<open>weighted_steps\<close> (steps that lower a weight end, and may be run to the end) and
    \<open>refinement\<close> (a machine whose steps are those of an abstract one). \<open>JsNumber\<close>: doubles as rounded
    rationals and \<open>Number::toString\<close>.
    \<open>NumberOrder\<close>: numbers as a linear order, and that rounding keeps it. \<open>Json\<close>,
    \<open>JsonRoundTrip\<close>, \<open>JsonFuel\<close>: \<open>JSON.parse\<close>, \<open>JSON.stringify\<close>, \<open>String(v)\<close>, that parsing undoes
    printing, and that the fuel of the parser suffices.
  \<^item> \<open>Sse\<close> (\<open>parseFrame\<close>, \<open>parseSSE\<close>), \<open>Utf8\<close> (the streaming \<open>TextDecoder\<close>), \<open>SendMessage\<close>
    (\<open>sendMessage\<close> with its read loop): from the chunks of the network to handler calls. The locale
    \<open>incremental_decoder\<close> states the contract of \<open>parseSSE\<close>: cutting the input elsewhere changes nothing.
  \<^item> \<open>Api\<close>: the session and every call of \<^verbatim>\<open>lib/api.ts\<close>, with errors as values. \<open>ApiConcurrency\<close>: the
    same client with calls that overlap, as step relations \<open>begins\<close> and \<open>continues\<close> cut at each
    \<open>await\<close>; \<open>authFetch_schedule\<close> ties it to the sequential \<open>authFetch\<close>. \<open>AuthConcurrency\<close> puts the
    functions of \<open>AuthProvider\<close> on top of it, as jobs cut at their awaits; \<open>provider_schedule\<close> ties it to
    the sequential \<open>Auth\<close>.
  \<^item> \<open>RunLog\<close>: \<^verbatim>\<open>lib/run-log.ts\<close>. \<open>buildTree\<close> links indices in a store and reads the forest back, as the
    source does with shared arrays.
  \<^item> \<open>MessagesStore\<close>: \<open>MessagesProvider\<close>, each of its operations and stream handlers a step \<open>op\<close> of one
    store; \<open>ChatRefinement\<close>: the abstract chat that each of its conversations implements.
    \<open>Conversations\<close>: \<open>ConversationsProvider\<close>, with the locale \<open>directory\<close> for what the titles of the
    stream rely on. \<open>Notices\<close>: toasts with their timers, and the usage meter.
  \<^item> \<open>Auth\<close>: \<open>AuthProvider\<close>, the guards, the sign-in page's state and \<open>Verify\<close>. \<open>Forms\<close>, \<open>Feedback\<close>,
    \<open>Overlays\<close>: the composer, the home page, rows, votes and notes, account deletion, menus, dialogs,
    the drawer, \<open>useMediaQuery\<close>, the text area's height, the sign-in script. \<open>View\<close>: what the
    components of \<^verbatim>\<open>components/turn\<close>, the message list and the plan dock render, as data.
  \<^item> Put together: \<open>ChatPage\<close> (a conversation page: composer, store and view), \<open>Shell\<close> (\<open>AppLayout\<close>
    mounting its providers with a session), \<open>Screens\<close> (pages as lists of controls, and machines that
    are driven by pressing what is shown), \<open>Routes\<close> (all routes with the shared session, page loads and
    redirects), \<open>Pages\<close> (paths, ids in paths, the pages without state, the links of every page),
    \<open>Contexts\<close> (the component tree and its hooks), \<open>Edge\<close> (the server's proxy and policy), and this
    theory (a turn from the agent to the message list and back from the tables).
  \<^item> Server side: \<open>Agent\<close> (\<open>Translator.handle\<close> and \<open>run\<close> of \<^verbatim>\<open>agent/src\<close>: from LangChain events to
    frames), \<open>Relay\<close> (\<open>dispatchEvent\<close> of \<^verbatim>\<open>api/agent.go\<close> and the callbacks of \<open>Chat.Send\<close>: frames on the
    wire and nodes kept), \<open>ChatApi\<close> (the tables and the handlers of \<^verbatim>\<open>api/chat.go\<close>, with the budget of
    \<^verbatim>\<open>api/usage.go\<close>), \<open>ApiContract\<close> (what these handlers keep and promise), \<open>Sessions\<close> (refresh tokens,
    sign-in links, sign-ins and account deletion), and \<open>Pipeline\<close> (agent, API and client composed).

  \<^bold>\<open>What the theorems show.\<close> Transport: the handler calls depend on the bytes and not on where they
  were cut, and a well-formed stream gives exactly its events. Session: never more than one refresh
  under way and no call lost, in every interleaving; one retry with the new token; a refused refresh
  ends the session; overlapping sign-ins, logouts and calls end, with a user only while there is a
  session; nothing of one session is kept for the next, across routes and page loads; the redirects
  settle, a page load ends on the page that fits the session, and no link is dead. Messages: a turn
  that ends, fails or is stopped leaves exactly the messages it should; a conversation is at every
  moment what an abstract chat, which knows no placeholders and temporary ids, makes of the same
  operations; ids stay distinct, settled messages and votes stay, and a conversation page shows
  Stop exactly while one reply runs. Run log: \<open>buildTree\<close> is total and gives the
  forest of the parent relation; a log in arrival order loses no node. Screens: deletions ask first,
  forms send once, thumbs agree with the server, menus and toasts close, the meter is monotone on
  doubles, no hook misses its provider. Web server: one policy in request and response.
  API: no user sees or changes data of another; ids rise, as the client's store needs it; the agent is
  given the whole conversation once; the budget holds for sends that do not overlap. Sessions: a
  refresh token is redeemed once, a reused one ends its family, and a browser that refreshes one call
  at a time, as \<open>single_flight\<close> shows for the client, keeps its session among all other requests. All
  three together: the nodes on the page are the nodes the API stores, and a turn looks after a reload
  as it did when it ended, also when the agent broke off.

  \<^bold>\<open>Bounds and fuel.\<close> \<open>JSON_parse\<close> has twice the length of the text and two as fuel, which \<open>JSON_parse_fuel\<close> shows to be
  enough for every text: more fuel gives the same result; reading the forest back has the number of nodes,
  which no acyclic chain of parents exceeds, and \<open>buildTree_forest\<close> shows that it always returns.
  \<open>parse_frames\<close>, \<open>ilog2\<close> and \<open>digits_str\<close> end by a measure. The decimal search of \<open>num_str\<close> tries the
  seventeen digits that a double can need.

  \<^bold>\<open>Parameters and assumptions.\<close> The network is an argument (\<open>env\<close>), any function of the requests made
  so far; so are \<open>toLowerCase\<close>, element sizes, and what Google's script provides. On the server,
  the events of the agent, the clock, the hash, signatures, random tokens, Google, the mailer, the
  limiters and which queries fail (\<open>fails\<close>, \<open>auth_fails\<close>) are arguments; a query that fails changes
  nothing, and one that succeeds is atomic. \<open>jsonb\<close> is what the database keeps of a JSON value:
  \<open>turn_survives_reload\<close> asks that it reads back the values of the turn as they are (\<open>storable\<close>), and that a
  log of nothing but text is one block, since of such a log the API keeps only the text. \<open>Send\<close> is two steps, up to the start
  of the run and after its end, and \<open>Refresh\<close> two, the claim and the issue, between which other
  requests are served. \<open>admissible\<close> says that the API gives positive ids it has not given before, which
  \<open>api_ids_admissible\<close> shows of the model of the API; \<open>page_allows\<close> that a stream ends once and that
  the history of a conversation is not fetched in the middle of its turn, which the code does not
  ensure (\<open>load_wipes_turn\<close>); \<open>stands_for\<close> that a frame is one line of JSON, as the server writes it.
  \<open>thumbs_in_sync\<close> lets each vote be answered before the next (\<open>overlapping_votes_diverge\<close> shows the
  rest). React is taken at its word: state set by a handler is seen by the next render, effects run
  after it, a component that leaves the tree loses its state. \<open>Auth\<close>, \<open>Shell\<close> and \<open>Routes\<close> run the calls of
  the provider one after the other; overlapping ones are in \<open>ApiConcurrency\<close> and \<open>AuthConcurrency\<close>, of
  whose schedules these are one. Ids in paths are integers below \<open>2 ^ 53\<close>; other paths name no route. \<open>Tab\<close> between two items of
  a menu is the browser's.

  \<^bold>\<open>Interfaces.\<close> \<open>incremental_decoder\<close> is interpreted for \<open>parseSSE\<close>; \<open>machine_invariant\<close> for the store
  (references, cached votes), the toasts, votes, thumbs, the menu on a resized screen, the sign-in
  script, the sign-in page, the shell and the site; \<open>transition_invariant\<close> for the overlapping calls
  and session functions, the store's ids, the conversation page and the tables of the API; \<open>weighted_steps\<close> for the
  continuations of the calls and of the provider; \<open>refinement\<close> for the store and the abstract chat; \<open>directory\<close> for the conversation list.

  \<^bold>\<open>What modelling showed.\<close> Lemmas named after them prove: a logout does not cancel a refresh
  (\<open>logout_races_refresh\<close>); a refused boot refresh undoes a sign-in (\<open>boot_refusal_drops_login\<close>), and a
  failed one hides it (\<open>late_boot_failure_hides_session\<close>); a late
  history wipes a turn (\<open>load_wipes_turn\<close>); a rejected send keeps running (\<open>failed_request_leaves_turn\<close>);
  a late listing drops a new conversation (\<open>late_list_drops_created\<close>); a failed logout keeps the shell
  (\<open>failed_logout_keeps_shell\<close>); a stale draft renames back (\<open>stale_draft_renames_back\<close>); Delete
  pressed twice reports a failure (\<open>double_press_reports_failure\<close>); a padded id in the path leaves the
  page on a deleted conversation (\<open>padded_id_stays_on_deleted\<close>); overlapping votes diverge; an
  uncancelled frame marks a closed menu as shown (\<open>late_frame_shows_closed_menu\<close>); tool names of
  \<open>Object.prototype\<close> have no text label (\<open>toolLabel_string_iff\<close>). In the API, overlapping sends exceed
  the budget (\<open>overlapping_sends_exceed_budget\<close>), two tabs that start together lose their session
  (\<open>two_tabs_lose_session\<close>), and a token issued while its family is revoked stays alive
  (\<open>late_issue_survives_reuse\<close>).

  \<^bold>\<open>Not modelled.\<close> Of the API: \<open>Agentz\<close>, the usage endpoint, the mirror of votes to LangSmith, the export
  of an account, the token buckets of \<^verbatim>\<open>ratelimit.go\<close> (a third-party package), mail, logging, migrations and HTTP itself. Of the
  agent: its graph, prompts and tools, which are calls of third-party frameworks. The deployment.
  The Markdown pipeline: configuration of third-party plugins, so texts are kept as
  Markdown source. Styling, icons, the styled elements of \<^verbatim>\<open>components/ui\<close> and the ASCII art of the name: markup
  without logic; the legal texts are an argument. Next.js and React themselves, beyond the behaviour named above.
\<close>

section \<open>A turn from the bytes to the screen\<close>

text \<open>The reply a turn leaves, as the page shows it.\<close>

lemma settled_reply:
  assumes "p = (placeholder m)\<lparr>streaming := False, nodes := nodes p\<rparr>"
  shows "idle_message (message_view u p) \<and> reply_actions p = Some (m, answerText (shown_nodes p), None)"
proof -
  have "\<not> streaming p" "msg_id p = m" "content p = []" "feedback p = None"
    by (subst assms, simp add: placeholder_def)+
  moreover have "answerText [] = []" by code_simp
  ultimately show ?thesis by (simp add: settled_message_idle reply_actions_def)
qed


text \<open>A first message, answered with two pieces of text, and the stream received byte by byte.\<close>

definition demo_answer :: "lc_event list" where
  "demo_answer = [demo_lc ModelStream ''m'' [] ''Hel'', demo_lc ModelStream ''m'' [] ''lo'']"

definition demo_frames :: "agent_frame list" where
  "demo_frames = gen False demo_answer False"

definition node_event :: SSEEvent where
  "node_event = \<lparr>event = js ''node'', data = JSON_stringify (event_payload (Node (node_of_frame
     \<lparr>frame_id = js ''m:text'', frame_parent = None, frame_type = js ''text'', frame_name = [], frame_input = None\<rparr>)))\<rparr>"

definition delta_event :: "string \<Rightarrow> SSEEvent" where
  "delta_event t = \<lparr>event = js ''delta'', data = JSON_stringify (event_payload (Delta (js ''m:text'') (js t)))\<rparr>"

definition done_event :: SSEEvent where
  "done_event = \<lparr>event = js ''done'', data = JSON_stringify (event_payload (Done 2))\<rparr>"

lemma event_data:
  "data node_event = js (''{'' @ [CHR 0x22] @ ''id'' @ [CHR 0x22] @ '':'' @ [CHR 0x22] @ ''m:text'' @ [CHR 0x22] @ '','' @
     [CHR 0x22] @ ''parent_id'' @ [CHR 0x22] @ '':null,'' @ [CHR 0x22] @ ''type'' @ [CHR 0x22] @ '':'' @ [CHR 0x22] @ ''text'' @ [CHR 0x22] @ ''}'')"
  "data (delta_event ''Hel'') = js (''{'' @ [CHR 0x22] @ ''id'' @ [CHR 0x22] @ '':'' @ [CHR 0x22] @ ''m:text'' @ [CHR 0x22] @ '','' @
     [CHR 0x22] @ ''text'' @ [CHR 0x22] @ '':'' @ [CHR 0x22] @ ''Hel'' @ [CHR 0x22] @ ''}'')"
  "data (delta_event ''lo'') = js (''{'' @ [CHR 0x22] @ ''id'' @ [CHR 0x22] @ '':'' @ [CHR 0x22] @ ''m:text'' @ [CHR 0x22] @ '','' @
     [CHR 0x22] @ ''text'' @ [CHR 0x22] @ '':'' @ [CHR 0x22] @ ''lo'' @ [CHR 0x22] @ ''}'')"
  "data done_event = js (''{'' @ [CHR 0x22] @ ''message_id'' @ [CHR 0x22] @ '':2}'')"
  using num_str_safe_int [of 2]
  by (simp_all add: node_event_def delta_event_def done_event_def node_json_def node_of_frame_def kind_of_def optional_def
      omitempty_def member_def raw_def JSON_stringify_def quote_def escape_unit_def js_text is_high_def is_low_def int_str_def digits_str.simps)

lemma demo_canonical:
  "canonical (event_payload (Node (node_of_frame
     \<lparr>frame_id = js ''m:text'', frame_parent = None, frame_type = js ''text'', frame_name = [], frame_input = None\<rparr>)))"
  "canonical (event_payload (Delta (js ''m:text'') (js t)))" "canonical (event_payload (Done 2))"
  by (simp_all add: node_json_def node_of_frame_def kind_of_def optional_def omitempty_def member_def raw_def
      obj_put_def key_index_def is_digit_def js_text)

text \<open>A frame written with \<open>JSON.stringify\<close> stands for its event if its text is one trimmed line.\<close>

lemma stands_for_stringify:
  assumes "event ev = event_name te" and "data ev = JSON_stringify (event_payload te)" and "canonical (event_payload te)"
    and "NL \<notin> set (data ev)" and "data ev \<noteq> [] \<and> \<not> is_ws (hd (data ev)) \<and> \<not> is_ws (last (data ev))"
  shows "stands_for ev te"
  using assms JSON_parse_stringify [OF assms(3)] trim_id [of "data ev"] by (simp add: stands_for_def)

lemma demo_stands:
  "stands_for node_event (Node (node_of_frame
     \<lparr>frame_id = js ''m:text'', frame_parent = None, frame_type = js ''text'', frame_name = [], frame_input = None\<rparr>))"
  "stands_for (delta_event ''Hel'') (Delta (js ''m:text'') (js ''Hel''))"
  "stands_for (delta_event ''lo'') (Delta (js ''m:text'') (js ''lo''))"
  "stands_for done_event (Done 2)"
  by (rule stands_for_stringify,
      simp add: node_event_def delta_event_def done_event_def,
      simp add: node_event_def delta_event_def done_event_def, rule demo_canonical,
      unfold event_data, simp add: js_text, simp add: js_text is_ws_def)+

definition demo_stream :: "SSEEvent list" where
  "demo_stream = [node_event, delta_event ''Hel'', delta_event ''lo'', done_event, demo_event]"

definition demo_units :: jstring where
  "demo_units = frames_text (map write_frame demo_stream)"

definition demo_chunks :: "byte list list" where
  "demo_chunks = map (\<lambda>b. [b]) (concat (map utf8_encode (map uint demo_units)))"

lemma demo_bytes:
  "concat (map utf16 (map uint demo_units)) = frames_text (map write_frame demo_stream)"
  "list_all scalar (map uint demo_units)"
  "concat demo_chunks = concat (map utf8_encode (map uint demo_units))"
proof -
  show "concat (map utf16 (map uint demo_units)) = frames_text (map write_frame demo_stream)"
    by (simp only: utf16_uint demo_units_def)
  have "list_all (\<lambda>c. scalar (uint c)) demo_units"
    by (simp add: demo_units_def demo_stream_def frames_text_def write_frame_def event_data demo_data js_text scalar_def)
      (simp add: demo_event_def node_event_def delta_event_def done_event_def js_text)
  then show "list_all scalar (map uint demo_units)" by (simp add: list_all_iff)
  show "concat demo_chunks = concat (map utf8_encode (map uint demo_units))"
    unfolding demo_chunks_def by (induction "concat (map utf8_encode (map uint demo_units))") simp_all
qed

definition streaming_net :: env where
  "streaming_net = scripted [Inr \<lparr>status = 200, body_text = Inr [], stream = Some (map Chunk demo_chunks)\<rparr>]"

lemma streaming_net:
  "fst (authFetch streaming_net (conversation_path 1 @ js ''/messages'') (sendMessage_request (js ''Hi'')) signed_in) =
   Inr \<lparr>status = 200, body_text = Inr [], stream = Some (map Chunk demo_chunks)\<rparr>"
  "ok \<lparr>status = 200, body_text = Inr [], stream = Some (map Chunk demo_chunks)\<rparr>"
  "stream \<lparr>status = 200, body_text = Inr [], stream = Some (map Chunk demo_chunks)\<rparr> = Some (map Chunk demo_chunks)"
  by (simp_all add: streaming_net_def authFetch_def fetch_def scripted_def signed_in_def Let_def ok_def)

definition demo_turn :: "turn_event list" where
  "demo_turn = [Node (node_of_frame
     \<lparr>frame_id = js ''m:text'', frame_parent = None, frame_type = js ''text'', frame_name = [], frame_input = None\<rparr>),
     Delta (js ''m:text'') (js ''Hel''), Delta (js ''m:text'') (js ''lo'')]"

definition demo_db2 :: database where
  "demo_db2 = snd (Send_finish demo_chat 1 [] 1 (js ''Hi'') True demo_frames None demo_db1)"

lemma demo_sent:
  "Send_finish demo_chat 1 [] 1 (js ''Hi'') True demo_frames None demo_db1 =
     (demo_turn @ [Done 2, Title (js ''Hi'')], demo_db2)"
proof -
  have "fst (Send_finish demo_chat 1 [] 1 (js ''Hi'') True demo_frames None demo_db1) = demo_turn @ [Done 2, Title (js ''Hi'')]"
    by code_simp
  then show ?thesis by (simp add: demo_db2_def prod_eq_iff)
qed

lemma demo_storable: "storable demo_chat (run_log (snd (agent_run demo_frames None relay_start)))"
proof -
  have "run_log (snd (agent_run demo_frames None relay_start)) =
      [\<lparr>trace_id = js ''m:text'', trace_parent = None, trace_type = js ''text'', trace_name = [], trace_input = None,
        trace_output = None, trace_text = js ''Hello''\<rparr>]"
    by code_simp
  then show ?thesis by (simp add: storable_def stored_node_def)
qed

lemma demo_stream_stands: "list_all2 stands_for demo_stream (demo_turn @ [Done 2, Title (js ''Hi'')])"
  using demo_stands demo_stands_for by (simp add: demo_stream_def demo_turn_def)


text \<open>
  C2: From the send to the message list: when the request of \<open>sendMessage\<close>, with its refresh and
  retry, is answered by a response whose body is the UTF-8 text of the frames of a turn with its
  \<open>done\<close>, and with titles after it or before, then however the body is cut into chunks the promise resolves, and the
  conversation holds its old messages, the user's message, and one settled reply with exactly the
  nodes of the turn, which shows nothing that runs, offers its copy and vote actions under the id of
  the API, and copies the answer of the turn; it is no longer sending, has no error, the usage is
  refreshed, and then the titles reach the list of conversations.
\<close>

theorem turn_end_to_end:
  assumes "store_reachable st"
    and "list_all progress_event tes" and "list_all declared tes"
    and "list_all2 stands_for evs (tes @ Done m # map Title ts)"
    and "concat (map utf16 cps) = frames_text (map write_frame evs)" and "list_all scalar cps"
    and "concat cs = concat (map utf8_encode cps)"
    and "fst (authFetch E (conversation_path i @ js ''/messages'') (sendMessage_request c) cl) = Inr res"
    and "ok res" and "stream res = Some (map Chunk cs)"
  shows "case fst (sendMessage E i c cl) of (calls, err) \<Rightarrow>
     err = None \<and>
     (let fin = deliver i (length (turns st)) calls (step st (Send i c)) in
      (\<exists>p. messages (conv_state fin i) = messages (conv_state st i) @ [user_message (tempId st - 1) c, p] \<and>
           p = (placeholder m)\<lparr>streaming := False, nodes := nodes p\<rparr> \<and> shown_nodes p = turn_nodes tes \<and>
           idle_message (message_view u p) \<and> reply_actions p = Some (m, answerText (turn_nodes tes), None)) \<and>
      \<not> sending (conv_state fin i) \<and> conv_error (conv_state fin i) = None \<and>
      (\<exists>pre. effects fin = pre @ RefreshUsage # map (PatchTitle i) ts))"
proof -
  let ?k = "length (turns st)" and ?all = "tes @ Done m # map Title ts"
  have sent: "fst (sendMessage E i c cl) = (map call_of ?all, None)"
    using assms(8-10) stream_delivers [OF assms(4-7)] by (rule sendMessage_streams)
  have "list_all declared ?all" using assms(3) by (auto simp: list_all_iff)
  then have fin: "deliver i ?k (map call_of ?all) (step st (Send i c)) = run st (Send i c # map (Handle i ?k) ?all)"
    by (simp add: deliver_calls del: map_append)
  from turn_done_titles [OF assms(1,2) refl refl, of i c m ts]
  obtain p pre where "messages (conv_state (run st (Send i c # map (Handle i ?k) ?all)) i) =
        messages (conv_state st i) @ [user_message (tempId st - 1) c, p]"
      and p: "p = (placeholder m)\<lparr>streaming := False, nodes := nodes p\<rparr>" "shown_nodes p = turn_nodes tes"
      and "\<not> sending (conv_state (run st (Send i c # map (Handle i ?k) ?all)) i)"
        "conv_error (conv_state (run st (Send i c # map (Handle i ?k) ?all)) i) = None"
        "effects (run st (Send i c # map (Handle i ?k) ?all)) = pre @ RefreshUsage # map (PatchTitle i) ts"
    by blast
  then show ?thesis
    unfolding sent prod.case Let_def fin using settled_reply [OF p(1), of u] p(2) by metis
qed

theorem turn_end_to_end_witness:
  "case fst (sendMessage streaming_net 1 (js ''Hi'') signed_in) of (calls, err) \<Rightarrow> err = None \<and>
     (\<exists>p. messages (conv_state (deliver 1 0 calls (step empty_store (Send 1 (js ''Hi'')))) 1) =
        [user_message (- 1) (js ''Hi''), p] \<and> reply_actions p = Some (2, answerText (turn_nodes demo_turn), None))"
proof -
  have 2: "list_all progress_event demo_turn" and 3: "list_all declared demo_turn"
    by (simp_all add: demo_turn_def node_of_frame_def)
  have 4: "list_all2 stands_for demo_stream (demo_turn @ Done 2 # map Title [js ''Hi''])"
    using demo_stream_stands by simp
  note turn_end_to_end [OF rtranclp.rtrancl_refl 2 3 4 demo_bytes streaming_net, of demo_ui,
      unfolded demo_start list.size(3) append_Nil diff_0 Let_def]
  then show ?thesis
    by (cases "fst (sendMessage streaming_net 1 (js ''Hi'') signed_in)") (simp only: prod.case, blast)
qed

end
